(* ===== verification/Prelude.thy ===== *)
theory Prelude
  imports Main "HOL-Library.Sublist"
begin

text \<open>
  What every component of the development shares: the C++ values and errors the models use
  (\<open>std::string\<close> as a list of bytes, \<open>npos\<close> as \<open>None\<close>, a failing operation as \<open>Inl\<close>), the
  sequencing of operations that may fail, the \<open>for\<close> loop over such operations, and the string
  operations of the C++ library the sources call.  Lemmas that carry the component proofs are
  collected in \<open>cxx_simps\<close> (rewriting) and \<open>loop_intros\<close> (loop rules).
\<close>

named_theorems cxx_simps \<open>rewrite rules for the C++ library operations\<close>
named_theorems loop_intros \<open>invariant rules for the loops\<close>

section \<open>Errors and sequencing\<close>

text \<open>
  The ways a modelled operation can go wrong: a heap access outside a block, a read of a heap
  cell that was never written, a size computation that leaves \<open>int\<close>, an exception
  \<open>std::out_of_range\<close>, an end or erased iterator that is dereferenced, a division of an
  \<open>int\<close> by zero, a null pointer that is dereferenced, a \<open>double\<close> outside \<open>int\<close> that is
  converted to \<open>int\<close>, an exception of the network library,
  and a call that does not return.
\<close>

datatype cxx_error =
    OutOfBounds | UninitRead | SizeOverflow | OutOfRange | BadIterator | DivByZero
  | NullDeref | BadConversion | SystemError | Hang

type_synonym 'a res = "cxx_error + 'a"

fun bindE :: "'e + 'a \<Rightarrow> ('a \<Rightarrow> 'e + 'b) \<Rightarrow> 'e + 'b" where
  "bindE (Inl e) f = Inl e"
| "bindE (Inr a) f = f a"

lemma bindE_eq_Inr [cxx_simps]:
  "bindE m f = Inr b \<longleftrightarrow> (\<exists>a. m = Inr a \<and> f a = Inr b)"
  by (cases m) auto

lemma bindE_assoc: "bindE (bindE m f) g = bindE m (\<lambda>a. bindE (f a) g)"
  by (cases m) simp_all

lemma bindE_cong [fundef_cong]:
  "m = m' \<Longrightarrow> (\<And>a. m' = Inr a \<Longrightarrow> f a = g a) \<Longrightarrow> bindE m f = bindE m' g"
  by (cases m') auto

text \<open>A \<open>for\<close> loop: the body runs once per element of the index list and may fail.\<close>

fun foldE :: "('x \<Rightarrow> 's \<Rightarrow> 'e + 's) \<Rightarrow> 'x list \<Rightarrow> 's \<Rightarrow> 'e + 's" where
  "foldE f [] s = Inr s"
| "foldE f (x # xs) s = bindE (f x s) (foldE f xs)"

lemma foldE_append [simp]: "foldE f (xs @ ys) s = bindE (foldE f xs s) (foldE f ys)"
proof (induction xs arbitrary: s)
  case (Cons x xs)
  show ?case by (cases "f x s") (simp_all add: Cons.IH)
qed simp

text \<open>
  The loop over \<open>a, \<dots>, b - 1\<close> succeeds and establishes the invariant at \<open>b\<close> when the body
  succeeds from every state that satisfies it and moves it one index on.
\<close>

lemma foldE_upt_inv [loop_intros]:
  assumes "a \<le> b" and "I a s"
    and "\<And>i s. a \<le> i \<Longrightarrow> i < b \<Longrightarrow> I i s \<Longrightarrow> \<exists>s'. f i s = Inr s' \<and> I (Suc i) s'"
  shows "\<exists>s'. foldE f [a..<b] s = Inr s' \<and> I b s'"
  using assms
proof (induction b)
  case 0
  then show ?case by simp
next
  case (Suc b)
  show ?case
  proof (cases "a = Suc b")
    case True
    then show ?thesis using Suc.prems by simp
  next
    case False
    with Suc.prems have ab: "a \<le> b" by simp
    then obtain s1 where s1: "foldE f [a..<b] s = Inr s1" "I b s1"
      using Suc.IH Suc.prems(2,3) by (metis less_Suc_eq)
    with ab Suc.prems(3)[of b s1] show ?thesis by auto
  qed
qed

text \<open>A loop whose body can only fail with \<open>e\<close>, and which fails somewhere, fails with \<open>e\<close>.\<close>

lemma foldE_upt_fail [loop_intros]:
  assumes "a \<le> k" and "k < b" and "I a s"
    and "\<And>i s. a \<le> i \<Longrightarrow> i < k \<Longrightarrow> I i s \<Longrightarrow>
           f i s = Inl e \<or> (\<exists>s'. f i s = Inr s' \<and> I (Suc i) s')"
    and "\<And>s. I k s \<Longrightarrow> f k s = Inl e"
  shows "foldE f [a..<b] s = Inl e"
proof -
  have pre: "foldE f [a..<k] s = Inl e \<or> (\<exists>s'. foldE f [a..<k] s = Inr s' \<and> I k s')"
    using assms(1,3,4)
  proof (induction k)
    case 0
    then show ?case by simp
  next
    case (Suc k)
    show ?case
    proof (cases "a = Suc k")
      case True
      then show ?thesis using Suc.prems by simp
    next
      case False
      with Suc.prems have ak: "a \<le> k" by simp
      from Suc.IH[OF ak Suc.prems(2)] Suc.prems(3)
      have IH: "foldE f [a..<k] s = Inl e \<or> (\<exists>s'. foldE f [a..<k] s = Inr s' \<and> I k s')"
        by (metis less_Suc_eq)
      then show ?thesis
      proof
        assume "foldE f [a..<k] s = Inl e"
        then show ?thesis using ak by simp
      next
        assume "\<exists>s'. foldE f [a..<k] s = Inr s' \<and> I k s'"
        then obtain s1 where s1: "foldE f [a..<k] s = Inr s1" "I k s1" by blast
        with ak Suc.prems(3)[of k s1] show ?thesis by auto
      qed
    qed
  qed
  have "[a..<b] = [a..<k] @ k # [Suc k..<b]"
    using assms(1,2) upt_add_eq_append [of a k "b - k"] by (simp add: upt_conv_Cons)
  then show ?thesis using pre assms(5) by auto
qed

section \<open>Byte strings\<close>

text \<open>
  A \<open>std::string\<close> is its list of bytes.  A \<open>const char *\<close> obtained with \<open>c_str()\<close> is read up
  to the first \<open>'\0'\<close>, which \<open>c_str\<close> below makes explicit.
\<close>

type_synonym bytes = string

abbreviation NUL :: char where "NUL \<equiv> CHR 0x00"
abbreviation NL :: char where "NL \<equiv> CHR 0x0A"

definition c_str :: "bytes \<Rightarrow> bytes" where
  "c_str s = takeWhile (\<lambda>c. c \<noteq> NUL) s"

lemma c_str_id [cxx_simps]: "NUL \<notin> set s \<Longrightarrow> c_str s = s"
  by (simp add: c_str_def takeWhile_eq_all_conv) blast

lemma length_c_str: "length (c_str s) \<le> length s"
  by (simp add: c_str_def length_takeWhile_le)

text \<open>\<open>s[i]\<close> of a \<open>const std::string\<close>: the byte, and \<open>'\0'\<close> at \<open>s.length()\<close>.\<close>

definition char_at :: "bytes \<Rightarrow> nat \<Rightarrow> char" where
  "char_at s i = (if i < length s then s ! i else NUL)"

text \<open>\<open>substr(pos, n)\<close>: at most \<open>n\<close> bytes from \<open>pos\<close>; \<open>pos > size()\<close> throws.\<close>

definition substr :: "bytes \<Rightarrow> nat \<Rightarrow> nat \<Rightarrow> bytes res" where
  "substr s pos n = (if pos \<le> length s then Inr (take n (drop pos s)) else Inl OutOfRange)"

definition substr_from :: "bytes \<Rightarrow> nat \<Rightarrow> bytes res" where
  "substr_from s pos = (if pos \<le> length s then Inr (drop pos s) else Inl OutOfRange)"

text \<open>\<open>find(pat, pos)\<close>: the first position at or after \<open>pos\<close> where \<open>pat\<close> occurs.\<close>

fun find_first :: "bytes \<Rightarrow> bytes \<Rightarrow> nat option" where
  "find_first pat [] = (if pat = [] then Some 0 else None)"
| "find_first pat (c # cs) =
     (if prefix pat (c # cs) then Some 0 else map_option Suc (find_first pat cs))"

definition find_from :: "bytes \<Rightarrow> bytes \<Rightarrow> nat \<Rightarrow> nat option" where
  "find_from pat s pos =
     (if pos \<le> length s then map_option ((+) pos) (find_first pat (drop pos s)) else None)"

text \<open>\<open>rfind(pat)\<close>: the last position where \<open>pat\<close> occurs.\<close>

fun find_last :: "bytes \<Rightarrow> bytes \<Rightarrow> nat option" where
  "find_last pat [] = (if pat = [] then Some 0 else None)"
| "find_last pat (c # cs) =
     (case find_last pat cs of
        Some i \<Rightarrow> Some (Suc i)
      | None \<Rightarrow> (if prefix pat (c # cs) then Some 0 else None))"

definition contains :: "bytes \<Rightarrow> bytes \<Rightarrow> bool" where
  "contains pat s \<longleftrightarrow> find_first pat s \<noteq> None"

lemma find_first_SomeD:
  "find_first pat s = Some i \<Longrightarrow>
     i \<le> length s \<and> prefix pat (drop i s) \<and> (\<forall>j < i. \<not> prefix pat (drop j s))"
proof (induction s arbitrary: i)
  case Nil
  then show ?case by (auto split: if_splits)
next
  case (Cons c cs)
  show ?case
  proof (cases "prefix pat (c # cs)")
    case True
    then show ?thesis using Cons.prems by auto
  next
    case False
    with Cons.prems obtain k where k: "find_first pat cs = Some k" "i = Suc k"
      by auto
    with Cons.IH[OF k(1)] False show ?thesis
      by (auto simp: less_Suc_eq_0_disj)
  qed
qed

lemma find_first_NoneD: "find_first pat s = None \<Longrightarrow> \<not> prefix pat (drop j s)"
proof (induction s arbitrary: j)
  case Nil
  then show ?case by (auto split: if_splits simp: prefix_def)
next
  case (Cons c cs)
  then show ?case by (cases j) (auto split: if_splits)
qed

lemma contains_iff: "contains pat s \<longleftrightarrow> (\<exists>u v. s = u @ pat @ v)"
proof
  assume "contains pat s"
  then obtain i where "find_first pat s = Some i" by (auto simp: contains_def)
  then have "prefix pat (drop i s)" by (blast dest: find_first_SomeD)
  then obtain v where "drop i s = pat @ v" by (auto simp: prefix_def)
  then have "s = take i s @ pat @ v" by (metis append_take_drop_id)
  then show "\<exists>u v. s = u @ pat @ v" by blast
next
  assume "\<exists>u v. s = u @ pat @ v"
  then obtain u v where "s = u @ pat @ v" by blast
  then have "prefix pat (drop (length u) s)" by simp
  then show "contains pat s"
    using find_first_NoneD by (fastforce simp: contains_def)
qed

section \<open>Lists\<close>

text \<open>\<open>erase(it)\<close> of a \<open>std::list\<close>, the iterator being a position.\<close>

definition erase_nth :: "nat \<Rightarrow> 'a list \<Rightarrow> 'a list" where
  "erase_nth j xs = take j xs @ drop (Suc j) xs"

lemma length_erase_nth [simp]: "j < length xs \<Longrightarrow> length (erase_nth j xs) = length xs - 1"
  by (simp add: erase_nth_def)

lemma split_at: "i < length xs \<Longrightarrow> xs = take i xs @ xs ! i # drop (Suc i) xs"
  by (simp add: id_take_nth_drop)

lemma find_SomeD: "find P xs = Some x \<Longrightarrow> x \<in> set xs \<and> P x"
  by (auto simp: find_Some_iff)

end
