(* ===== verification/Regex.thy ===== *)
theory Regex
  imports Prelude
begin

text \<open>
  The part of POSIX \<open>regcomp\<close>/\<open>regexec\<close> the sources rely on for patterns without anchors and
  back references: the pattern as a syntax tree over sets of bytes, and \<open>regexec\<close> as the search
  for the leftmost match, the longest one at that place.  It is what the C library documents,
  computed here by derivatives and proved against the language of the pattern.
\<close>

datatype regex =
    Never | Empty | OneOf "char list" | Alt regex regex | Seq regex regex | Star regex

fun lang :: "regex \<Rightarrow> bytes set" where
  "lang Never = {}"
| "lang Empty = {[]}"
| "lang (OneOf cs) = {[c] | c. c \<in> set cs}"
| "lang (Alt r1 r2) = lang r1 \<union> lang r2"
| "lang (Seq r1 r2) = {u @ v | u v. u \<in> lang r1 \<and> v \<in> lang r2}"
| "lang (Star r) = {concat us | us. set us \<subseteq> lang r}"

fun nullable :: "regex \<Rightarrow> bool" where
  "nullable Never = False"
| "nullable Empty = True"
| "nullable (OneOf cs) = False"
| "nullable (Alt r1 r2) = (nullable r1 \<or> nullable r2)"
| "nullable (Seq r1 r2) = (nullable r1 \<and> nullable r2)"
| "nullable (Star r) = True"

fun deriv :: "char \<Rightarrow> regex \<Rightarrow> regex" where
  "deriv c Never = Never"
| "deriv c Empty = Never"
| "deriv c (OneOf cs) = (if c \<in> set cs then Empty else Never)"
| "deriv c (Alt r1 r2) = Alt (deriv c r1) (deriv c r2)"
| "deriv c (Seq r1 r2) =
     (if nullable r1 then Alt (Seq (deriv c r1) r2) (deriv c r2) else Seq (deriv c r1) r2)"
| "deriv c (Star r) = Seq (deriv c r) (Star r)"

text \<open>Derived forms: a literal byte string, alternatives, one or more repetitions.\<close>

fun Lit :: "bytes \<Rightarrow> regex" where
  "Lit [] = Empty"
| "Lit [c] = OneOf [c]"
| "Lit (c # cs) = Seq (OneOf [c]) (Lit cs)"

fun Alts :: "regex list \<Rightarrow> regex" where
  "Alts [] = Never"
| "Alts [r] = r"
| "Alts (r # rs) = Alt r (Alts rs)"

definition Plus :: "regex \<Rightarrow> regex" where
  "Plus r = Seq r (Star r)"

text \<open>
  \<open>longest r s\<close>: the length of the longest prefix of \<open>s\<close> the pattern matches.  \<open>regexec r s\<close>:
  the bounds \<open>(rm_so, rm_eo)\<close> of the match.
\<close>

fun longest :: "regex \<Rightarrow> bytes \<Rightarrow> nat option" where
  "longest r [] = (if nullable r then Some 0 else None)"
| "longest r (c # cs) =
     (case longest (deriv c r) cs of
        Some n \<Rightarrow> Some (Suc n)
      | None \<Rightarrow> (if nullable r then Some 0 else None))"

fun search :: "regex \<Rightarrow> bytes \<Rightarrow> nat \<Rightarrow> (nat \<times> nat) option" where
  "search r s pos =
     (case longest r s of
        Some n \<Rightarrow> Some (pos, pos + n)
      | None \<Rightarrow> (case s of [] \<Rightarrow> None | _ # cs \<Rightarrow> search r cs (pos + 1)))"

declare search.simps [simp del]

definition regexec :: "regex \<Rightarrow> bytes \<Rightarrow> (nat \<times> nat) option" where
  "regexec r s = search r s 0"

lemma nullable_lang: "nullable r \<longleftrightarrow> [] \<in> lang r"
  by (induction r) (auto intro: exI [of _ "[]"])

lemma lang_Star_Cons:
  "c # s \<in> lang (Star r) \<longleftrightarrow> (\<exists>u v. s = u @ v \<and> c # u \<in> lang r \<and> v \<in> lang (Star r))"
proof
  assume "c # s \<in> lang (Star r)"
  then obtain us where "c # s = concat us" "set us \<subseteq> lang r" by auto
  then show "\<exists>u v. s = u @ v \<and> c # u \<in> lang r \<and> v \<in> lang (Star r)"
  proof (induction us)
    case (Cons w us)
    then show ?case by (cases w) auto
  qed simp
next
  assume "\<exists>u v. s = u @ v \<and> c # u \<in> lang r \<and> v \<in> lang (Star r)"
  then obtain u us where "s = u @ concat us" "c # u \<in> lang r" "set us \<subseteq> lang r" by auto
  then have "c # s = concat ((c # u) # us)" "set ((c # u) # us) \<subseteq> lang r" by auto
  then show "c # s \<in> lang (Star r)" unfolding lang.simps by blast
qed

lemma Cons_in_Seq:
  "c # s \<in> lang (Seq r1 r2) \<longleftrightarrow>
     (\<exists>u v. s = u @ v \<and> c # u \<in> lang r1 \<and> v \<in> lang r2) \<or> ([] \<in> lang r1 \<and> c # s \<in> lang r2)"
  by (auto simp: Cons_eq_append_conv)

lemma deriv_lang: "s \<in> lang (deriv c r) \<longleftrightarrow> c # s \<in> lang r"
proof (induction r arbitrary: s)
  case (Seq r1 r2)
  then show ?case unfolding Cons_in_Seq by (auto simp: nullable_lang)
next
  case (Star r)
  show ?case unfolding lang_Star_Cons by (auto simp: Star)
qed auto

lemma longest_None: "longest r s = None \<Longrightarrow> take k s \<notin> lang r"
proof (induction s arbitrary: r k)
  case Nil
  then show ?case by (auto simp: nullable_lang split: if_splits)
next
  case (Cons c cs)
  then have "longest (deriv c r) cs = None" "\<not> nullable r"
    by (auto split: option.splits if_splits)
  then show ?case
    using Cons.IH [of "deriv c r" "k - 1"] by (cases k) (auto simp: deriv_lang nullable_lang)
qed

lemma longest_Some:
  "longest r s = Some n \<Longrightarrow> n \<le> length s \<and> take n s \<in> lang r \<and> (\<forall>k. n < k \<longrightarrow> k \<le> length s \<longrightarrow> take k s \<notin> lang r)"
proof (induction s arbitrary: r n)
  case Nil
  then show ?case by (auto simp: nullable_lang split: if_splits)
next
  case (Cons c cs)
  show ?case
  proof (cases "longest (deriv c r) cs")
    case None
    then have "take k (c # cs) \<notin> lang r" if "0 < k" for k
      using that longest_None [OF None, of "k - 1"] by (cases k) (auto simp: deriv_lang)
    with None Cons.prems show ?thesis by (auto simp: nullable_lang split: if_splits)
  next
    case (Some m)
    with Cons.prems have n: "n = Suc m" by simp
    have "take k (c # cs) \<notin> lang r" if "n < k" "k \<le> length (c # cs)" for k
      using that Cons.IH [OF Some] by (cases k) (auto simp: n deriv_lang)
    then show ?thesis using Cons.IH [OF Some] by (auto simp: n deriv_lang)
  qed
qed

lemma search_Some:
  "search r s pos = Some (so, eo) \<Longrightarrow>
     pos \<le> so \<and> so \<le> eo \<and> eo \<le> pos + length s \<and> take (eo - so) (drop (so - pos) s) \<in> lang r \<and>
     (\<forall>k. eo < k \<longrightarrow> k \<le> pos + length s \<longrightarrow> take (k - so) (drop (so - pos) s) \<notin> lang r) \<and>
     (\<forall>i k. i < so - pos \<longrightarrow> take k (drop i s) \<notin> lang r)"
proof (induction s arbitrary: pos)
  case Nil
  then show ?case
    by (auto simp: search.simps [of r "[]"] nullable_lang split: option.splits if_splits)
next
  case (Cons c cs)
  show ?case
  proof (cases "longest r (c # cs)")
    case None
    with Cons.prems have rest: "search r cs (pos + 1) = Some (so, eo)"
      by (simp add: search.simps [of r "c # cs"])
    have "take k (c # cs) \<notin> lang r" for k using longest_None [OF None] .
    then have "take k (drop i (c # cs)) \<notin> lang r" if "i < so - pos" for i k
      using that Cons.IH [OF rest] by (cases i) auto
    moreover have "drop (so - pos) (c # cs) = drop (so - (pos + 1)) cs"
      using Cons.IH [OF rest] by (simp add: Suc_diff_le drop_Cons')
    ultimately show ?thesis using Cons.IH [OF rest] by auto
  next
    case (Some n)
    with Cons.prems have "so = pos" "eo = pos + n"
      by (simp_all add: search.simps [of r "c # cs"])
    with longest_Some [OF Some] show ?thesis by auto
  qed
qed

lemma search_None: "search r s pos = None \<Longrightarrow> take k (drop i s) \<notin> lang r"
proof (induction s arbitrary: pos i)
  case Nil
  then show ?case
    by (auto simp: search.simps [of r "[]"] nullable_lang split: option.splits if_splits)
next
  case (Cons c cs)
  then have none: "longest r (c # cs) = None" "search r cs (pos + 1) = None"
    by (auto simp: search.simps [of r "c # cs"] split: option.splits)
  show ?case
    using Cons.IH [OF none(2), of "i - 1"] longest_None [OF none(1), of k] by (cases i) auto
qed

text \<open>
  The contract of \<open>regexec\<close>: the bounds lie in the string and enclose a word of the language;
  no match starts earlier, and none that starts there ends later; no bounds, no match anywhere.
\<close>

lemma regexec_Some:
  assumes "regexec r s = Some (so, eo)"
  shows "so \<le> eo" "eo \<le> length s" "take (eo - so) (drop so s) \<in> lang r"
    and "\<And>k. eo < k \<Longrightarrow> k \<le> length s \<Longrightarrow> take (k - so) (drop so s) \<notin> lang r"
    and "\<And>i k. i < so \<Longrightarrow> take k (drop i s) \<notin> lang r"
  using search_Some [of r s 0 so eo] assms by (auto simp: regexec_def)

lemma regexec_None: "regexec r s = None \<Longrightarrow> take k (drop i s) \<notin> lang r"
  unfolding regexec_def by (rule search_None)

lemma regexec_None_iff: "regexec r s = None \<longleftrightarrow> (\<forall>u v w. s = u @ v @ w \<longrightarrow> v \<notin> lang r)"
proof
  assume none: "regexec r s = None"
  show "\<forall>u v w. s = u @ v @ w \<longrightarrow> v \<notin> lang r"
  proof (intro allI impI)
    fix u v w assume "s = u @ v @ w"
    then have "take (length v) (drop (length u) s) = v" by simp
    with regexec_None [OF none, of "length v" "length u"] show "v \<notin> lang r" by simp
  qed
next
  assume *: "\<forall>u v w. s = u @ v @ w \<longrightarrow> v \<notin> lang r"
  show "regexec r s = None"
  proof (rule ccontr)
    assume "regexec r s \<noteq> None"
    then obtain so eo where r: "regexec r s = Some (so, eo)" by auto
    have "s = take so s @ take (eo - so) (drop so s) @ drop (eo - so) (drop so s)"
      by (simp only: append_take_drop_id)
    with * regexec_Some(3) [OF r] show False by blast
  qed
qed

lemma regexec_proper:
  assumes "regexec r s = Some (so, eo)" and "\<not> nullable r"
  shows "so < eo"
proof -
  have "take (eo - so) (drop so s) \<noteq> []"
    using regexec_Some(3) [OF assms(1)] assms(2) by (metis nullable_lang)
  then show ?thesis by auto
qed

end
