(* ===== verification/StringUtil.thy ===== *)
theory StringUtil
  imports Regex
begin

text \<open>
  \<open>DisCrawler/DOMAttUtil/stringutil.cpp\<close>: case folding, the two character filters, replacement by
  a pattern, and reading a \<open>stringstream\<close> line by line and number by number.  A \<open>stringstream\<close> is
  the text not read yet and its \<open>good()\<close> flag; the \<open>line_codec\<close> interface at the end is the
  contract every \<open>serialize\<close>/\<open>deserialize\<close> pair of the crawler promises over such streams.
\<close>

section \<open>Case folding and filters\<close>

definition tolower :: "char \<Rightarrow> char" where
  "tolower c = (if 65 \<le> (of_char c :: nat) \<and> (of_char c :: nat) \<le> 90 then char_of (of_char c + 32 :: nat) else c)"

text \<open>The folded bytes are copied to a buffer that \<open>string(lower_data)\<close> reads as a C string.\<close>

definition to_lower_case :: "bytes \<Rightarrow> bytes" where
  "to_lower_case s = c_str (map tolower s)"

text \<open>
  \<open>string_filter(s, s_pos, invalid_ch)\<close>: the recursion deletes the byte at \<open>s_pos\<close> when it is in
  \<open>invalid_ch\<close> and moves on otherwise.
\<close>

function string_filter_from :: "bytes \<Rightarrow> nat \<Rightarrow> bytes \<Rightarrow> bytes" where
  "string_filter_from s s_pos invalid_ch =
     (if length s \<le> s_pos then s
      else if s ! s_pos \<in> set invalid_ch
           then string_filter_from (take s_pos s @ drop (s_pos + 1) s) s_pos invalid_ch
           else string_filter_from s (s_pos + 1) invalid_ch)"
  by pat_completeness auto
termination
  by (relation "measure (\<lambda>(s, p, i). length s - p)") auto

declare string_filter_from.simps [simp del]

definition string_filter_chars :: "bytes \<Rightarrow> bytes \<Rightarrow> bytes" where
  "string_filter_chars s invalid_ch = string_filter_from s 0 invalid_ch"

lemma string_filter_from_eq:
  "string_filter_from s p bad = take p s @ filter (\<lambda>c. c \<notin> set bad) (drop p s)"
proof (induction s p bad rule: string_filter_from.induct)
  case (1 s p bad)
  show ?case
  proof (cases "length s \<le> p")
    case True
    then show ?thesis by (simp add: string_filter_from.simps)
  next
    case False
    then have d: "drop p s = s ! p # drop (Suc p) s" by (simp add: Cons_nth_drop_Suc)
    show ?thesis
      using 1 False by (simp add: string_filter_from.simps [of s p bad] d take_Suc_conv_app_nth)
  qed
qed

lemma string_filter_chars_eq [cxx_simps]:
  "string_filter_chars s bad = filter (\<lambda>c. c \<notin> set bad) s"
  by (simp add: string_filter_chars_def string_filter_from_eq)

text \<open>
  \<open>string_filter2\<close>: the pattern is one or more of the listed punctuation and white space tokens,
  several of them multi-byte UTF-8 characters; a match is erased and the function calls itself.
  \<open>regexec\<close> sees \<open>s.c_str()\<close>.
\<close>

definition white_space :: "char list" where
  "white_space = [CHR 0x20, CHR 0x09, CHR 0x0A, CHR 0x0B, CHR 0x0C, CHR 0x0D]"

definition wide_space :: bytes where
  "wide_space = [CHR 0xE3, CHR 0x80, CHR 0x80]"

definition filter_token :: regex where
  "filter_token = Alts
     [Lit ''#'', OneOf [NL], OneOf [CHR 0x20], Lit wide_space, OneOf white_space, OneOf [CHR 0x0D],
      Lit [CHR 0xEF, CHR 0xBC, CHR 0x8C], Lit [CHR 0xE3, CHR 0x80, CHR 0x82],
      Lit [CHR 0xEF, CHR 0xBC, CHR 0x9A], Lit [CHR 0xC2, CHR 0xB7],
      Lit [CHR 0xE2, CHR 0x80, CHR 0x9C],
      OneOf [CHR 0x2C, CHR 0x2E, CHR 0x3A, CHR 0x22, CHR 0x7C]]"

definition filter_pat :: regex where
  "filter_pat = Plus filter_token"

lemma filter_pat_not_nullable: "\<not> nullable filter_pat"
  by (simp add: filter_pat_def Plus_def filter_token_def wide_space_def)

function string_filter2 :: "bytes \<Rightarrow> bytes" where
  "string_filter2 s =
     (case regexec filter_pat (c_str s) of
        None \<Rightarrow> s
      | Some (so, eo) \<Rightarrow> string_filter2 (take so s @ drop eo s))"
  by pat_completeness auto
termination
proof (relation "measure length")
  fix s so eo and p :: "nat \<times> nat"
  assume "regexec filter_pat (c_str s) = Some p" "(so, eo) = p"
  then have r: "regexec filter_pat (c_str s) = Some (so, eo)" by simp
  then have "so < eo" using filter_pat_not_nullable by (rule regexec_proper)
  moreover have "eo \<le> length s" using regexec_Some(2) [OF r] length_c_str [of s] by linarith
  ultimately show "(take so s @ drop eo s, s) \<in> measure length" by simp
qed simp

declare string_filter2.simps [simp del]

definition string_filter :: "bytes \<Rightarrow> bytes" where
  "string_filter s = string_filter2 s"

lemma length_string_filter: "length (string_filter s) \<le> length s"
  unfolding string_filter_def
proof (induction s rule: string_filter2.induct)
  case (1 s)
  show ?case
  proof (cases "regexec filter_pat (c_str s)")
    case None
    then show ?thesis by (simp add: string_filter2.simps [of s])
  next
    case (Some p)
    then obtain so eo where r: "regexec filter_pat (c_str s) = Some (so, eo)" by (cases p) auto
    then have "so \<le> eo" "eo \<le> length s"
      using regexec_Some(1,2) [OF r] length_c_str [of s] by auto
    then have "length (take so s @ drop eo s) \<le> length s" by simp
    with 1 r show ?thesis by (fastforce simp: string_filter2.simps [of s])
  qed
qed

lemma string_filter_no_match: "regexec filter_pat (c_str (string_filter s)) = None"
  unfolding string_filter_def
proof (induction s rule: string_filter2.induct)
  case (1 s)
  show ?case
  proof (cases "regexec filter_pat (c_str s)")
    case None
    then show ?thesis by (simp add: string_filter2.simps [of s])
  next
    case (Some p)
    with 1 show ?thesis by (cases p) (simp add: string_filter2.simps [of s])
  qed
qed

lemma string_filter_fix: "regexec filter_pat (c_str s) = None \<Longrightarrow> string_filter s = s"
  by (simp add: string_filter_def string_filter2.simps)

lemma string_filter_idem [simp]: "string_filter (string_filter s) = string_filter s"
  by (rule string_filter_fix) (rule string_filter_no_match)

lemma string_filter_Nil [simp]: "string_filter [] = []"
  using length_string_filter [of "[]"] by simp

lemma lang_Lit: "lang (Lit s) = {s}"
  by (induction s rule: Lit.induct) auto

lemma filter_token_in_pat: "w \<in> lang filter_token \<Longrightarrow> w \<in> lang filter_pat"
proof -
  assume "w \<in> lang filter_token"
  moreover have "[] \<in> lang (Star filter_token)" by (auto intro: exI [of _ "[]"])
  ultimately have "w @ [] \<in> lang filter_pat"
    unfolding filter_pat_def Plus_def lang.simps(5) by blast
  then show ?thesis by simp
qed

text \<open>The filtered text contains none of the tokens, and filtering again changes nothing.\<close>

text \<open>\<open>string_filter\<close> terminates on every string; the text it leaves (up to a first NUL byte)
  contains none of the separators of its pattern, it is no longer than the input, and filtering
  it again changes nothing.\<close>

theorem string_filter_clean:
  "\<not> (\<exists>u w v. c_str (string_filter s) = u @ w @ v \<and> w \<in> lang filter_token)
   \<and> length (string_filter s) \<le> length s \<and> string_filter (string_filter s) = string_filter s"
  using string_filter_no_match [of s] length_string_filter [of s]
  by (auto simp: regexec_None_iff dest: filter_token_in_pat)

section \<open>\<open>string_replace\<close>\<close>

text \<open>
  Every match is erased, the replacement inserted in its place, and the function calls itself,
  until nothing matches.  It need not stop (the replacement may match again): \<open>None\<close>.
\<close>

partial_function (option) string_replace :: "bytes \<Rightarrow> regex \<Rightarrow> bytes \<Rightarrow> bytes option" where
  "string_replace s pat repl =
     (case regexec pat (c_str s) of
        None \<Rightarrow> Some s
      | Some (so, eo) \<Rightarrow> string_replace (take so s @ repl @ drop eo s) pat repl)"

text \<open>
  It stops when a measure of the whole string decreases with every replacement, and then nothing
  matches any more.
\<close>

lemma string_replace_total:
  assumes dec: "\<And>u w v. w \<in> lang pat \<Longrightarrow> (\<mu> :: bytes \<Rightarrow> nat) (u @ repl @ v) < \<mu> (u @ w @ v)"
  shows "\<exists>s'. string_replace s pat repl = Some s' \<and> regexec pat (c_str s') = None \<and> \<mu> s' \<le> \<mu> s"
proof (induction s rule: measure_induct_rule [where f = \<mu>])
  case (less s)
  show ?case
  proof (cases "regexec pat (c_str s)")
    case None
    then show ?thesis by (simp add: string_replace.simps [of s])
  next
    case (Some p)
    then obtain so eo where r: "regexec pat (c_str s) = Some (so, eo)" by (cases p) auto
    let ?w = "take (eo - so) (drop so (c_str s))"
    have eo: "so \<le> eo" "eo \<le> length (c_str s)" by (rule regexec_Some [OF r])+
    obtain z where z: "s = c_str s @ z"
      unfolding c_str_def by (metis takeWhile_dropWhile_id)
    have "?w = take (eo - so) (drop so s)"
      using eo by (subst z) (simp del: append_assoc)
    then have s: "s = take so s @ ?w @ drop eo s"
      using eo(1) by (metis append_take_drop_id drop_drop le_add_diff_inverse2)
    then have "\<mu> (take so s @ repl @ drop eo s) < \<mu> s"
      using dec [OF regexec_Some(3) [OF r], of "take so s" "drop eo s"] by simp
    with less [OF this] r show ?thesis
      by (fastforce simp: string_replace.simps [of s])
  qed
qed


text \<open>
  The two patterns the crawler uses it with: a line feed becomes two spaces (\<open>extract_author\<close>,
  \<open>extract_source\<close>), and a run of at least two white space characters becomes one space
  (\<open>get_date\<close>).
\<close>

definition newline_pat :: regex where
  "newline_pat = OneOf [NL]"

definition space_token :: regex where
  "space_token = Alts [OneOf white_space, OneOf [CHR 0x20], Lit wide_space]"

definition spaces_pat :: regex where
  "spaces_pat = Seq space_token (Seq space_token (Star space_token))"

lemma space_token_length: "w \<in> lang space_token \<Longrightarrow> 0 < length w"
  by (auto simp: space_token_def lang_Lit wide_space_def)

lemma spaces_pat_length: "w \<in> lang spaces_pat \<Longrightarrow> 1 < length w"
proof -
  assume "w \<in> lang spaces_pat"
  then obtain u v x where "w = u @ v @ x" "u \<in> lang space_token" "v \<in> lang space_token"
    unfolding spaces_pat_def lang.simps(5) by blast
  then have "0 < length u" "0 < length v" "length w = length u + length v + length x"
    using space_token_length by simp_all
  then show ?thesis by linarith
qed

text \<open>The two replacements the crawler performs always finish, and leave text in which
  nothing is left to replace.\<close>

theorem string_replace_newlines_spaces:
  "(\<exists>s'. string_replace s newline_pat ''  '' = Some s' \<and> NL \<notin> set (c_str s')) \<and>
   (\<exists>s'. string_replace s spaces_pat '' '' = Some s' \<and> regexec spaces_pat (c_str s') = None
      \<and> length s' \<le> length s)"
proof
  have "\<exists>s'. string_replace s newline_pat ''  '' = Some s' \<and> regexec newline_pat (c_str s') = None
      \<and> count_list s' NL \<le> count_list s NL"
    by (rule string_replace_total [where \<mu> = "\<lambda>s. count_list s NL"]) (auto simp: newline_pat_def)
  moreover have "NL \<notin> set x" if none: "regexec newline_pat x = None" for x
  proof
    assume "NL \<in> set x"
    then obtain u v where "x = u @ [NL] @ v" by (auto dest: split_list)
    then have "[NL] \<notin> lang newline_pat" using none regexec_None_iff by blast
    then show False by (simp add: newline_pat_def)
  qed
  ultimately show "\<exists>s'. string_replace s newline_pat ''  '' = Some s' \<and> NL \<notin> set (c_str s')"
    by blast
next
  show "\<exists>s'. string_replace s spaces_pat '' '' = Some s' \<and> regexec spaces_pat (c_str s') = None
      \<and> length s' \<le> length s"
    by (rule string_replace_total [where \<mu> = length]) (use spaces_pat_length in fastforce)
qed

section \<open>Numbers as text\<close>

definition digit :: "nat \<Rightarrow> char" where
  "digit d = char_of (48 + d)"

fun show_nat :: "nat \<Rightarrow> bytes" where
  "show_nat n = (if n < 10 then [digit n] else show_nat (n div 10) @ [digit (n mod 10)])"

declare show_nat.simps [simp del]

definition show_int :: "int \<Rightarrow> bytes" where
  "show_int i = (if i < 0 then CHR ''-'' # show_nat (nat (- i)) else show_nat (nat i))"

definition show_bool :: "bool \<Rightarrow> bytes" where
  "show_bool b = (if b then ''1'' else ''0'')"

definition is_digit :: "char \<Rightarrow> bool" where
  "is_digit c \<longleftrightarrow> 48 \<le> (of_char c :: nat) \<and> (of_char c :: nat) \<le> 57"

definition digit_val :: "char \<Rightarrow> nat" where
  "digit_val c = of_char c - 48"

definition digits_val :: "bytes \<Rightarrow> nat" where
  "digits_val ds = foldl (\<lambda>n c. 10 * n + digit_val c) 0 ds"

text \<open>
  \<open>ss >> i\<close> for an \<open>int\<close>: white space is skipped, an optional sign and the longest run of digits
  are read; no digits give 0, a value outside \<open>int\<close> the nearest \<open>int\<close>.
\<close>

definition clamp_int :: "int \<Rightarrow> int" where
  "clamp_int i = max (- (2 ^ 31)) (min (2 ^ 31 - 1) i)"

text \<open>A wider value stored in an \<open>int\<close>, as \<open>int size = v.size()\<close> does.\<close>

definition wrap_int :: "int \<Rightarrow> int" where
  "wrap_int i = (i + 2 ^ 31) mod 2 ^ 32 - 2 ^ 31"

definition int_of_size :: "nat \<Rightarrow> int" where
  "int_of_size n = wrap_int (int n)"

lemma int_of_size_id [cxx_simps]: "n < 2 ^ 31 \<Longrightarrow> int_of_size n = int n"
  by (simp add: int_of_size_def wrap_int_def)

definition read_int :: "bytes \<Rightarrow> int" where
  "read_int s =
     (let t = dropWhile (\<lambda>c. c \<in> set white_space) s;
          neg = (t \<noteq> [] \<and> hd t = CHR ''-'');
          u = (if t \<noteq> [] \<and> hd t \<in> set ''+-'' then tl t else t);
          v = int (digits_val (takeWhile is_digit u))
      in clamp_int (if neg then - v else v))"

text \<open>The result of an \<open>int\<close> operation, which must fit; \<open>strtol\<close> stops at the ends of \<open>long\<close>.\<close>

definition clamp_long :: "int \<Rightarrow> int" where
  "clamp_long i = max (- (2 ^ 63)) (min (2 ^ 63 - 1) i)"

text \<open>\<open>atoi\<close> is \<open>strtol\<close> in base 10, stored in an \<open>int\<close>.\<close>

definition atoi :: "bytes \<Rightarrow> int" where
  "atoi s =
     (let t = dropWhile (\<lambda>c. c \<in> set white_space) (c_str s);
          neg = (t \<noteq> [] \<and> hd t = CHR ''-'');
          u = (if t \<noteq> [] \<and> hd t \<in> set ''+-'' then tl t else t);
          v = int (digits_val (takeWhile is_digit u))
      in wrap_int (clamp_long (if neg then - v else v)))"

text \<open>The value of a hexadecimal digit.\<close>

definition hex_val :: "char \<Rightarrow> int option" where
  "hex_val c =
     (if is_digit c then Some (int (digit_val c))
      else if 97 \<le> (of_char c :: nat) \<and> (of_char c :: nat) \<le> 102 then Some (of_char c - 87)
      else if 65 \<le> (of_char c :: nat) \<and> (of_char c :: nat) \<le> 70 then Some (of_char c - 55)
      else None)"

lemma of_char_digit [simp]: "d < 10 \<Longrightarrow> (of_char (digit d) :: nat) = 48 + d"
  by (simp add: digit_def)

lemma digit_props [simp]: "d < 10 \<Longrightarrow> is_digit (digit d)" "d < 10 \<Longrightarrow> digit_val (digit d) = d"
  by (simp_all add: is_digit_def digit_val_def)

lemma digit_chars:
  "digit 0 = CHR ''0''" "digit 1 = CHR ''1''" "digit (Suc 0) = CHR ''1''" "digit 2 = CHR ''2''" "digit 3 = CHR ''3''"
  "digit 4 = CHR ''4''" "digit 5 = CHR ''5''" "digit 6 = CHR ''6''" "digit 7 = CHR ''7''" "digit 8 = CHR ''8''"
  "digit 9 = CHR ''9''"
  by code_simp+

text \<open>Printing a literal.\<close>

lemmas show_nat_eval = show_nat.simps digit_chars

lemma show_nat_digits: "c \<in> set (show_nat n) \<Longrightarrow> is_digit c"
proof (induction n rule: show_nat.induct)
  case (1 n)
  then show ?case by (auto simp: show_nat.simps [of n] split: if_splits)
qed

lemma show_nat_nonempty [simp]: "show_nat n \<noteq> []"
  by (simp add: show_nat.simps [of n])

lemma digits_val_show_nat [simp]: "digits_val (show_nat n) = n"
proof (induction n rule: show_nat.induct)
  case (1 n)
  then show ?case by (auto simp: show_nat.simps [of n] digits_val_def)
qed

lemma is_digit_not [simp]:
  "\<not> is_digit CHR ''-''" "\<not> is_digit CHR ''+''" "\<not> is_digit NL" "\<not> is_digit NUL"
  "c \<in> set white_space \<Longrightarrow> \<not> is_digit c"
  by (auto simp: is_digit_def white_space_def)

lemma show_nat_hd: "\<exists>c cs. show_nat n = c # cs \<and> is_digit c"
  by (metis show_nat_digits show_nat_nonempty list.exhaust list.set_intros(1))

lemma show_nat_takeWhile [simp]: "takeWhile is_digit (show_nat n) = show_nat n"
  by (simp add: takeWhile_eq_all_conv show_nat_digits)

lemma read_show_int [cxx_simps]: "- (2 ^ 31) \<le> i \<Longrightarrow> i < 2 ^ 31 \<Longrightarrow> read_int (show_int i) = i"
proof -
  assume i: "- (2 ^ 31) \<le> i" "i < 2 ^ 31"
  obtain c cs where n: "show_nat (nat i) = c # cs" "is_digit c" using show_nat_hd by blast
  have "c \<notin> set white_space" "c \<noteq> CHR ''-''" "c \<noteq> CHR ''+''"
    using n(2) is_digit_not by blast+
  moreover have "CHR ''-'' \<notin> set white_space" by (simp add: white_space_def)
  moreover have "int (digits_val (takeWhile is_digit (c # cs))) = int (nat i)"
    using n(1) show_nat_takeWhile [of "nat i"] digits_val_show_nat [of "nat i"] by simp
  ultimately show ?thesis
    using i n(1) by (simp add: read_int_def show_int_def Let_def clamp_int_def)
qed

lemma read_show_bool [cxx_simps]: "read_int (show_bool b) = (if b then 1 else 0)"
  by (auto simp: read_int_def show_bool_def white_space_def is_digit_def digits_val_def digit_val_def
      clamp_int_def Let_def)

lemma show_int_chars: "c \<in> set (show_int i) \<Longrightarrow> is_digit c \<or> c = CHR ''-''"
  by (auto simp: show_int_def dest: show_nat_digits split: if_splits)

text \<open>A number at the start of a text is read up to the first byte that is not a digit.\<close>

lemma takeWhile_show_nat: "r = [] \<or> \<not> is_digit (hd r) \<Longrightarrow> takeWhile is_digit (show_nat n @ r) = show_nat n"
  using show_nat_digits [of _ n] by (cases r) (auto simp: takeWhile_append)

lemma atoi_show_nat:
  assumes "n < 2 ^ 31" and "r = [] \<or> \<not> is_digit (hd r)"
  shows "atoi (show_nat n @ r) = int n"
proof -
  obtain c cs where n: "show_nat n = c # cs" "is_digit c" using show_nat_hd by blast
  have not: "c \<notin> set white_space" "c \<noteq> CHR ''-''" "c \<noteq> CHR ''+''" "c \<noteq> NUL"
    using n(2) is_digit_not by blast+
  have "NUL \<notin> set (show_nat n)" using show_nat_digits [of NUL n] by auto
  then have "c_str (show_nat n @ r) = show_nat n @ c_str r"
    by (simp add: c_str_def takeWhile_append)
  moreover have "c_str r = [] \<or> \<not> is_digit (hd (c_str r))" using assms(2) by (cases r) (auto simp: c_str_def)
  then have "takeWhile is_digit (show_nat n @ c_str r) = show_nat n" by (rule takeWhile_show_nat)
  then have "int (digits_val (takeWhile is_digit (c # cs @ c_str r))) = int n"
    using n(1) by (metis append_Cons digits_val_show_nat)
  ultimately show ?thesis
    using assms(1) n(1) not by (simp add: atoi_def Let_def clamp_long_def wrap_int_def)
qed

section \<open>Splitting and the pieces of a text\<close>

text \<open>\<open>boost::split\<close> on one separator, adjacent separators not merged.\<close>

fun split_on :: "char \<Rightarrow> bytes \<Rightarrow> bytes list" where
  "split_on d [] = [[]]"
| "split_on d (c # cs) =
     (if c = d then [] # split_on d cs
      else case split_on d cs of p # ps \<Rightarrow> (c # p) # ps | [] \<Rightarrow> [[c]])"

lemma split_on_nonempty [simp]: "split_on d s \<noteq> []"
  by (induction s) (auto split: list.splits)

lemma split_on_length: "length (split_on d s) = Suc (count_list s d)"
proof (induction s)
  case (Cons c s)
  then show ?case by (cases "split_on d s") auto
qed simp

lemma split_on_absent: "d \<notin> set s \<Longrightarrow> split_on d s = [s]"
  by (induction s) auto

lemma split_on_piece: "d \<notin> set p \<Longrightarrow> split_on d (p @ d # s) = p # split_on d s"
  by (induction p) auto

section \<open>\<open>stringstream\<close>\<close>

record sstream =
  unread :: bytes
  good :: bool

definition put :: "bytes \<Rightarrow> sstream \<Rightarrow> sstream" where
  "put s st = (if good st then st\<lparr>unread := unread st @ s\<rparr> else st)"

definition put_line :: "bytes \<Rightarrow> sstream \<Rightarrow> sstream" where
  "put_line s st = put (s @ [NL]) st"

text \<open>
  \<open>get_line\<close>: at the end of the stream \<open>get()\<close> returns \<open>EOF\<close>, which is stored as the byte 255 and
  appended before the loop notices; a NUL byte is appended as the empty C string.
\<close>

fun get_chars :: "bytes \<Rightarrow> bytes \<times> sstream" where
  "get_chars [] = ([CHR 0xFF], \<lparr>unread = [], good = False\<rparr>)"
| "get_chars (c # cs) =
     (if c = NL then ([], \<lparr>unread = cs, good = True\<rparr>)
      else let (line, st) = get_chars cs in ((if c = NUL then line else c # line), st))"

definition get_line :: "sstream \<Rightarrow> bytes \<times> sstream" where
  "get_line st = (if good st then get_chars (unread st) else ([], st))"

definition get_integer :: "sstream \<Rightarrow> int \<times> sstream" where
  "get_integer st = (let (line, st') = get_line st in (read_int line, st'))"

definition line_ok :: "bytes \<Rightarrow> bool" where
  "line_ok s \<longleftrightarrow> NL \<notin> set s \<and> NUL \<notin> set s"

definition int_ok :: "int \<Rightarrow> bool" where
  "int_ok i \<longleftrightarrow> - (2 ^ 31) \<le> i \<and> i < 2 ^ 31"

definition check_int :: "int \<Rightarrow> int res" where
  "check_int i = (if int_ok i then Inr i else Inl SizeOverflow)"

lemma get_chars_line: "line_ok s \<Longrightarrow> get_chars (s @ NL # r) = (s, \<lparr>unread = r, good = True\<rparr>)"
  by (induction s) (auto simp: line_ok_def)

lemma get_line_line [cxx_simps]:
  "line_ok s \<Longrightarrow> get_line \<lparr>unread = s @ NL # r, good = True\<rparr> = (s, \<lparr>unread = r, good = True\<rparr>)"
  by (simp add: get_line_def get_chars_line)

lemma show_int_line [simp]: "line_ok (show_int i)"
  using show_int_chars [of _ i] by (fastforce simp: line_ok_def)

lemma show_bool_line [simp]: "line_ok (show_bool b)"
  by (simp add: show_bool_def line_ok_def)

lemma get_integer_line [cxx_simps]:
  "int_ok i \<Longrightarrow> get_integer \<lparr>unread = show_int i @ NL # r, good = True\<rparr> = (i, \<lparr>unread = r, good = True\<rparr>)"
  by (simp add: get_integer_def get_line_line read_show_int int_ok_def)

lemma get_integer_bool [cxx_simps]:
  "get_integer \<lparr>unread = show_bool b @ NL # r, good = True\<rparr> =
     ((if b then 1 else 0), \<lparr>unread = r, good = True\<rparr>)"
  by (simp add: get_integer_def get_line_line read_show_bool)

lemma put_put [simp]: "put t (put s st) = put (s @ t) st"
  by (simp add: put_def)

lemma put_Nil [simp]: "put [] st = st"
  by (simp add: put_def)


section \<open>The serialization contract\<close>

text \<open>
  \<open>serialize\<close> writes an object to a stream and may normalise the object while it does;
  \<open>deserialize\<close> fills a fresh object.  Lists are written element by element after their length,
  and read back by as many calls (none, for a negative count).
\<close>

fun ser_all :: "('a \<Rightarrow> sstream \<Rightarrow> 'a \<times> sstream) \<Rightarrow> 'a list \<Rightarrow> sstream \<Rightarrow> 'a list \<times> sstream" where
  "ser_all ser [] st = ([], st)"
| "ser_all ser (x # xs) st =
     (let (x', st1) = ser x st; (xs', st2) = ser_all ser xs st1 in (x' # xs', st2))"

fun deser_n :: "(sstream \<Rightarrow> 'a \<times> sstream) \<Rightarrow> nat \<Rightarrow> sstream \<Rightarrow> 'a list \<times> sstream" where
  "deser_n deser 0 st = ([], st)"
| "deser_n deser (Suc n) st =
     (let (x, st1) = deser st; (xs, st2) = deser_n deser n st1 in (x # xs, st2))"

text \<open>
  A \<open>line_codec\<close>: \<open>enc x\<close> is the text written for \<open>x\<close>, \<open>norm x\<close> the object after writing,
  \<open>img x\<close> the object that is read back, and \<open>ok x\<close> what \<open>x\<close> must satisfy for that.
\<close>

locale line_codec =
  fixes ser :: "'a \<Rightarrow> sstream \<Rightarrow> 'a \<times> sstream"
    and deser :: "sstream \<Rightarrow> 'a \<times> sstream"
    and enc :: "'a \<Rightarrow> bytes"
    and norm :: "'a \<Rightarrow> 'a"
    and img :: "'a \<Rightarrow> 'a"
    and ok :: "'a \<Rightarrow> bool"
  assumes ser_eq: "ser x st = (norm x, put (enc x) st)"
    and deser_eq: "ok x \<Longrightarrow> deser \<lparr>unread = enc x @ r, good = True\<rparr> = (img x, \<lparr>unread = r, good = True\<rparr>)"
begin

lemma ser_all_eq: "ser_all ser xs st = (map norm xs, put (concat (map enc xs)) st)"
  by (induction xs arbitrary: st) (simp_all add: ser_eq)

lemma deser_n_eq:
  "(\<forall>x \<in> set xs. ok x) \<Longrightarrow>
     deser_n deser (length xs) \<lparr>unread = concat (map enc xs) @ r, good = True\<rparr> =
       (map img xs, \<lparr>unread = r, good = True\<rparr>)"
  by (induction xs arbitrary: r) (simp_all add: deser_eq)

lemma roundtrip:
  "ok x \<Longrightarrow> deser (snd (ser x \<lparr>unread = [], good = True\<rparr>)) = (img x, \<lparr>unread = [], good = True\<rparr>)"
  using deser_eq [of x "[]"] by (simp add: ser_eq put_def)

lemma list_roundtrip:
  "(\<forall>x \<in> set xs. ok x) \<Longrightarrow>
     deser_n deser (length xs) (snd (ser_all ser xs \<lparr>unread = [], good = True\<rparr>)) =
       (map img xs, \<lparr>unread = [], good = True\<rparr>)"
  using deser_n_eq [of xs "[]"] by (simp add: ser_all_eq put_def)

end

text \<open>Text that is one line per element is the simplest instance.\<close>

definition ser_line :: "bytes \<Rightarrow> sstream \<Rightarrow> bytes \<times> sstream" where
  "ser_line s st = (s, put_line s st)"

interpretation text_line: line_codec ser_line get_line "\<lambda>s. s @ [NL]" id id line_ok
  by unfold_locales (simp_all add: ser_line_def put_line_def get_line_line)

lemma get_integer_of_nat [cxx_simps]:
  "n < 2 ^ 31 \<Longrightarrow> get_integer \<lparr>unread = show_int (int n) @ NL # r, good = True\<rparr> =
     (int n, \<lparr>unread = r, good = True\<rparr>)"
  by (rule get_integer_line) (simp add: int_ok_def)

end
