(* ===== verification/CxxMap.thy ===== *)
theory CxxMap
  imports Prelude "HOL-Library.List_Lexorder" "HOL-Library.Char_ord"
begin

text \<open>
  \<open>std::map\<close> with byte-string keys, iterated in key order: an association list sorted strictly by
  key.  \<open>key_store\<close> is the contract of the find-erase-insert idiom by which the crawler replaces
  the value of a key, and of \<open>operator[]\<close> assignment; its clients are the access lists and the
  wrapper rules.
\<close>

type_synonym ('k, 'v) cmap = "('k \<times> 'v) list"

definition cmap_ok :: "('k :: linorder, 'v) cmap \<Rightarrow> bool" where
  "cmap_ok m \<longleftrightarrow> sorted_wrt (<) (map fst m)"

definition cmap_find :: "('k, 'v) cmap \<Rightarrow> 'k \<Rightarrow> 'v option" where
  "cmap_find m k = map_of m k"

text \<open>\<open>insert\<close> keeps the value a key already has.\<close>

fun cmap_insert :: "'k :: linorder \<Rightarrow> 'v \<Rightarrow> ('k, 'v) cmap \<Rightarrow> ('k, 'v) cmap" where
  "cmap_insert k v [] = [(k, v)]"
| "cmap_insert k v ((k', v') # m) =
     (if k < k' then (k, v) # (k', v') # m
      else if k = k' then (k', v') # m
      else (k', v') # cmap_insert k v m)"

definition cmap_erase :: "'k \<Rightarrow> ('k, 'v) cmap \<Rightarrow> ('k, 'v) cmap" where
  "cmap_erase k m = filter (\<lambda>(k', _). k' \<noteq> k) m"

text \<open>\<open>m[k] = v\<close>.\<close>

definition cmap_set :: "'k :: linorder \<Rightarrow> 'v \<Rightarrow> ('k, 'v) cmap \<Rightarrow> ('k, 'v) cmap" where
  "cmap_set k v m =
     (if cmap_find m k = None then cmap_insert k v m
      else map (\<lambda>(k', v'). (k', if k' = k then v else v')) m)"

text \<open>\<open>m[k]\<close> read: a missing key is inserted with the default value.\<close>

definition cmap_at :: "'k :: linorder \<Rightarrow> 'v \<Rightarrow> ('k, 'v) cmap \<Rightarrow> 'v \<times> ('k, 'v) cmap" where
  "cmap_at k z m = (case cmap_find m k of Some v \<Rightarrow> (v, m) | None \<Rightarrow> (z, cmap_insert k z m))"

lemma set_cmap_insert: "fst ` set (cmap_insert k v m) = insert k (fst ` set m)"
  by (induction k v m rule: cmap_insert.induct) auto

lemma set_map_cmap_insert [simp]: "set (map fst (cmap_insert k v m)) = insert k (set (map fst m))"
  using set_cmap_insert [of k v m] by simp

lemma cmap_ok_Nil [simp]: "cmap_ok []"
  by (simp add: cmap_ok_def)

lemma cmap_ok_insert [simp]: "cmap_ok m \<Longrightarrow> cmap_ok (cmap_insert k v m)"
proof (induction k v m rule: cmap_insert.induct)
  case (2 k v k' v' m)
  then show ?case
    using set_cmap_insert [of k v m] by (fastforce simp: cmap_ok_def)
qed (simp add: cmap_ok_def)

lemma cmap_ok_erase [simp]: "cmap_ok m \<Longrightarrow> cmap_ok (cmap_erase k m)"
  unfolding cmap_ok_def cmap_erase_def by (simp add: sorted_wrt_map sorted_wrt_filter)

lemma cmap_ok_set [simp]: "cmap_ok m \<Longrightarrow> cmap_ok (cmap_set k v m)"
proof (cases "cmap_find m k = None")
  case False
  moreover have "map fst (map (\<lambda>(k', v'). (k', if k' = k then v else v')) m) = map fst m"
    by (induction m) auto
  ultimately show "cmap_ok m \<Longrightarrow> ?thesis" by (simp only: cmap_set_def cmap_ok_def if_False)
qed (simp add: cmap_set_def)

lemma cmap_find_Nil [simp]: "cmap_find [] k = None"
  by (simp add: cmap_find_def)

lemma cmap_find_insert [simp]:
  "cmap_ok m \<Longrightarrow> cmap_find (cmap_insert k v m) k' =
     (if k' = k \<and> cmap_find m k = None then Some v else cmap_find m k')"
proof (induction k v m rule: cmap_insert.induct)
  case (2 k v a b m)
  have "cmap_find m x = None" if "x \<le> a" for x
    using 2(2) that unfolding cmap_find_def map_of_eq_None_iff cmap_ok_def
    by (auto simp: image_iff)
  then show ?case
    using 2 by (auto simp: cmap_find_def cmap_ok_def)
qed (simp add: cmap_find_def)

lemma cmap_find_erase [simp]: "cmap_find (cmap_erase k m) k' = (if k' = k then None else cmap_find m k')"
  unfolding cmap_find_def cmap_erase_def by (induction m) auto

lemma cmap_find_set [simp]:
  "cmap_ok m \<Longrightarrow> cmap_find (cmap_set k v m) k' = (if k' = k then Some v else cmap_find m k')"
proof (cases "cmap_find m k")
  case (Some w)
  have "map_of (map (\<lambda>(a, b). (a, if a = k then v else b)) m) k' =
      (if k' = k \<and> map_of m k \<noteq> None then Some v else map_of m k')"
    by (induction m) auto
  then show ?thesis using Some by (auto simp: cmap_set_def cmap_find_def)
qed (simp add: cmap_set_def)

text \<open>Writing a sorted list of entries into an empty map gives the list back.\<close>

lemma cmap_insert_snoc:
  "\<forall>k' \<in> fst ` set m. k' < k \<Longrightarrow> cmap_insert k v m = m @ [(k, v)]"
  by (induction m) (auto dest: less_imp_not_less)

lemma cmap_insert_fold:
  "cmap_ok (m @ n) \<Longrightarrow> fold (\<lambda>(k, v). cmap_insert k v) n m = m @ n"
proof (induction n arbitrary: m)
  case (Cons p n)
  obtain k v where p: "p = (k, v)" by (cases p)
  have "\<forall>k' \<in> fst ` set m. k' < k"
    using Cons.prems by (auto simp: cmap_ok_def p sorted_wrt_append)
  then have "cmap_insert k v m = m @ [(k, v)]" by (rule cmap_insert_snoc)
  then show ?case using Cons p by simp
qed simp

section \<open>The store contract\<close>

locale key_store =
  fixes store :: "'k \<Rightarrow> 'v \<Rightarrow> 's \<Rightarrow> 's"
    and fetch :: "'s \<Rightarrow> 'k \<Rightarrow> 'v option"
    and inv :: "'s \<Rightarrow> bool"
  assumes inv_store: "inv s \<Longrightarrow> inv (store k v s)"
    and fetch_store: "inv s \<Longrightarrow> fetch (store k v s) k' = (if k' = k then Some v else fetch s k')"
begin

lemma store_overwrites: "inv s \<Longrightarrow> fetch (store k v (store k w s)) k' = fetch (store k v s) k'"
  by (simp add: fetch_store inv_store)

lemma store_commute:
  "inv s \<Longrightarrow> k \<noteq> l \<Longrightarrow> fetch (store k v (store l w s)) x = fetch (store l w (store k v s)) x"
  by (simp add: fetch_store inv_store)

lemma inv_store_all: "inv s \<Longrightarrow> inv (fold (\<lambda>(k, v). store k v) kvs s)"
  by (induction kvs arbitrary: s) (auto simp: inv_store)

text \<open>After a sequence of writes a key holds the last value written to it, or its old one.\<close>

lemma fetch_store_all:
  "inv s \<Longrightarrow> fetch (fold (\<lambda>(k, v). store k v) kvs s) k' =
     (case map_of (rev kvs) k' of Some v \<Rightarrow> Some v | None \<Rightarrow> fetch s k')"
proof (induction kvs arbitrary: s)
  case (Cons p kvs)
  then show ?case
    by (cases p) (auto simp: inv_store fetch_store map_add_def split: option.splits)
qed simp

end

text \<open>The idiom: \<open>find\<close>, \<open>erase\<close> what was found, \<open>insert\<close>.\<close>

definition cmap_replace :: "'k :: linorder \<Rightarrow> 'v \<Rightarrow> ('k, 'v) cmap \<Rightarrow> ('k, 'v) cmap" where
  "cmap_replace k v m =
     (let m' = (if cmap_find m k \<noteq> None then cmap_erase k m else m) in cmap_insert k v m')"

interpretation replace: key_store cmap_replace cmap_find cmap_ok
  by unfold_locales (auto simp: cmap_replace_def Let_def)

interpretation assign: key_store cmap_set cmap_find cmap_ok
  by unfold_locales simp_all

end
