(* ===== verification/Dom.thy ===== *)
theory Dom
  imports StringUtil CxxMap
begin

text \<open>
  The browser's document as the crawler sees it: the calls of \<open>nsIDOMNode\<close> and \<open>nsIDOMElement\<close> are the
  fields of a record, since their code is not under \<open>src\<close>.  The locale \<open>dom_tree\<close> states what the W3C
  DOM promises of them; every document given as markup satisfies it.  A loop over the children of a node
  is a function of the list of children; \<open>walk\<close> lists nodes in document order.
\<close>

section \<open>Calls that may fail or not return\<close>

text \<open>\<open>None\<close> is a call that does not return.\<close>

type_synonym 'a run = "'a res option"

definition bindR :: "'a run \<Rightarrow> ('a \<Rightarrow> 'b run) \<Rightarrow> 'b run" where
  "bindR m f = Option.bind m (\<lambda>r. case r of Inl e \<Rightarrow> Some (Inl e) | Inr a \<Rightarrow> f a)"

lemma bindR_simps [simp]:
  "bindR None f = None" "bindR (Some (Inl e)) f = Some (Inl e)" "bindR (Some (Inr a)) f = f a"
  by (simp_all add: bindR_def)

lemma bindR_eq_Some_Inr:
  "bindR m f = Some (Inr b) \<longleftrightarrow> (\<exists>a. m = Some (Inr a) \<and> f a = Some (Inr b))"
proof (cases m)
  case (Some r)
  then show ?thesis by (cases r) simp_all
qed simp

lemma bindR_assoc: "bindR (bindR m f) g = bindR m (\<lambda>a. bindR (f a) g)"
  by (cases m) (auto simp: bindR_def split: sum.split)

lemma bindR_mono [partial_function_mono]:
  assumes "mono_option B" and "\<And>y. mono_option (\<lambda>f. C y f)"
  shows "mono_option (\<lambda>f. bindR (B f) (\<lambda>y. C y f))"
  unfolding bindR_def
proof (rule bind_mono [OF assms(1)])
  fix r :: "'c res"
  show "mono_option (\<lambda>f. case r of Inl e \<Rightarrow> Some (Inl e) | Inr a \<Rightarrow> C a f)"
    using assms(2) by (cases r) (simp_all add: option.const_mono)
qed

text \<open>A loop whose body may fail or not return.\<close>

fun foldR :: "('x \<Rightarrow> 's \<Rightarrow> 's run) \<Rightarrow> 'x list \<Rightarrow> 's \<Rightarrow> 's run" where
  "foldR f [] s = Some (Inr s)"
| "foldR f (x # xs) s = bindR (f x s) (foldR f xs)"

section \<open>The interface\<close>

text \<open>
  A node is a value of type \<open>'n\<close>, a null pointer is \<open>None\<close>.  Texts are the UTF-8 bytes
  \<open>NS_ConvertUTF16toUTF8(\<dots>).get()\<close> gives.  \<open>childNodes\<close> is \<open>None\<close> when \<open>GetChildNodes\<close> fails,
  \<open>attributes\<close> when \<open>GetAttributes\<close> hands out null, \<open>boxOf\<close> when \<open>GetBoxObjectFor\<close> fails.
\<close>

record 'n dom =
  nodeType :: "'n \<Rightarrow> nat"
  nodeName :: "'n \<Rightarrow> bytes"
  nodeValue :: "'n \<Rightarrow> bytes"
  childNodes :: "'n \<Rightarrow> 'n list option"
  parentNode :: "'n \<Rightarrow> 'n option"
  attributes :: "'n \<Rightarrow> (bytes \<times> bytes) list option"
  boxOf :: "'n \<Rightarrow> (int \<times> int \<times> int \<times> int) option"

abbreviation ELEMENT_NODE :: nat where "ELEMENT_NODE \<equiv> 1"
abbreviation TEXT_NODE :: nat where "TEXT_NODE \<equiv> 3"

definition kids :: "'n dom \<Rightarrow> 'n \<Rightarrow> 'n list" where
  "kids d n = (case childNodes d n of None \<Rightarrow> [] | Some ns \<Rightarrow> ns)"

text \<open>\<open>GetAttribute\<close>: the value, or an empty string when there is no such attribute.\<close>

definition getAttribute :: "'n dom \<Rightarrow> 'n \<Rightarrow> bytes \<Rightarrow> bytes" where
  "getAttribute d n a =
     (case attributes d n of
        None \<Rightarrow> []
      | Some as \<Rightarrow> (case map_of as a of None \<Rightarrow> [] | Some v \<Rightarrow> v))"

section \<open>Document order\<close>

text \<open>The nodes below the list \<open>ns\<close> in document order, at most \<open>k\<close> levels deep; \<open>f\<close> gives the children.\<close>

fun walk :: "('n \<Rightarrow> 'n list) \<Rightarrow> nat \<Rightarrow> 'n list \<Rightarrow> 'n list" where
  "walk f 0 ns = []"
| "walk f (Suc k) ns = concat (map (\<lambda>n. n # walk f k (f n)) ns)"

lemma walk_Nil [simp]: "walk f k [] = []"
  by (cases k) auto

lemma walk_append: "walk f k (ms @ ns) = walk f k ms @ walk f k ns"
  by (cases k) auto

lemma walk_stable:
  assumes "\<And>n c. c \<in> set (f n) \<Longrightarrow> (down :: 'n \<Rightarrow> nat) c < down n"
    and "\<forall>n \<in> set ns. down n < j" and "j \<le> k"
  shows "walk f k ns = walk f j ns"
  using assms(2,3)
proof (induction j arbitrary: k ns)
  case 0
  then show ?case by (cases ns) auto
next
  case (Suc j)
  then obtain k' where k: "k = Suc k'" "j \<le> k'" by (cases k) auto
  have "walk f k' (f n) = walk f j (f n)" if "n \<in> set ns" for n
    using Suc.IH [of "f n" k'] Suc.prems(1) that k(2) assms(1) by fastforce
  then show ?case using k(1) by (auto intro!: arg_cong [of _ _ concat])
qed

section \<open>The way up\<close>

definition is_parent :: "'n dom \<Rightarrow> 'n \<Rightarrow> 'n \<Rightarrow> bool" where
  "is_parent d c p \<longleftrightarrow> parentNode d c = Some p"

lemma root_unique:
  assumes "(is_parent d)\<^sup>*\<^sup>* n r" "parentNode d r = None" "(is_parent d)\<^sup>*\<^sup>* n r'" "parentNode d r' = None"
  shows "r = r'"
  using assms(1,2,3,4)
  by (induction rule: converse_rtranclp_induct) (auto simp: is_parent_def elim: converse_rtranclpE)

section \<open>What the DOM promises\<close>

text \<open>
  \<open>up\<close> and \<open>down\<close> are the depth and the height of a node, which make the document a finite tree.
\<close>

locale dom_tree =
  fixes d :: "'n dom" and up down :: "'n \<Rightarrow> nat"
  assumes child_iff: "c \<in> set (kids d n) \<longleftrightarrow> parentNode d c = Some n"
    and up: "parentNode d n = Some p \<Longrightarrow> up p < up n"
    and down: "c \<in> set (kids d n) \<Longrightarrow> down c < down n"
    and element: "nodeType d n = ELEMENT_NODE \<Longrightarrow> nodeName d n \<noteq> [] \<and> hd (nodeName d n) \<noteq> CHR ''#'' \<and> attributes d n \<noteq> None"
    and parent: "parentNode d n = Some p \<Longrightarrow> nodeType d p = ELEMENT_NODE \<or> parentNode d p = None \<and> (\<exists>r. nodeName d p = CHR ''#'' # r)"
    and leaf: "nodeType d n = TEXT_NODE \<Longrightarrow> kids d n = [] \<and> (\<exists>r. nodeName d n = CHR ''#'' # r)"
begin

lemma walk_unfold:
  assumes "\<And>n. set (f n) \<subseteq> set (kids d n)" and "\<forall>m \<in> set (n # ns). down m < k"
  shows "walk f k (n # ns) = n # walk f k (f n) @ walk f k ns"
proof -
  obtain j where k: "k = Suc j" using assms(2) by (cases k) auto
  have "\<forall>m \<in> set (f n). down m < j"
    using assms down k by fastforce
  moreover have "\<And>n c. c \<in> set (f n) \<Longrightarrow> down c < down n" using assms(1) down by blast
  ultimately have "walk f (Suc j) (f n) = walk f j (f n)"
    using walk_stable [of f down "f n" j "Suc j"] by simp
  then show ?thesis by (simp add: k del: walk.simps(2)) simp
qed

lemma walk_down:
  "x \<in> set (walk f k ns) \<Longrightarrow> (\<And>n. set (f n) \<subseteq> set (kids d n)) \<Longrightarrow> \<exists>n \<in> set ns. down x \<le> down n"
proof (induction k arbitrary: ns)
  case (Suc k)
  then obtain n where n: "n \<in> set ns" "x = n \<or> x \<in> set (walk f k (f n))" by auto
  show ?case
  proof (cases "x = n")
    case False
    then obtain c where "c \<in> set (f n)" "down x \<le> down c" using n Suc by blast
    then have "down x \<le> down n" using Suc.prems(2) down by fastforce
    then show ?thesis using n(1) by blast
  qed (use n in blast)
qed simp

end

section \<open>Documents given as markup\<close>

text \<open>The first letter of a tag name stands apart, so that no name is empty.\<close>

datatype markup =
    Element char bytes "(bytes \<times> bytes) list" "markup list"
  | Text bytes

primrec mkids :: "markup \<Rightarrow> markup list" where
  "mkids (Element c t as ms) = ms"
| "mkids (Text v) = []"

text \<open>
  A node is the list of child positions on the way to it from the document, which is \<open>[]\<close>:
  \<open>below\<close> gives its children, \<open>entry\<close> the node itself when it is not the document.
\<close>

fun below :: "markup list \<Rightarrow> nat list \<Rightarrow> markup list option" where
  "below ms [] = Some ms"
| "below ms (i # p) = (if i < length ms then below (mkids (ms ! i)) p else None)"

definition entry :: "markup list \<Rightarrow> nat list \<Rightarrow> markup option" where
  "entry ms p =
     (if p = [] then None
      else case below ms (butlast p) of
             None \<Rightarrow> None
           | Some xs \<Rightarrow> if last p < length xs then Some (xs ! last p) else None)"

definition dom_of :: "markup list \<Rightarrow> nat list dom" where
  "dom_of ms = \<lparr>
     nodeType = (\<lambda>p. case entry ms p of Some (Element c t as xs) \<Rightarrow> 1 | Some (Text v) \<Rightarrow> 3 | None \<Rightarrow> 9),
     nodeName = (\<lambda>p. case entry ms p of Some (Element c t as xs) \<Rightarrow> (if c = CHR ''#'' then CHR ''X'' # t else c # t)
                     | Some (Text v) \<Rightarrow> ''#text'' | None \<Rightarrow> ''#document''),
     nodeValue = (\<lambda>p. case entry ms p of Some (Text v) \<Rightarrow> v | _ \<Rightarrow> []),
     childNodes = (\<lambda>p. case below ms p of None \<Rightarrow> None | Some xs \<Rightarrow> Some (map (\<lambda>i. p @ [i]) [0..<length xs])),
     parentNode = (\<lambda>p. if p = [] \<or> below ms p = None then None else Some (butlast p)),
     attributes = (\<lambda>p. case entry ms p of Some (Element c t as xs) \<Rightarrow> Some as | _ \<Rightarrow> None),
     boxOf = (\<lambda>p. None)\<rparr>"

definition node_height :: "markup list \<Rightarrow> nat list \<Rightarrow> nat" where
  "node_height ms p = (case below ms p of None \<Rightarrow> 0 | Some xs \<Rightarrow> size_list size xs)"

lemma below_snoc:
  "below ms (p @ [i]) = (case below ms p of None \<Rightarrow> None
     | Some xs \<Rightarrow> if i < length xs then Some (mkids (xs ! i)) else None)"
  by (induction ms p rule: below.induct) auto

lemma entry_snoc:
  "entry ms (p @ [i]) = (case below ms p of None \<Rightarrow> None
     | Some xs \<Rightarrow> if i < length xs then Some (xs ! i) else None)"
  by (simp add: entry_def split: option.split)

lemma size_nth: "i < length xs \<Longrightarrow> size (xs ! i) < size_list size xs"
  by (induction xs arbitrary: i) (auto simp: nth_Cons less_Suc_eq_le le_add2 trans_le_add2 order_less_imp_le split: nat.split)

lemma size_mkids: "i < length xs \<Longrightarrow> size_list size (mkids (xs ! i)) < size_list size xs"
proof -
  assume "i < length xs"
  then have "size (xs ! i) < size_list size xs" by (rule size_nth)
  moreover have "size_list size (mkids x) \<le> size x" for x by (cases x) auto
  ultimately show ?thesis using order_le_less_trans by blast
qed

lemma dom_of_simps:
  "kids (dom_of ms) p = (case below ms p of None \<Rightarrow> [] | Some xs \<Rightarrow> map (\<lambda>i. p @ [i]) [0..<length xs])"
  "parentNode (dom_of ms) p = (if p = [] \<or> below ms p = None then None else Some (butlast p))"
  "nodeType (dom_of ms) p = (case entry ms p of Some (Element c t as xs) \<Rightarrow> 1 | Some (Text v) \<Rightarrow> 3 | None \<Rightarrow> 9)"
  "nodeName (dom_of ms) p = (case entry ms p of Some (Element c t as xs) \<Rightarrow> (if c = CHR ''#'' then CHR ''X'' # t else c # t)
     | Some (Text v) \<Rightarrow> ''#text'' | None \<Rightarrow> ''#document'')"
  "nodeValue (dom_of ms) p = (case entry ms p of Some (Text v) \<Rightarrow> v | _ \<Rightarrow> [])"
  "attributes (dom_of ms) p = (case entry ms p of Some (Element c t as xs) \<Rightarrow> Some as | _ \<Rightarrow> None)"
  "boxOf (dom_of ms) p = None"
  by (simp_all add: dom_of_def kids_def split: option.split)

lemma child_markup: "c \<in> set (kids (dom_of ms) n) \<longleftrightarrow> parentNode (dom_of ms) c = Some n"
  by (cases c rule: rev_cases) (auto simp: dom_of_simps below_snoc split: option.split)

interpretation markup_dom: dom_tree "dom_of ms" length "node_height ms"
proof (unfold_locales, goal_cases)
  case (1 c n)
  show ?case by (rule child_markup)
next
  case (2 n p)
  then show ?case by (cases n rule: rev_cases) (auto simp: dom_of_simps split: if_splits)
next
  case (3 c n)
  then show ?case
    by (auto simp: dom_of_simps node_height_def below_snoc size_mkids split: option.splits)
next
  case (4 n)
  then show ?case by (auto simp: dom_of_simps split: option.splits markup.splits)
next
  case (5 n p)
  then obtain i where "n = p @ [i]" "below ms n \<noteq> None"
    by (cases n rule: rev_cases) (auto simp: dom_of_simps split: if_splits)
  then obtain xs where n: "below ms p = Some xs" "xs \<noteq> []"
    by (fastforce simp: below_snoc split: option.splits if_splits)
  show ?case
  proof (cases p rule: rev_cases)
    case Nil
    then show ?thesis by (simp add: dom_of_simps entry_def)
  next
    case (snoc q j)
    then show ?thesis
      using n by (auto simp: dom_of_simps below_snoc entry_snoc split: option.splits if_splits markup.splits)
  qed
next
  case (6 n)
  then obtain v where "entry ms n = Some (Text v)"
    by (auto simp: dom_of_simps split: option.splits markup.splits)
  then show ?case
    by (cases n rule: rev_cases) (auto simp: dom_of_simps entry_snoc entry_def below_snoc split: option.splits if_splits)
qed

text \<open>A page with a body of class \<open>a b\<close> that has a text and a paragraph.\<close>

definition sample_page :: "markup list" where
  "sample_page = [Element (CHR ''H'') ''TML'' [] [Element (CHR ''B'') ''ODY'' [(''class'', ''a b'')]
     [Text ''hello'', Element (CHR ''P'') [] [(''id'', ''x'')] [Text ''text of P'']]]]"

text \<open>A property of all elements of a document is checked on the markup.\<close>

fun all_markup :: "(markup \<Rightarrow> bool) \<Rightarrow> markup \<Rightarrow> bool" where
  "all_markup P (Element c t as ms) = (P (Element c t as ms) \<and> list_all (all_markup P) ms)"
| "all_markup P (Text v) = P (Text v)"

lemma all_markup_below:
  "list_all (all_markup P) ms \<Longrightarrow> below ms p = Some xs \<Longrightarrow> list_all (all_markup P) xs"
proof (induction ms p rule: below.induct)
  case (2 ms i p)
  then have "all_markup P (ms ! i)" by (auto simp: list_all_length split: if_splits)
  then have "list_all (all_markup P) (mkids (ms ! i))" by (cases "ms ! i") auto
  then show ?case using 2 by (auto split: if_splits)
qed simp

lemma all_markup_entry:
  assumes "list_all (all_markup P) ms" "entry ms p = Some x"
  shows "P x"
proof -
  obtain xs where "below ms (butlast p) = Some xs" "last p < length xs" "x = xs ! last p"
    using assms(2) by (auto simp: entry_def split: if_splits option.splits)
  then have "all_markup P x" using all_markup_below [OF assms(1)] by (fastforce simp: list_all_length)
  then show ?thesis by (cases x) auto
qed

end
