(* ===== verification/XpathUtil.thy ===== *)
theory XpathUtil
  imports Dom
begin

text \<open>
  \<open>DisCrawler/WrapperFetch/nsXpathUtil.cpp\<close>: the XPath of a node, by which the crawler finds the node
  again.  A step names a tag and the values of some attributes.  The second half reads these paths
  as XPath does and shows that the path of a node selects the node.
\<close>

section \<open>The paths\<close>

definition Att_Name :: "bytes list" where
  "Att_Name = [''class'', ''id'', ''valign'', ''halign'', ''align'', ''bgcolor'', ''color'', ''font'']"

text \<open>\<open>attlist\<close> is a \<open>std::set\<close>, listed in its order.\<close>

definition AddAttName :: "bytes \<Rightarrow> bytes list \<Rightarrow> bytes list" where
  "AddAttName name attlist = insort_insert name attlist"

definition toLower :: "bytes \<Rightarrow> bytes" where
  "toLower s = map tolower s"

text \<open>One attribute is appended, after \<open>and\<close> when there are others, if its value is not empty.\<close>

definition append_att :: "'n dom \<Rightarrow> 'n \<Rightarrow> bytes \<Rightarrow> bytes \<Rightarrow> bytes" where
  "append_att d n ret a =
     (let v = getAttribute d n a
      in if v \<noteq> [] then
           (if ret \<noteq> [] then ret @ '' and '' else ret) @ ''@'' @ a @ ''=\"'' @ v @ ''\"''
         else ret)"

definition GetXpathAtt :: "'n dom \<Rightarrow> bytes list \<Rightarrow> 'n \<Rightarrow> bytes" where
  "GetXpathAtt d attlist n =
     (case attributes d n of
        None \<Rightarrow> []
      | Some as \<Rightarrow>
          if as = [] then []
          else foldl (append_att d n) [] (if attlist \<noteq> [] then attlist else Att_Name))"

text \<open>The tag with its attributes in brackets.\<close>

definition with_atts :: "bytes \<Rightarrow> bytes \<Rightarrow> bytes" where
  "with_atts tag atts = (if atts \<noteq> [] then tag @ ''['' @ atts @ '']'' else tag)"

definition tag_step :: "'n dom \<Rightarrow> bytes list \<Rightarrow> 'n \<Rightarrow> bytes" where
  "tag_step d attlist n = with_atts (toLower (nodeName d n)) (GetXpathAtt d attlist n)"

text \<open>\<open>do_QueryInterface\<close> to an element is null for other nodes, and \<open>GetTagName\<close> follows it.\<close>

definition CalXpath :: "'n dom \<Rightarrow> bytes list \<Rightarrow> 'n option \<Rightarrow> bytes res" where
  "CalXpath d attlist node =
     (case node of
        None \<Rightarrow> Inl NullDeref
      | Some n \<Rightarrow>
          if nodeType d n \<noteq> ELEMENT_NODE then Inl NullDeref
          else Inr (if nodeName d n \<noteq> [] then ''//'' @ tag_step d attlist n else []))"

text \<open>The stack is a list with its top in front.  The steps are taken off with slashes between.\<close>

fun unstack :: "bytes list \<Rightarrow> bytes" where
  "unstack [] = []"
| "unstack (t # ps) = t @ (if ps \<noteq> [] then ''/'' @ unstack ps else [])"

partial_function (option) steps_to ::
  "'n dom \<Rightarrow> bytes list \<Rightarrow> 'n option \<Rightarrow> 'n option \<Rightarrow> bytes list \<Rightarrow> bytes list run" where
  "steps_to d attlist anc node ps =
     (if node = anc then Some (Inr ps)
      else case node of
        None \<Rightarrow> Some (Inl NullDeref)
      | Some n \<Rightarrow>
          if nodeType d n \<noteq> ELEMENT_NODE then Some (Inl NullDeref)
          else steps_to d attlist anc (parentNode d n)
                 (if nodeName d n \<noteq> [] then tag_step d attlist n # ps else ps))"

definition CalXpathAnc :: "'n dom \<Rightarrow> bytes list \<Rightarrow> 'n option \<Rightarrow> 'n option \<Rightarrow> bytes run" where
  "CalXpathAnc d attlist node anc =
     bindR (steps_to d attlist anc node []) (\<lambda>ps. Some (Inr (unstack ps)))"

partial_function (option) steps_up ::
  "'n dom \<Rightarrow> bytes list \<Rightarrow> 'n option \<Rightarrow> bytes list \<Rightarrow> bytes list run" where
  "steps_up d attlist node ps =
     (case node of
        None \<Rightarrow> Some (Inr ps)
      | Some n \<Rightarrow>
          steps_up d attlist (parentNode d n)
            (if nodeType d n = ELEMENT_NODE then tag_step d attlist n # ps else ps))"

definition CalXpathABS :: "'n dom \<Rightarrow> bytes list \<Rightarrow> 'n option \<Rightarrow> bytes run" where
  "CalXpathABS d attlist node =
     (case node of
        None \<Rightarrow> Some (Inl NullDeref)
      | Some n \<Rightarrow>
          if nodeType d n \<noteq> ELEMENT_NODE then Some (Inl NullDeref)
          else bindR (steps_up d attlist node [])
                 (\<lambda>ps. Some (Inr (if ps = [] then [] else ''/'' @ unstack ps))))"

definition GetXpath :: "'n dom \<Rightarrow> bytes list \<Rightarrow> 'n option \<Rightarrow> int \<Rightarrow> bytes run" where
  "GetXpath d attlist node type =
     (if type = 0 then Some (CalXpath d attlist node)
      else if type = 1 then CalXpathABS d attlist node
      else Some (Inr []))"

definition GetSubpath :: "'n dom \<Rightarrow> bytes list \<Rightarrow> 'n option \<Rightarrow> 'n option \<Rightarrow> bytes run" where
  "GetSubpath d attlist par sub = CalXpathAnc d attlist sub par"

text \<open>
  \<open>GetNodes\<close> and \<open>GetSubNodes\<close> collect what the evaluator of the browser, the argument \<open>evaluate\<close>,
  finds from the document element or the given node; an expression it cannot read finds nothing.
\<close>

definition GetSubNodes :: "(bytes \<Rightarrow> 'n \<Rightarrow> 'n list option) \<Rightarrow> 'n \<Rightarrow> bytes \<Rightarrow> 'n list" where
  "GetSubNodes evaluate node xpath = (case evaluate xpath node of None \<Rightarrow> [] | Some ns \<Rightarrow> ns)"

definition GetNodes :: "(bytes \<Rightarrow> 'n \<Rightarrow> 'n list option) \<Rightarrow> 'n \<Rightarrow> bytes \<Rightarrow> 'n list" where
  "GetNodes evaluate docele xpath = (case evaluate xpath docele of None \<Rightarrow> [] | Some ns \<Rightarrow> ns)"

section \<open>Reading the paths\<close>

text \<open>A step: the tag and the attributes with the values they must have.\<close>

type_synonym step = "bytes \<times> (bytes \<times> bytes) list"

definition att_steps :: "'n dom \<Rightarrow> bytes list \<Rightarrow> 'n \<Rightarrow> (bytes \<times> bytes) list" where
  "att_steps d attlist n =
     (if attributes d n = None \<or> attributes d n = Some [] then []
      else filter (\<lambda>(a, v). v \<noteq> [])
             (map (\<lambda>a. (a, getAttribute d n a)) (if attlist \<noteq> [] then attlist else Att_Name)))"

definition step_of :: "'n dom \<Rightarrow> bytes list \<Rightarrow> 'n \<Rightarrow> step" where
  "step_of d attlist n = (toLower (nodeName d n), att_steps d attlist n)"

definition print_att :: "bytes \<times> bytes \<Rightarrow> bytes" where
  "print_att p = ''@'' @ fst p @ ''=\"'' @ snd p @ ''\"''"

fun print_atts :: "(bytes \<times> bytes) list \<Rightarrow> bytes" where
  "print_atts [] = []"
| "print_atts (p # ps) = print_att p @ (if ps \<noteq> [] then '' and '' @ print_atts ps else [])"

definition print_step :: "step \<Rightarrow> bytes" where
  "print_step s = with_atts (fst s) (print_atts (snd s))"

text \<open>The part of the XPath grammar these paths need, read up to the closing bracket.\<close>

function parse_atts :: "bytes \<Rightarrow> ((bytes \<times> bytes) list \<times> bytes) option" where
  "parse_atts s =
     (if \<not> prefix ''@'' s then None
      else
        let name = takeWhile (\<lambda>c. c \<noteq> CHR ''='') (drop 1 s);
            r = drop (1 + length name) s
        in if \<not> prefix ''=\"'' r then None
           else
             let v = takeWhile (\<lambda>c. c \<noteq> CHR 0x22) (drop 2 r);
                 r' = drop (2 + length v) r
             in if prefix ''\"]'' r' then Some ([(name, v)], drop 2 r')
                else if prefix ''\" and '' r' then
                  map_option (\<lambda>(as, t). ((name, v) # as, t)) (parse_atts (drop 6 r'))
                else None)"
  by pat_completeness auto
termination by (relation "measure length") (auto simp: prefix_def)

declare parse_atts.simps [simp del]

function parse_path :: "bytes \<Rightarrow> step list option" where
  "parse_path s =
     (if s = [] then Some []
      else if hd s \<noteq> CHR ''/'' then None
      else
        let tag = takeWhile (\<lambda>c. c \<noteq> CHR ''/'' \<and> c \<noteq> CHR ''['') (tl s);
            r = drop (1 + length tag) s
        in if tag = [] then None
           else if r \<noteq> [] \<and> hd r = CHR ''['' then
             (case parse_atts (tl r) of
                None \<Rightarrow> None
              | Some (as, t) \<Rightarrow>
                  if length t < length s then map_option (\<lambda>ss. (tag, as) # ss) (parse_path t) else None)
           else map_option (\<lambda>ss. (tag, []) # ss) (parse_path r))"
  by pat_completeness auto
termination by (relation "measure length") auto

declare parse_path.simps [simp del]

text \<open>Which nodes a path selects, from a list of context nodes: each step goes to the children.\<close>

definition step_holds :: "'n dom \<Rightarrow> step \<Rightarrow> 'n \<Rightarrow> bool" where
  "step_holds d s n \<longleftrightarrow>
     nodeType d n = ELEMENT_NODE \<and> toLower (nodeName d n) = fst s
     \<and> list_all (\<lambda>(a, v). attributes d n \<noteq> None \<and> map_of (the (attributes d n)) a = Some v) (snd s)"

fun select :: "'n dom \<Rightarrow> step list \<Rightarrow> 'n list \<Rightarrow> 'n list" where
  "select d [] ns = ns"
| "select d (s # ss) ns = select d ss (filter (step_holds d s) (concat (map (kids d) ns)))"


section \<open>A printed path is read back\<close>

lemma print_atts_snoc:
  "print_atts (as @ [p]) = (if as = [] then print_att p else print_atts as @ '' and '' @ print_att p)"
  by (induction as) auto

lemma print_atts_Nil_iff [simp]: "print_atts as = [] \<longleftrightarrow> as = []"
  by (cases as) (auto simp: print_att_def)

lemma append_att_print:
  "append_att d n (print_atts as) a
     = print_atts (as @ filter (\<lambda>(a, v). v \<noteq> []) [(a, getAttribute d n a)])"
  by (auto simp: append_att_def Let_def print_atts_snoc print_att_def)

lemma GetXpathAtt_print: "GetXpathAtt d attlist n = print_atts (att_steps d attlist n)"
proof -
  have "foldl (append_att d n) (print_atts as) names
      = print_atts (as @ filter (\<lambda>(a, v). v \<noteq> []) (map (\<lambda>a. (a, getAttribute d n a)) names))" for as names
  proof (induction names arbitrary: as)
    case (Cons a names)
    show ?case unfolding foldl_Cons append_att_print Cons.IH by (simp add: split_def)
  qed simp
  from this [of "[]"] show ?thesis
    by (simp add: GetXpathAtt_def att_steps_def split: option.split)
qed

lemma tag_step_print: "tag_step d attlist n = print_step (step_of d attlist n)"
  by (simp add: tag_step_def print_step_def step_of_def GetXpathAtt_print)

definition att_ok :: "bytes \<times> bytes \<Rightarrow> bool" where
  "att_ok p \<longleftrightarrow> CHR ''='' \<notin> set (fst p) \<and> CHR 0x22 \<notin> set (snd p)"

definition step_ok :: "step \<Rightarrow> bool" where
  "step_ok s \<longleftrightarrow> fst s \<noteq> [] \<and> list_all (\<lambda>c. c \<noteq> CHR ''/'' \<and> c \<noteq> CHR ''['') (fst s) \<and> list_all att_ok (snd s)"

lemma takeWhile_stop: "\<forall>x \<in> set xs. P x \<Longrightarrow> \<not> P y \<Longrightarrow> takeWhile P (xs @ y # zs) = xs"
  by (simp add: takeWhile_append2)

lemma parse_att:
  assumes "att_ok (a, v)"
  shows "parse_atts (print_att (a, v) @ CHR '']'' # t) = Some ([(a, v)], t)"
    and "parse_atts (print_att (a, v) @ '' and '' @ t) = map_option (\<lambda>(as, t). ((a, v) # as, t)) (parse_atts t)"
proof -
  have "takeWhile (\<lambda>c. c \<noteq> CHR ''='') (a @ CHR ''='' # x) = a" for x
    using assms by (intro takeWhile_stop) (auto simp: att_ok_def)
  moreover have "takeWhile (\<lambda>c. c \<noteq> CHR 0x22) (v @ CHR 0x22 # x) = v" for x
    using assms by (intro takeWhile_stop) (auto simp: att_ok_def)
  ultimately show "parse_atts (print_att (a, v) @ CHR '']'' # t) = Some ([(a, v)], t)"
    and "parse_atts (print_att (a, v) @ '' and '' @ t) = map_option (\<lambda>(as, t). ((a, v) # as, t)) (parse_atts t)"
    by (simp_all add: print_att_def parse_atts.simps [of "CHR ''@'' # x" for x] Let_def)
qed

lemma parse_print_atts:
  "list_all att_ok as \<Longrightarrow> as \<noteq> [] \<Longrightarrow> parse_atts (print_atts as @ CHR '']'' # t) = Some (as, t)"
proof (induction as)
  case (Cons p as)
  then show ?case
    using parse_att [of "fst p" "snd p"] by (cases "as = []") auto
qed simp

definition print_path :: "step list \<Rightarrow> bytes" where
  "print_path ss = concat (map (\<lambda>s. CHR ''/'' # print_step s) ss)"

lemma unstack_print: "ss \<noteq> [] \<Longrightarrow> ''/'' @ unstack (map print_step ss) = print_path ss"
proof (induction ss)
  case (Cons s ss)
  then show ?case by (cases "ss = []") (auto simp: print_path_def)
qed simp

lemma parse_print_path: "list_all step_ok ss \<Longrightarrow> parse_path (print_path ss) = Some ss"
proof (induction ss)
  case Nil
  show ?case by (simp add: print_path_def parse_path.simps)
next
  case (Cons s ss)
  obtain tag as where s: "s = (tag, as)" by (cases s)
  have tag: "tag \<noteq> []" "\<forall>c \<in> set tag. c \<noteq> CHR ''/'' \<and> c \<noteq> CHR ''[''" "list_all att_ok as"
    using Cons.prems s by (auto simp: step_ok_def list_all_iff)
  have rest: "print_path ss = [] \<or> (\<exists>r. print_path ss = CHR ''/'' # r)" by (cases ss) (auto simp: print_path_def)
  show ?case
  proof (cases "as = []")
    case True
    then have p: "print_path (s # ss) = CHR ''/'' # tag @ print_path ss"
      by (simp add: print_path_def print_step_def with_atts_def s)
    have "takeWhile (\<lambda>c. c \<noteq> CHR ''/'' \<and> c \<noteq> CHR ''['') (tag @ CHR ''/'' # x) = tag" for x
      using tag(2) by (intro takeWhile_stop) auto
    moreover have "takeWhile (\<lambda>c. c \<noteq> CHR ''/'' \<and> c \<noteq> CHR ''['') tag = tag"
      using tag(2) by (simp add: takeWhile_eq_all_conv)
    ultimately have tw: "takeWhile (\<lambda>c. c \<noteq> CHR ''/'' \<and> c \<noteq> CHR ''['') (tag @ print_path ss) = tag"
      using rest by fastforce
    have "print_path ss = [] \<or> hd (print_path ss) \<noteq> CHR ''[''" using rest by auto
    then show ?thesis
      unfolding p using Cons tag(1) tw True s by (subst parse_path.simps) (auto simp: Let_def)
  next
    case False
    then have p: "print_path (s # ss) = CHR ''/'' # tag @ CHR ''['' # print_atts as @ CHR '']'' # print_path ss"
      by (simp add: print_path_def print_step_def with_atts_def s)
    have "takeWhile (\<lambda>c. c \<noteq> CHR ''/'' \<and> c \<noteq> CHR ''['') (tag @ CHR ''['' # x) = tag" for x
      using tag(2) by (intro takeWhile_stop) auto
    then show ?thesis
      unfolding p using Cons tag False s parse_print_atts [OF tag(3) False]
      by (subst parse_path.simps) (simp add: Let_def)
  qed
qed

section \<open>The path of a node selects the node\<close>

text \<open>Tags without \<open>/\<close> and \<open>[\<close>, values without \<open>"\<close> and names without \<open>=\<close>.\<close>

definition xpath_safe :: "'n dom \<Rightarrow> bytes list \<Rightarrow> bool" where
  "xpath_safe d attlist \<longleftrightarrow>
     (\<forall>m. nodeType d m = ELEMENT_NODE \<longrightarrow>
        list_all (\<lambda>c. c \<noteq> CHR ''/'' \<and> c \<noteq> CHR ''['') (nodeName d m)
        \<and> (\<forall>as. attributes d m = Some as \<longrightarrow> list_all (\<lambda>(a, v). CHR 0x22 \<notin> set v) as))
     \<and> list_all (\<lambda>a. CHR ''='' \<notin> set a) attlist"

lemma getAttribute_value:
  "getAttribute d n a \<noteq> [] \<Longrightarrow> \<exists>as. attributes d n = Some as \<and> map_of as a = Some (getAttribute d n a)"
  by (auto simp: getAttribute_def split: option.splits)

lemma step_of_holds: "nodeType d n = ELEMENT_NODE \<Longrightarrow> step_holds d (step_of d attlist n) n"
  using getAttribute_value [of d n]
  by (fastforce simp: step_holds_def step_of_def att_steps_def list_all_iff)

lemma tolower_bracket: "tolower c = CHR ''/'' \<longleftrightarrow> c = CHR ''/''" "tolower c = CHR ''['' \<longleftrightarrow> c = CHR ''[''"
proof -
  have *: "tolower c = char_of (of_char c + 32 :: nat) \<and> 65 \<le> (of_char c :: nat) \<and> (of_char c :: nat) \<le> 90 \<or> tolower c = c"
    by (simp add: tolower_def)
  show "tolower c = CHR ''/'' \<longleftrightarrow> c = CHR ''/''" "tolower c = CHR ''['' \<longleftrightarrow> c = CHR ''[''"
    using * by (auto simp: tolower_def dest: arg_cong [of _ _ "of_char :: char \<Rightarrow> nat"])
qed

lemma step_of_ok:
  assumes "xpath_safe d attlist" "nodeType d n = ELEMENT_NODE" "nodeName d n \<noteq> []"
  shows "step_ok (step_of d attlist n)"
proof -
  have "list_all (\<lambda>a. CHR ''='' \<notin> set a) (if attlist \<noteq> [] then attlist else Att_Name)"
    using assms(1) by (simp add: xpath_safe_def Att_Name_def)
  moreover have "CHR 0x22 \<notin> set (getAttribute d n a)" for a
  proof (cases "getAttribute d n a = []")
    case False
    then obtain as where "attributes d n = Some as" "map_of as a = Some (getAttribute d n a)"
      using getAttribute_value by metis
    then show ?thesis
      using assms(1,2) by (fastforce simp: xpath_safe_def list_all_iff dest: map_of_SomeD)
  qed simp
  ultimately have "list_all att_ok (att_steps d attlist n)"
    by (auto simp: att_steps_def att_ok_def list_all_iff)
  then show ?thesis
    using assms by (auto simp: step_ok_def step_of_def toLower_def xpath_safe_def list_all_iff tolower_bracket)
qed

text \<open>Going down a list of nodes, each the parent of the next, the steps select the last one.\<close>

lemma select_path:
  assumes "successively (\<lambda>p c. c \<in> set (kids d p)) (r # ns)" "r \<in> set ctx"
    and "\<forall>m \<in> set ns. nodeType d m = ELEMENT_NODE"
  shows "last (r # ns) \<in> set (select d (map (step_of d attlist) ns) ctx)"
  using assms
proof (induction ns arbitrary: r ctx)
  case (Cons m ns)
  then have "m \<in> set (filter (step_holds d (step_of d attlist m)) (concat (map (kids d) ctx)))"
    by (auto simp: step_of_holds)
  moreover have "successively (\<lambda>p c. c \<in> set (kids d p)) (m # ns)" using Cons.prems(1) by simp
  ultimately have "last (m # ns) \<in> set (select d (map (step_of d attlist) ns)
      (filter (step_holds d (step_of d attlist m)) (concat (map (kids d) ctx))))"
    using Cons.IH [of m] Cons.prems(3) by (meson list.set_intros(2))
  then show ?case by simp
qed simp

context dom_tree
begin

lemma root_path:
  assumes "nodeType d n = ELEMENT_NODE"
  shows "\<exists>r ns. last (r # ns) = n \<and> parentNode d r = None \<and> (is_parent d)\<^sup>*\<^sup>* n r
    \<and> successively (\<lambda>p c. c \<in> set (kids d p)) (r # ns) \<and> (\<forall>m \<in> set ns. nodeType d m = ELEMENT_NODE)
    \<and> (\<forall>ps. steps_up d u (Some n) ps
          = Some (Inr (map (tag_step d u) (filter (\<lambda>m. nodeType d m = ELEMENT_NODE) (r # ns)) @ ps)))"
  using assms
proof (induction "up n" arbitrary: n rule: less_induct)
  case less
  show ?case
  proof (cases "parentNode d n")
    case None
    then show ?thesis
      using less.prems by (intro exI [of _ n] exI [of _ "[]"]) (simp add: steps_up.simps)
  next
    case (Some p)
    show ?thesis
    proof (cases "nodeType d p = ELEMENT_NODE")
      case True
      from less.hyps [OF up [OF Some] True] obtain r ns where IH:
        "last (r # ns) = p" "parentNode d r = None" "(is_parent d)\<^sup>*\<^sup>* p r"
        "successively (\<lambda>p c. c \<in> set (kids d p)) (r # ns)" "\<forall>m \<in> set ns. nodeType d m = ELEMENT_NODE"
        "\<forall>ps. steps_up d u (Some p) ps
          = Some (Inr (map (tag_step d u) (filter (\<lambda>m. nodeType d m = ELEMENT_NODE) (r # ns)) @ ps))"
        by blast
      have "successively (\<lambda>p c. c \<in> set (kids d p)) ((r # ns) @ [n])"
        using IH(1,4) Some child_iff unfolding successively_append_iff by auto
      moreover have "(is_parent d)\<^sup>*\<^sup>* n r"
        using IH(3) Some by (auto simp: is_parent_def intro: converse_rtranclp_into_rtranclp)
      moreover have "steps_up d u (Some n) ps
          = Some (Inr (map (tag_step d u) (filter (\<lambda>m. nodeType d m = ELEMENT_NODE) (r # ns @ [n])) @ ps))" for ps
        using IH(6) Some less.prems by (subst steps_up.simps) simp
      ultimately show ?thesis
        using IH(2,5) less.prems by (intro exI [of _ r] exI [of _ "ns @ [n]"]) simp
    next
      case False
      then have p: "parentNode d p = None" using parent [OF Some] by blast
      have "steps_up d u (Some n) ps = Some (Inr (tag_step d u n # ps))" for ps
        using Some p False less.prems by (simp add: steps_up.simps)
      then show ?thesis
        using Some p False less.prems child_iff [of n p]
        by (intro exI [of _ p] exI [of _ "[n]"]) (auto simp: is_parent_def)
    qed
  qed
qed

lemma steps_to_ancestor:
  assumes "(is_parent d)\<^sup>*\<^sup>* n a" "nodeType d n = ELEMENT_NODE \<or> n = a"
  shows "\<exists>ns. last (a # ns) = n \<and> successively (\<lambda>p c. c \<in> set (kids d p)) (a # ns)
    \<and> (\<forall>m \<in> set ns. nodeType d m = ELEMENT_NODE)
    \<and> (\<forall>ps. steps_to d u (Some a) (Some n) ps = Some (Inr (map (tag_step d u) ns @ ps)))"
  using assms
proof (induction rule: converse_rtranclp_induct)
  case base
  show ?case by (intro exI [of _ "[]"]) (simp add: steps_to.simps)
next
  case (step n p)
  show ?case
  proof (cases "n = a")
    case True
    then show ?thesis by (intro exI [of _ "[]"]) (simp add: steps_to.simps)
  next
    case False
    have np: "parentNode d n = Some p" using step.hyps(1) by (simp add: is_parent_def)
    have "nodeType d p = ELEMENT_NODE \<or> p = a"
      using parent [OF np] step.hyps(2) by (auto simp: is_parent_def elim: converse_rtranclpE)
    from step.IH [OF this] obtain ns where IH: "last (a # ns) = p"
      "successively (\<lambda>p c. c \<in> set (kids d p)) (a # ns)" "\<forall>m \<in> set ns. nodeType d m = ELEMENT_NODE"
      "\<forall>ps. steps_to d u (Some a) (Some p) ps = Some (Inr (map (tag_step d u) ns @ ps))" by blast
    have "successively (\<lambda>p c. c \<in> set (kids d p)) ((a # ns) @ [n])"
      using IH(1,2) np child_iff unfolding successively_append_iff by auto
    moreover have "steps_to d u (Some a) (Some n) ps = Some (Inr (map (tag_step d u) (ns @ [n]) @ ps))" for ps
      using IH(4) np False step.prems element [of n] by (subst steps_to.simps) simp
    ultimately show ?thesis
      using IH(3) False step.prems by (intro exI [of _ "ns @ [n]"]) auto
  qed
qed

lemma steps_to_stranger:
  "\<not> (is_parent d)\<^sup>*\<^sup>* n a \<Longrightarrow> steps_to d u (Some a) (Some n) ps = Some (Inl NullDeref)"
proof (induction "up n" arbitrary: n ps rule: less_induct)
  case less
  have na: "n \<noteq> a" using less.prems by auto
  show ?case
  proof (cases "parentNode d n")
    case None
    then show ?thesis using na by (simp add: steps_to.simps)
  next
    case (Some p)
    then have "\<not> (is_parent d)\<^sup>*\<^sup>* p a"
      using less.prems by (auto simp: is_parent_def intro: converse_rtranclp_into_rtranclp)
    then show ?thesis
      using less.hyps [OF up [OF Some]] Some na by (subst steps_to.simps) simp
  qed
qed

end

lemma steps_read_back:
  assumes "dom_tree d up down" "xpath_safe d attlist" "\<forall>m \<in> set ns. nodeType d m = ELEMENT_NODE"
  shows "parse_path (print_path (map (step_of d attlist) ns)) = Some (map (step_of d attlist) ns)"
  using assms dom_tree.element [OF assms(1)]
  by (intro parse_print_path) (auto simp: list_all_iff intro!: step_of_ok)

text \<open>C10.  The absolute path of an element, read as XPath from the document \<open>r\<close>, selects the element, when names
  and values are \<open>xpath_safe\<close>.\<close>

theorem xpath_selects:
  assumes "dom_tree d up down" "xpath_safe d attlist" "nodeType d n = ELEMENT_NODE"
    and "(is_parent d)\<^sup>*\<^sup>* n r" "parentNode d r = None" "nodeType d r \<noteq> ELEMENT_NODE"
  shows "\<exists>p ss. GetXpath d attlist (Some n) 1 = Some (Inr p) \<and> parse_path p = Some ss \<and> n \<in> set (select d ss [r])"
proof -
  obtain r' ns where ns: "last (r' # ns) = n" "parentNode d r' = None" "(is_parent d)\<^sup>*\<^sup>* n r'"
    "successively (\<lambda>p c. c \<in> set (kids d p)) (r' # ns)" "\<forall>m \<in> set ns. nodeType d m = ELEMENT_NODE"
    "\<forall>ps. steps_up d attlist (Some n) ps
       = Some (Inr (map (tag_step d attlist) (filter (\<lambda>m. nodeType d m = ELEMENT_NODE) (r' # ns)) @ ps))"
    using dom_tree.root_path [OF assms(1,3)] by blast
  have r: "r' = r" using root_unique ns(2,3) assms(4,5) by metis
  have "ns \<noteq> []" using ns(1) r assms(3,6) by auto
  let ?ss = "map (step_of d attlist) ns"
  have "filter (\<lambda>m. nodeType d m = ELEMENT_NODE) (r' # ns) = ns"
    using r assms(6) ns(5) by simp
  then have "GetXpath d attlist (Some n) 1 = Some (Inr (print_path ?ss))"
    using ns(6) assms(3) unstack_print [of ?ss] \<open>ns \<noteq> []\<close>
    by (simp add: GetXpath_def CalXpathABS_def tag_step_print [abs_def] comp_def)
  moreover have "n \<in> set (select d ?ss [r])"
    using select_path [OF ns(4) _ ns(5), of "[r]"] ns(1) r by simp
  ultimately show ?thesis using steps_read_back [OF assms(1,2) ns(5)] by blast
qed

text \<open>C32.  The path from a node \<open>a\<close> down to an element, read from \<open>a\<close>, selects the element when it lies below
  \<open>a\<close>; otherwise the way up ends in a null pointer.  Names and values are \<open>xpath_safe\<close>.
\<close>

theorem subpath_selects:
  assumes "dom_tree d up down" "xpath_safe d attlist" "nodeType d n = ELEMENT_NODE"
  shows "if (is_parent d)\<^sup>*\<^sup>* n a
    then \<exists>p ss. GetSubpath d attlist (Some a) (Some n) = Some (Inr p)
           \<and> parse_path (if n = a then p else ''/'' @ p) = Some ss \<and> n \<in> set (select d ss [a])
    else GetSubpath d attlist (Some a) (Some n) = Some (Inl NullDeref)"
proof (cases "(is_parent d)\<^sup>*\<^sup>* n a")
  case True
  then obtain ns where ns: "last (a # ns) = n" "successively (\<lambda>p c. c \<in> set (kids d p)) (a # ns)"
    "\<forall>m \<in> set ns. nodeType d m = ELEMENT_NODE"
    "\<forall>ps. steps_to d attlist (Some a) (Some n) ps = Some (Inr (map (tag_step d attlist) ns @ ps))"
    using dom_tree.steps_to_ancestor [OF assms(1)] assms(3) by blast
  let ?ss = "map (step_of d attlist) ns"
  have path: "GetSubpath d attlist (Some a) (Some n) = Some (Inr (unstack (map print_step ?ss)))"
    using ns(4) by (simp add: GetSubpath_def CalXpathAnc_def tag_step_print [abs_def] comp_def)
  have sel: "n \<in> set (select d ?ss [a])" using select_path [OF ns(2) _ ns(3), of "[a]"] ns(1) by simp
  have read: "parse_path (print_path ?ss) = Some ?ss" by (rule steps_read_back [OF assms(1,2) ns(3)])
  show ?thesis
  proof (cases "n = a")
    case True
    then have "steps_to d attlist (Some a) (Some n) [] = Some (Inr [])" by (simp add: steps_to.simps)
    then have "ns = []" using ns(4) by fastforce
    then show ?thesis using True path sel read \<open>(is_parent d)\<^sup>*\<^sup>* n a\<close> by (auto simp: print_path_def)
  next
    case False
    then have "ns \<noteq> []" using ns(1) by auto
    then show ?thesis using False path sel read unstack_print [of ?ss] \<open>(is_parent d)\<^sup>*\<^sup>* n a\<close> by auto
  qed
next
  case False
  then show ?thesis
    using dom_tree.steps_to_stranger [OF assms(1)] by (simp add: GetSubpath_def CalXpathAnc_def)
qed

definition markup_safe :: "markup \<Rightarrow> bool" where
  "markup_safe x = (case x of Text v \<Rightarrow> True
     | Element c t as ms \<Rightarrow> list_all (\<lambda>c. c \<noteq> CHR ''/'' \<and> c \<noteq> CHR ''['') (c # t)
         \<and> list_all (\<lambda>(a, v). CHR 0x22 \<notin> set v) as)"

lemma xpath_safe_markup:
  "list_all (all_markup markup_safe) ms \<Longrightarrow> list_all (\<lambda>a. CHR ''='' \<notin> set a) u \<Longrightarrow> xpath_safe (dom_of ms) u"
proof -
  assume a: "list_all (all_markup markup_safe) ms" "list_all (\<lambda>a. CHR ''='' \<notin> set a) u"
  have safe: "markup_safe x" if "entry ms m = Some x" for m x
    using all_markup_entry [OF a(1) that] .
  from a(2) show ?thesis
    by (auto simp: xpath_safe_def dom_of_simps markup_safe_def dest!: safe split: option.splits markup.splits)
qed

lemma sample_page_safe: "xpath_safe (dom_of sample_page) []"
  by (rule xpath_safe_markup) (simp_all add: sample_page_def markup_safe_def)

lemma sample_page_parents:
  "(is_parent (dom_of sample_page))\<^sup>*\<^sup>* [0, 0, 1] [0]" "(is_parent (dom_of sample_page))\<^sup>*\<^sup>* [0, 0, 1] []"
proof -
  have s: "is_parent (dom_of sample_page) [0, 0, 1] [0, 0]" "is_parent (dom_of sample_page) [0, 0] [0]"
    "is_parent (dom_of sample_page) [0] []"
    by (simp_all add: is_parent_def dom_of_simps sample_page_def)
  from s(1,2) show 1: "(is_parent (dom_of sample_page))\<^sup>*\<^sup>* [0, 0, 1] [0]"
    by (meson converse_rtranclp_into_rtranclp r_into_rtranclp)
  from rtranclp.rtrancl_into_rtrancl [OF 1 s(3)] show "(is_parent (dom_of sample_page))\<^sup>*\<^sup>* [0, 0, 1] []" .
qed

lemma sample_page_types:
  "nodeType (dom_of sample_page) [0, 0, 1] = ELEMENT_NODE" "nodeType (dom_of sample_page) [] \<noteq> ELEMENT_NODE"
  "parentNode (dom_of sample_page) [] = None"
  by (simp_all add: dom_of_simps sample_page_def entry_def)

lemma xpath_selects_witness:
  "\<exists>p ss. GetXpath (dom_of sample_page) [] (Some [0, 0, 1]) 1 = Some (Inr p) \<and> parse_path p = Some ss
     \<and> [0, 0, 1] \<in> set (select (dom_of sample_page) ss [[]])"
  by (rule xpath_selects [OF markup_dom.dom_tree_axioms sample_page_safe sample_page_types(1)
        sample_page_parents(2) sample_page_types(3,2)])

lemma subpath_selects_witness:
  "\<exists>p ss. GetSubpath (dom_of sample_page) [] (Some [0]) (Some [0, 0, 1]) = Some (Inr p) \<and> parse_path (''/'' @ p) = Some ss
     \<and> [0, 0, 1] \<in> set (select (dom_of sample_page) ss [[0]])"
  using subpath_selects [OF markup_dom.dom_tree_axioms sample_page_safe sample_page_types(1), of "[0]"]
    sample_page_parents(1) by simp

text \<open>A quotation mark in a value is not escaped, and the path cannot be read.\<close>

definition quoted_page :: "markup list" where
  "quoted_page = [Element (CHR ''P'') [] [(''class'', [CHR ''a'', CHR 0x22, CHR ''b''])] []]"

lemma quoted_path_unreadable:
  "\<exists>p. GetXpath (dom_of quoted_page) [] (Some [0]) 1 = Some (Inr p) \<and> parse_path p = None"
proof -
  have low: "toLower ''P'' = ''p''" by code_simp
  have "GetXpath (dom_of quoted_page) [] (Some [0]) 1 = Some (Inr ''/p[@class=\"a\"b\"]'')"
    by (simp add: GetXpath_def CalXpathABS_def steps_up.simps dom_of_simps quoted_page_def entry_def tag_step_def
        low with_atts_def GetXpathAtt_def Att_Name_def append_att_def getAttribute_def)
  moreover have "parse_path ''/p[@class=\"a\"b\"]'' = None"
    by (simp add: parse_path.simps parse_atts.simps)
  ultimately show ?thesis by blast
qed

end
