(* ===== verification/FloatArith.thy ===== *)
theory FloatArith
  imports Complex_Main
begin

text \<open>
  The \<open>float\<close> and \<open>double\<close> arithmetic the scores are computed in: IEEE 754 values as rationals,
  infinities and NaN, every operation rounded to nearest, ties to even, in the format of its result
  (the two zeros are not told apart).  The lemmas are what the components need of it: small
  integers are exact, and a quotient of a part by the whole lies between 0 and 1.
\<close>

datatype flt = Fin rat | Inf bool | NaN

text \<open>\<open>ilog n\<close> and \<open>expo x\<close>: the integer part of the binary logarithm.\<close>

fun ilog :: "nat \<Rightarrow> nat" where
  "ilog n = (if n \<le> 1 then 0 else Suc (ilog (n div 2)))"

declare ilog.simps [simp del]

definition pow2 :: "int \<Rightarrow> rat" where
  "pow2 k = (if 0 \<le> k then 2 ^ nat k else 1 / 2 ^ nat (- k))"

definition expo :: "rat \<Rightarrow> int" where
  "expo x =
     (let (n, d) = quotient_of x; k = int (ilog (nat n)) - int (ilog (nat d))
      in if pow2 k \<le> x then k else k - 1)"

text \<open>Round to the nearest integer, ties to even.\<close>

definition round_even :: "rat \<Rightarrow> int" where
  "round_even x =
     (let f = \<lfloor>x\<rfloor>; r = x - of_int f
      in if r < 1 / 2 then f else if 1 / 2 < r then f + 1 else if even f then f else f + 1)"

text \<open>Rounding to a format with \<open>p\<close> fraction bits and exponents from \<open>emin\<close> to \<open>emax - 1\<close>.\<close>

definition round_to :: "int \<Rightarrow> int \<Rightarrow> int \<Rightarrow> rat \<Rightarrow> flt" where
  "round_to p emin emax x =
     (if x = 0 then Fin 0
      else
        let u = pow2 (max (expo \<bar>x\<bar>) emin - p);
            m = of_int (round_even (\<bar>x\<bar> / u)) * u
        in if pow2 emax \<le> m then Inf (x < 0) else Fin (if x < 0 then - m else m))"

definition f32 :: "rat \<Rightarrow> flt" where
  "f32 = round_to 23 (- 126) 128"

definition f64 :: "rat \<Rightarrow> flt" where
  "f64 = round_to 52 (- 1022) 1024"

text \<open>\<open>(float)\<close> of a \<open>double\<close> or an \<open>int\<close>.\<close>

fun to_f32 :: "flt \<Rightarrow> flt" where
  "to_f32 (Fin x) = f32 x"
| "to_f32 v = v"

definition f32_of_int :: "int \<Rightarrow> flt" where
  "f32_of_int i = f32 (of_int i)"

text \<open>Operations; \<open>rnd\<close> is the rounding of the format they are carried out in.\<close>

fun fneg :: "flt \<Rightarrow> flt" where
  "fneg (Fin x) = Fin (- x)"
| "fneg (Inf s) = Inf (\<not> s)"
| "fneg NaN = NaN"

fun fadd :: "(rat \<Rightarrow> flt) \<Rightarrow> flt \<Rightarrow> flt \<Rightarrow> flt" where
  "fadd rnd (Fin x) (Fin y) = rnd (x + y)"
| "fadd rnd (Inf s) (Inf t) = (if s = t then Inf s else NaN)"
| "fadd rnd (Inf s) (Fin _) = Inf s"
| "fadd rnd (Fin _) (Inf t) = Inf t"
| "fadd rnd _ _ = NaN"

definition fsub :: "(rat \<Rightarrow> flt) \<Rightarrow> flt \<Rightarrow> flt \<Rightarrow> flt" where
  "fsub rnd x y = fadd rnd x (fneg y)"

fun fmul :: "(rat \<Rightarrow> flt) \<Rightarrow> flt \<Rightarrow> flt \<Rightarrow> flt" where
  "fmul rnd (Fin x) (Fin y) = rnd (x * y)"
| "fmul rnd (Inf s) (Inf t) = Inf (s \<noteq> t)"
| "fmul rnd (Inf s) (Fin y) = (if y = 0 then NaN else Inf (s \<noteq> (y < 0)))"
| "fmul rnd (Fin x) (Inf t) = (if x = 0 then NaN else Inf ((x < 0) \<noteq> t))"
| "fmul rnd _ _ = NaN"

fun fdiv :: "(rat \<Rightarrow> flt) \<Rightarrow> flt \<Rightarrow> flt \<Rightarrow> flt" where
  "fdiv rnd (Fin x) (Fin y) = (if y = 0 then if x = 0 then NaN else Inf (x < 0) else rnd (x / y))"
| "fdiv rnd (Inf s) (Fin y) = Inf (s \<noteq> (y < 0))"
| "fdiv rnd (Fin _) (Inf _) = Fin 0"
| "fdiv rnd _ _ = NaN"

fun flt_less :: "flt \<Rightarrow> flt \<Rightarrow> bool" where
  "flt_less (Fin x) (Fin y) = (x < y)"
| "flt_less (Fin _) (Inf t) = (\<not> t)"
| "flt_less (Inf s) (Fin _) = s"
| "flt_less (Inf s) (Inf t) = (s \<and> \<not> t)"
| "flt_less _ _ = False"

fun flt_le :: "flt \<Rightarrow> flt \<Rightarrow> bool" where
  "flt_le (Fin x) (Fin y) = (x \<le> y)"
| "flt_le (Fin _) (Inf t) = (\<not> t)"
| "flt_le (Inf s) (Fin _) = s"
| "flt_le (Inf s) (Inf t) = (s \<or> \<not> t)"
| "flt_le _ _ = False"

definition flt_eq :: "flt \<Rightarrow> flt \<Rightarrow> bool" where
  "flt_eq x y \<longleftrightarrow> x \<noteq> NaN \<and> x = y"

text \<open>
  \<open>sqrt\<close> of a \<open>double\<close>: the square root is approximated from below with more than 64 bits, and a half
  unit is added when it is not exact, which rounds like the root itself.
\<close>

fun isqrt :: "nat \<Rightarrow> nat" where
  "isqrt n = (if n = 0 then 0 else let r = 2 * isqrt (n div 4) in if (r + 1) * (r + 1) \<le> n then r + 1 else r)"

declare isqrt.simps [simp del]

fun fsqrt :: "flt \<Rightarrow> flt" where
  "fsqrt (Fin x) =
     (if x < 0 then NaN else if x = 0 then Fin 0
      else let s = nat (128 - expo x); r = isqrt (nat \<lfloor>x * 4 ^ s\<rfloor>)
           in f64 ((if of_nat (r * r) = x * 4 ^ s then of_nat r else of_nat r + 1 / 2) / 2 ^ s))"
| "fsqrt (Inf neg) = (if neg then NaN else Inf False)"
| "fsqrt NaN = NaN"

text \<open>\<open>(int)\<close> of a \<open>double\<close> drops the fraction; a value outside \<open>int\<close> has no result.\<close>

fun int_of_flt :: "flt \<Rightarrow> int option" where
  "int_of_flt (Fin x) =
     (let i = (if x < 0 then - \<lfloor>- x\<rfloor> else \<lfloor>x\<rfloor>) in if - (2 ^ 31) \<le> i \<and> i < 2 ^ 31 then Some i else None)"
| "int_of_flt _ = None"

text \<open>A value between two bounds.\<close>

definition in_unit :: "flt \<Rightarrow> bool" where
  "in_unit v \<longleftrightarrow> flt_le (Fin 0) v \<and> flt_le v (Fin 1)"

section \<open>Rounding\<close>

lemma round_even_le: "x \<le> of_int n \<Longrightarrow> round_even x \<le> n"
proof -
  assume x: "x \<le> of_int n"
  then have f: "\<lfloor>x\<rfloor> \<le> n" by (simp add: floor_le_iff)
  show ?thesis
  proof (cases "\<lfloor>x\<rfloor> = n")
    case True
    then have "x = of_int n" using x by (metis of_int_floor_le order_antisym)
    then show ?thesis by (simp add: round_even_def)
  next
    case False
    then have "\<lfloor>x\<rfloor> + 1 \<le> n" using f by simp
    then show ?thesis by (simp add: round_even_def Let_def)
  qed
qed

lemma round_even_ge: "of_int n \<le> x \<Longrightarrow> n \<le> round_even x"
proof -
  assume "of_int n \<le> x"
  then have "n \<le> \<lfloor>x\<rfloor>" by (simp add: le_floor_iff)
  then show ?thesis by (simp add: round_even_def Let_def)
qed

lemma round_even_of_int [simp]: "round_even (of_int n) = n"
  by (simp add: round_even_def)

lemma pow2_pos [simp]: "0 < pow2 k"
  by (simp add: pow2_def)

lemma pow2_nonneg [simp]: "0 \<le> k \<Longrightarrow> pow2 k = 2 ^ nat k"
  by (simp add: pow2_def)

lemma pow2_nonpos: "k \<le> 0 \<Longrightarrow> pow2 k = 1 / 2 ^ nat (- k)"
  by (simp add: pow2_def)

lemma isqrt_bounds: "isqrt n * isqrt n \<le> n \<and> n < (isqrt n + 1) * (isqrt n + 1)"
proof (induction n rule: isqrt.induct)
  case (1 n)
  show ?case
  proof (cases "n = 0")
    case False
    let ?q = "isqrt (n div 4)"
    have "?q * ?q \<le> n div 4" "n div 4 < (?q + 1) * (?q + 1)" using 1 [OF False] by simp_all
    then have "4 * (?q * ?q) \<le> n" "n < 4 * ((?q + 1) * (?q + 1))" by linarith+
    then show ?thesis using False by (simp add: isqrt.simps [of n] Let_def algebra_simps)
  qed (simp add: isqrt.simps)
qed

lemma ilog_le: "0 < n \<Longrightarrow> 2 ^ ilog n \<le> n"
proof (induction n rule: ilog.induct)
  case (1 n)
  show ?case
  proof (cases "n \<le> 1")
    case False
    then have "2 ^ ilog (n div 2) \<le> n div 2" using 1 by simp
    then show ?thesis using False by (simp add: ilog.simps [of n])
  qed (use 1 in \<open>simp add: ilog.simps [of n]\<close>)
qed

lemma ilog_less: "n < 2 ^ Suc (ilog n)"
proof (induction n rule: ilog.induct)
  case (1 n)
  show ?case
  proof (cases "n \<le> 1")
    case False
    then have "n div 2 < 2 ^ Suc (ilog (n div 2))" using 1 by simp
    then show ?thesis using False by (simp add: ilog.simps [of n])
  qed (simp add: ilog.simps [of n])
qed

lemma pow2_diff: "pow2 (int a - int b) = 2 ^ a / 2 ^ b"
proof (cases "b \<le> a")
  case True
  then show ?thesis by (simp add: pow2_def nat_diff_distrib' power_diff)
next
  case False
  then have "pow2 (int a - int b) = 1 / 2 ^ (b - a)" by (simp add: pow2_def nat_diff_distrib')
  then show ?thesis using False by (simp add: power_diff)
qed

lemma pow2_pred: "pow2 (k - 1) = pow2 k / 2"
proof (cases "1 \<le> k")
  case True
  then obtain n where "k = int n + 1" by (metis add.commute diff_add_cancel zero_le_imp_eq_int diff_ge_0_iff_ge)
  then show ?thesis by (simp add: pow2_def nat_add_distrib)
next
  case False
  then have "nat (1 - k) = Suc (nat (- k))" by simp
  then show ?thesis using False by (simp add: pow2_def)
qed

lemma expo_le: "0 < x \<Longrightarrow> pow2 (expo x) \<le> x"
proof -
  assume x: "0 < x"
  obtain n d where q: "quotient_of x = (n, d)" by (cases "quotient_of x")
  have d: "0 < d" and xeq: "x = of_int n / of_int d"
    using quotient_of_denom_pos [OF q] quotient_of_div [OF q] by simp_all
  have n: "0 < n" using x d by (simp add: xeq zero_less_divide_iff)
  define a b where "a = ilog (nat n)" and "b = ilog (nat d)"
  have "(2 :: nat) ^ a \<le> nat n" using ilog_le [of "nat n"] n by (simp add: a_def)
  then have "(2 :: int) ^ a \<le> n" using n by (simp add: le_nat_iff flip: of_nat_le_iff)
  then have na: "(2 :: rat) ^ a \<le> of_int n" by (metis of_int_le_iff of_int_numeral of_int_power)
  have "nat d < (2 :: nat) ^ Suc b" using ilog_less [of "nat d"] by (simp add: b_def)
  then have "d \<le> (2 :: int) ^ Suc b" using d by (simp add: nat_less_iff)
  then have db: "of_int d \<le> (2 :: rat) ^ Suc b" by (metis of_int_le_iff of_int_numeral of_int_power)
  have "pow2 (int a - int b - 1) = 2 ^ a / 2 ^ Suc b" by (simp add: pow2_pred pow2_diff)
  also have "\<dots> \<le> of_int n / of_int d"
    using na db d n by (intro frac_le) simp_all
  finally have "pow2 (int a - int b - 1) \<le> x" by (simp add: xeq)
  then show ?thesis by (simp add: expo_def q a_def b_def Let_def)
qed

lemma pow2_mono: "a \<le> b \<Longrightarrow> pow2 a \<le> pow2 b"
proof -
  have "pow2 a \<le> pow2 (a + int n)" for n
  proof (induction n)
    case (Suc n)
    have "pow2 (a + int n) = pow2 (a + int (Suc n)) / 2"
      using pow2_pred [of "a + int (Suc n)"] by simp
    then show ?case using Suc pow2_pos [of "a + int (Suc n)"] by linarith
  qed simp
  moreover assume "a \<le> b"
  ultimately show ?thesis by (metis zle_iff_zadd)
qed

lemma pow2_mult: "pow2 a * pow2 b = pow2 (a + b)"
proof -
  have "pow2 (a + int n) = pow2 a * 2 ^ n" for a n
  proof (induction n)
    case (Suc n)
    then show ?case using pow2_pred [of "a + int (Suc n)"] by simp
  qed simp
  note up = this
  show ?thesis
  proof (cases "0 \<le> b")
    case True
    then show ?thesis using up [of a "nat b"] by simp
  next
    case False
    then have "pow2 (a + b) * 2 ^ nat (- b) = pow2 a" using up [of "a + b" "nat (- b)"] by simp
    then show ?thesis using False by (simp add: pow2_def field_simps)
  qed
qed

lemma expo_less: "0 < x \<Longrightarrow> x < pow2 k \<Longrightarrow> expo x < k"
  using expo_le [of x] pow2_mono [of k "expo x"] by fastforce

text \<open>A value that is an integral multiple of the unit is not rounded.\<close>

lemma round_to_exact:
  assumes "0 < x" and "x < pow2 (p + 1)" and "0 \<le> p" and "p + 1 \<le> emax" and "emin \<le> 0" and "x = of_int n"
  shows "round_to p emin emax x = Fin x"
proof -
  define e where "e = max (expo x) emin"
  have e: "e \<le> p" using expo_less [OF assms(1,2)] assms(3,5) by (simp add: e_def)
  have "x / pow2 (e - p) = of_int (n * 2 ^ nat (p - e))"
    using e assms(6) by (simp add: pow2_nonpos)
  then have "of_int (round_even (x / pow2 (e - p))) * pow2 (e - p) = x"
    using e assms(6) by (simp only: round_even_of_int) (simp add: pow2_nonpos)
  moreover have "pow2 (p + 1) \<le> pow2 emax" using assms(4) by (rule pow2_mono)
  ultimately show ?thesis using assms(1,2) by (auto simp: round_to_def Let_def e_def)
qed

lemma round_to_le_int:
  assumes "0 \<le> x" and "x \<le> of_int n" and "of_int n < pow2 (p + 1)" and "0 \<le> p" and "p + 1 \<le> emax" and "emin \<le> 0"
  shows "\<exists>y. round_to p emin emax x = Fin y \<and> 0 \<le> y \<and> y \<le> of_int n"
proof (cases "x = 0")
  case False
  then have x: "0 < x" using assms(1) by simp
  define e where "e = max (expo x) emin"
  have "expo x < p + 1" using assms(2,3) by (intro expo_less [OF x]) simp
  then have e: "e \<le> p" using assms(4,6) by (simp add: e_def)
  define u where "u = pow2 (e - p)"
  have u: "u = 1 / 2 ^ nat (p - e)" using e by (simp add: u_def pow2_nonpos)
  have "x / u \<le> of_int (n * 2 ^ nat (p - e))" using assms(2) by (simp add: u)
  then have le: "round_even (x / u) \<le> n * 2 ^ nat (p - e)" by (rule round_even_le)
  have "of_int 0 \<le> x / u" using x by (simp add: u)
  then have ge: "0 \<le> round_even (x / u)" by (rule round_even_ge)
  define m where "m = of_int (round_even (x / u)) * u"
  have "(of_int (round_even (x / u)) :: rat) \<le> of_int (n * 2 ^ nat (p - e))"
    using le by (simp only: of_int_le_iff)
  then have mn: "m \<le> of_int n" by (simp add: m_def u field_simps)
  have m0: "0 \<le> m" using ge by (simp add: m_def u)
  have "pow2 (p + 1) \<le> pow2 emax" using assms(5) by (rule pow2_mono)
  then have "\<not> pow2 emax \<le> m" using mn assms(3) by linarith
  then have "round_to p emin emax x = Fin m"
    using x by (simp add: round_to_def Let_def flip: e_def u_def m_def)
  then show ?thesis using m0 mn by blast
qed (use assms in \<open>simp add: round_to_def\<close>)

lemma f32_le_int: "0 \<le> x \<Longrightarrow> x \<le> of_int n \<Longrightarrow> n < 2 ^ 24 \<Longrightarrow> \<exists>y. f32 x = Fin y \<and> 0 \<le> y \<and> y \<le> of_int n"
proof -
  assume "0 \<le> x" "x \<le> of_int n" and n: "n < 2 ^ 24"
  moreover have "(of_int n :: rat) < of_int (2 ^ 24)" using n by (simp only: of_int_less_iff)
  ultimately show ?thesis unfolding f32_def by (intro round_to_le_int) (simp_all add: pow2_def)
qed

lemma f32_zero [simp]: "f32 0 = Fin 0"
  by (simp add: f32_def round_to_def)

lemma f32_one [simp]: "f32 1 = Fin 1"
  unfolding f32_def by (rule round_to_exact [where n = 1]) (simp_all add: pow2_def)

lemma f32_unit: "0 \<le> x \<Longrightarrow> x \<le> 1 \<Longrightarrow> \<exists>y. f32 x = Fin y \<and> 0 \<le> y \<and> y \<le> 1"
  using f32_le_int [of x 1] by simp

lemma f32_of_int_exact: "0 \<le> i \<Longrightarrow> i < 2 ^ 24 \<Longrightarrow> f32_of_int i = Fin (of_int i)"
proof (cases "i = 0")
  case False
  assume "0 \<le> i" "i < 2 ^ 24"
  then have "(of_int i :: rat) < of_int (2 ^ 24)" by (simp only: of_int_less_iff)
  then have "(of_int i :: rat) < pow2 (23 + 1)" by (simp add: pow2_def)
  then show ?thesis
    using False \<open>0 \<le> i\<close> unfolding f32_of_int_def f32_def
    by (intro round_to_exact [where n = i]) simp_all
qed (simp add: f32_of_int_def)

lemma f64_le_int: "0 \<le> x \<Longrightarrow> x \<le> of_int n \<Longrightarrow> n < 2 ^ 53 \<Longrightarrow> \<exists>y. f64 x = Fin y \<and> 0 \<le> y \<and> y \<le> of_int n"
proof -
  assume "0 \<le> x" "x \<le> of_int n" and n: "n < 2 ^ 53"
  moreover have "(of_int n :: rat) < of_int (2 ^ 53)" using n by (simp only: of_int_less_iff)
  ultimately show ?thesis unfolding f64_def by (intro round_to_le_int) (simp_all add: pow2_def)
qed

lemma f64_of_nat_exact: "n < 2 ^ 53 \<Longrightarrow> f64 (of_nat n) = Fin (of_nat n)"
proof (cases "n = 0")
  case False
  assume "n < 2 ^ 53"
  then have "(of_nat n :: rat) < of_nat (2 ^ 53)" by (simp only: of_nat_less_iff)
  then have "(of_nat n :: rat) < pow2 (52 + 1)" by (simp add: pow2_def)
  then show ?thesis
    using False unfolding f64_def by (intro round_to_exact [where n = "int n"]) simp_all
qed (simp add: f64_def round_to_def)

lemma f64_zero [simp]: "f64 0 = Fin 0" and f64_one [simp]: "f64 1 = Fin 1"
  using f64_of_nat_exact [of 0] f64_of_nat_exact [of 1] by simp_all

lemma f64_numeral [simp]: "(numeral k :: nat) < 2 ^ 53 \<Longrightarrow> f64 (numeral k) = Fin (numeral k)"
  using f64_of_nat_exact [of "numeral k"] by simp

text \<open>The quotient of a part by the whole.\<close>

lemma fdiv_ratio:
  "0 \<le> x \<Longrightarrow> x \<le> y \<Longrightarrow> 0 < y \<Longrightarrow> \<exists>r. fdiv f32 (Fin x) (Fin y) = Fin r \<and> 0 \<le> r \<and> r \<le> 1"
  using f32_unit [of "x / y"] by simp

lemma fdiv_self [simp]: "0 < y \<Longrightarrow> fdiv f32 (Fin y) (Fin y) = Fin 1"
  by simp

lemma in_unit_iff: "in_unit v \<longleftrightarrow> (\<exists>x. v = Fin x \<and> 0 \<le> x \<and> x \<le> 1)"
  by (cases v) (auto simp: in_unit_def)

lemma in_unit_mean:
  assumes "in_unit u" "in_unit v"
  shows "in_unit (fdiv f64 (fadd f64 u v) (Fin 2))"
proof -
  obtain x y where uv: "u = Fin x" "v = Fin y" "0 \<le> x" "x \<le> 1" "0 \<le> y" "y \<le> 1"
    using assms by (auto simp: in_unit_iff)
  then obtain s where s: "f64 (x + y) = Fin s" "0 \<le> s" "s \<le> 2"
    using f64_le_int [of "x + y" 2] by auto
  obtain r where "f64 (s / 2) = Fin r" "0 \<le> r" "r \<le> 1"
    using f64_le_int [of "s / 2" 1] s(2,3) by auto
  then show ?thesis using uv(1,2) s(1) by (simp add: in_unit_iff)
qed

lemma in_unit_add_0: "in_unit u \<Longrightarrow> in_unit (fadd f64 u (Fin 0)) \<and> in_unit (fadd f64 (Fin 0) u)"
proof -
  assume "in_unit u"
  then obtain x where "u = Fin x" "0 \<le> x" "x \<le> 1" by (auto simp: in_unit_iff)
  then show ?thesis using f64_le_int [of x 1] by (auto simp: in_unit_iff)
qed

lemma in_unit_Fin [simp]: "in_unit (Fin x) \<longleftrightarrow> 0 \<le> x \<and> x \<le> 1"
  by (simp add: in_unit_def)

end
