(* ===== verification/StyleCompare.thy ===== *)
theory StyleCompare
  imports StringUtil CxxMap FloatArith
begin

text \<open>
  \<open>DisCrawler/DOMAttUtil/StyleCompare.cpp\<close>: how alike two CSS styles are.  Each property has a score
  between 0 and 1, or -1 when neither style has it; \<open>compare_styles\<close> is the weighted mean of the
  scores that are not negative.  Reads past a buffer, \<open>int\<close> overflow and the use of an erased
  iterator are errors of the model.
\<close>

type_synonym style = "(bytes, bytes) cmap"

abbreviation BACKGROUND :: bytes where "BACKGROUND \<equiv> ''background''"
abbreviation BACKGROUND_COLOR :: bytes where "BACKGROUND_COLOR \<equiv> ''background-color''"
abbreviation TEXT_COLOR :: bytes where "TEXT_COLOR \<equiv> ''color''"
abbreviation TEXT_ALIGN :: bytes where "TEXT_ALIGN \<equiv> ''text-align''"
abbreviation TEXT_DECORATION :: bytes where "TEXT_DECORATION \<equiv> ''text-decoration''"
abbreviation FONT_FAMILY :: bytes where "FONT_FAMILY \<equiv> ''font-family''"
abbreviation FONT_SIZE :: bytes where "FONT_SIZE \<equiv> ''font-size''"
abbreviation FONT_STYLE :: bytes where "FONT_STYLE \<equiv> ''font-style''"
abbreviation FONT_WEIGHT :: bytes where "FONT_WEIGHT \<equiv> ''font-weight''"
abbreviation LIST_STYLE_IMAGE :: bytes where "LIST_STYLE_IMAGE \<equiv> ''list-style-image''"
abbreviation LIST_STYLE_TYPE :: bytes where "LIST_STYLE_TYPE \<equiv> ''list-style-type''"
abbreviation LIST_STYLE_POSITION :: bytes where "LIST_STYLE_POSITION \<equiv> ''list-style-position''"
abbreviation TABLE_LAYOUT :: bytes where "TABLE_LAYOUT \<equiv> ''table-layout''"
abbreviation TABLE_COLLAPSE :: bytes where "TABLE_COLLAPSE \<equiv> ''border-collapse''"
abbreviation TABLE_CAPTION :: bytes where "TABLE_CAPTION \<equiv> ''caption-side''"
abbreviation PADDING_TOP :: bytes where "PADDING_TOP \<equiv> ''padding-top''"
abbreviation PADDING_RIGHT :: bytes where "PADDING_RIGHT \<equiv> ''padding-right''"
abbreviation PADDING_LEFT :: bytes where "PADDING_LEFT \<equiv> ''padding-left''"
abbreviation PADDING_BOTTOM :: bytes where "PADDING_BOTTOM \<equiv> ''padding-bottom''"
abbreviation BORDER :: bytes where "BORDER \<equiv> ''border-style''"
abbreviation MARGIN :: bytes where "MARGIN \<equiv> ''margin''"
abbreviation POSITION :: bytes where "POSITION \<equiv> ''position''"
abbreviation DISPLAY :: bytes where "DISPLAY \<equiv> ''display''"
abbreviation HEIGHT :: bytes where "HEIGHT \<equiv> ''height''"
abbreviation WIDTH :: bytes where "WIDTH \<equiv> ''width''"
abbreviation FLOAT :: bytes where "FLOAT \<equiv> ''float''"

text \<open>What \<open>find\<close> and the test against \<open>end()\<close> leave in the local string.\<close>

definition style_value :: "style \<Rightarrow> bytes \<Rightarrow> bytes" where
  "style_value m k = (case cmap_find m k of Some v \<Rightarrow> v | None \<Rightarrow> [])"

section \<open>Strings\<close>

text \<open>\<open>*it1\<close> at offset \<open>i\<close>: the terminating NUL is readable, nothing after it is.\<close>

definition read_char :: "bytes \<Rightarrow> nat \<Rightarrow> char res" where
  "read_char s i = (if i \<le> length s then Inr (char_at s i) else Inl OutOfBounds)"

text \<open>The inner loop over \<open>j\<close>; its state is \<open>(i, lb1, k, same_count)\<close>.\<close>

definition match_step :: "bytes \<Rightarrow> bytes \<Rightarrow> nat \<Rightarrow> nat \<times> char \<times> nat \<times> nat \<Rightarrow> (nat \<times> char \<times> nat \<times> nat) res" where
  "match_step list1 list2 j s =
     (let (i, lb1, k, same_count) = s
      in if lb1 = list2 ! j
         then bindE (read_char list1 (i + 1)) (\<lambda>lb1'. Inr (i + 1, lb1', j + 1, same_count + 1))
         else Inr s)"

lemma match_step_mono: "match_step l1 l2 j (i, c, k, n) = Inr (i', c', k', n') \<Longrightarrow> i \<le> i'"
  by (auto simp: match_step_def Let_def cxx_simps split: if_splits)

lemma match_loop_mono: "foldE (match_step l1 l2) js (i, c, k, n) = Inr (i', c', k', n') \<Longrightarrow> i \<le> i'"
proof (induction js arbitrary: i c k n)
  case (Cons j js)
  then obtain i1 c1 k1 n1 where "match_step l1 l2 j (i, c, k, n) = Inr (i1, c1, k1, n1)"
      "foldE (match_step l1 l2) js (i1, c1, k1, n1) = Inr (i', c', k', n')"
    by (auto simp: cxx_simps)
  then show ?case using match_step_mono Cons.IH le_trans by metis
qed simp

function match_loop :: "bytes \<Rightarrow> bytes \<Rightarrow> nat \<Rightarrow> nat \<Rightarrow> nat \<Rightarrow> nat res" where
  "match_loop list1 list2 i k same_count =
     (if i < length list1 then
        bindE (read_char list1 i) (\<lambda>lb1.
        bindE (foldE (match_step list1 list2) [k..<length list2] (i, lb1, k, same_count)) (\<lambda>s.
          case s of (i', _, k', same_count') \<Rightarrow> match_loop list1 list2 (i' + 1) k' same_count'))
      else Inr same_count)"
  by pat_completeness auto
termination
  by (relation "measure (\<lambda>(l1, l2, i, k, n). length l1 - i)") (auto dest: match_loop_mono)

declare match_loop.simps [simp del]

definition sim_score_style :: "bytes \<Rightarrow> bytes \<Rightarrow> flt res" where
  "sim_score_style s1 s2 =
     (if s1 = [] \<and> s2 = [] then Inr (Fin (- 1))
      else if s1 = s2 then Inr (Fin 1)
      else
        let b = length s2 < length s1;
            (list1, list2) = (if b then (s1, s2) else (s2, s1))
        in bindE (match_loop list1 list2 0 0 0) (\<lambda>same_count.
             Inr (fdiv f32 (f32_of_int (2 * int same_count)) (f32_of_int (int (length s1 + length s2))))))"

section \<open>Colours and sizes\<close>

text \<open>\<open>strtol\<close> returns a \<open>long\<close>, which is then stored in an \<open>int\<close>.\<close>

definition strtol10 :: "bytes \<Rightarrow> int" where
  "strtol10 s = wrap_int (clamp_long (int (digits_val (takeWhile is_digit s))))"

definition strtol16 :: "bytes \<Rightarrow> int" where
  "strtol16 s =
     (let t = dropWhile (\<lambda>c. c \<in> set white_space) s;
          neg = (t \<noteq> [] \<and> hd t = CHR ''-'');
          u = (if t \<noteq> [] \<and> hd t \<in> set ''+-'' then tl t else t);
          u = (if 2 < length u \<and> u ! 0 = CHR ''0'' \<and> u ! 1 \<in> set ''xX'' \<and> hex_val (u ! 2) \<noteq> None then drop 2 u else u);
          v = foldl (\<lambda>n c. 16 * n + (case hex_val c of Some d \<Rightarrow> d | None \<Rightarrow> 0)) 0 (takeWhile (\<lambda>c. hex_val c \<noteq> None) u)
      in wrap_int (clamp_long (if neg then - v else v)))"

text \<open>The scan of an \<open>rgb\<close> colour stores each number in \<open>co[n++]\<close>, an array of three.\<close>

function rgb_numbers :: "bytes \<Rightarrow> int list \<Rightarrow> int list res" where
  "rgb_numbers p co =
     (if p = [] then Inr co
      else if is_digit (hd p) then
        (if length co < 3 then
           (let p' = dropWhile is_digit p; co' = co @ [strtol10 p]
            in if p' = [] then Inr co' else rgb_numbers (tl p') co')
         else Inl OutOfBounds)
      else rgb_numbers (tl p) co)"
  by pat_completeness auto
termination
proof (relation "measure (\<lambda>(p, co). length p)", goal_cases)
  case (2 p co x xa)
  then have "length (tl x) < length x" by (cases x) auto
  moreover have "length x \<le> length p" by (simp add: 2 length_dropWhile_le)
  ultimately show ?case by simp
next
  case (3 p co)
  then show ?case by (cases p) auto
qed simp

declare rgb_numbers.simps [simp del]

definition map_color :: "(bytes, int) cmap" where
  "map_color = cmap_insert ''gray'' (190 * 65536 + 190 * 256 + 190)
     (cmap_insert ''yellow'' (255 * 65536 + 255 * 256 + 0) [])"

definition parse_color :: "bytes \<Rightarrow> int res" where
  "parse_color color =
     (if contains ''rgb'' color then
        bindE (rgb_numbers (c_str color) []) (\<lambda>co.
          if length co < 3 then Inl UninitRead
          else
            bindE (check_int (co ! 0 * 65536)) (\<lambda>a.
            bindE (check_int (co ! 1 * 256)) (\<lambda>b.
            bindE (check_int (a + b)) (\<lambda>c. check_int (c + co ! 2)))))
      else
        case find_first ''#'' color of
          Some found \<Rightarrow> Inr (strtol16 (c_str (drop (found + 1) color)))
        | None \<Rightarrow> (case cmap_find map_color color of Some rgb \<Rightarrow> Inr rgb | None \<Rightarrow> Inr (- 1)))"

text \<open>The loop stops one byte short of the end.\<close>

definition parse_size :: "bytes \<Rightarrow> int" where
  "parse_size str =
     (case find (\<lambda>i. is_digit (str ! i)) [0..<length str - 1] of
        None \<Rightarrow> - 1
      | Some i \<Rightarrow> strtol10 (c_str (drop i str)))"

definition sim_size :: "bytes \<Rightarrow> bytes \<Rightarrow> flt res" where
  "sim_size s1 s2 =
     (if s1 = [] \<and> s2 = [] then Inr (Fin (- 1))
      else if s1 = s2 then Inr (Fin 1)
      else
        let a = parse_size s1; b = parse_size s2
        in if 0 \<le> a \<and> 0 \<le> b then
             (let mn = (if b < a then b else a); mx = (if b < a then a else b)
              in bindE (check_int (2 * mn)) (\<lambda>n. bindE (check_int (mx + mn)) (\<lambda>d.
                   Inr (fdiv f32 (f32_of_int n) (f32_of_int d)))))
           else sim_score_style s1 s2)"

text \<open>\<open>(unsigned char)\<close> and the division of \<open>int\<close>, which truncates towards zero.\<close>

definition red :: "int \<Rightarrow> int" where
  "red rgb = (if 0 \<le> rgb then rgb div 65536 else - (- rgb div 65536))"

definition green :: "int \<Rightarrow> int" where
  "green rgb = (if 0 \<le> rgb then rgb div 256 else - (- rgb div 256)) mod 256"

definition blue :: "int \<Rightarrow> int" where
  "blue rgb = rgb mod 256"

text \<open>
  \<open>d < 17\<close> for the \<open>float\<close> \<open>d = sqrt(i*i + j*j + k*k)\<close>: the square root of an integer is below 17
  after rounding exactly when the integer is below 289.
\<close>

definition sim_color :: "bytes \<Rightarrow> bytes \<Rightarrow> flt res" where
  "sim_color c1 c2 =
     (if c1 = [] \<and> c2 = [] then Inr (Fin (- 1))
      else
        bindE (parse_color c1) (\<lambda>rgb. bindE (parse_color c2) (\<lambda>rgb1.
          if rgb = rgb1 \<and> 0 \<le> rgb then Inr (Fin 1)
          else if rgb = - 1 \<or> rgb1 = - 1 then
            (if c1 = c2 then Inr (Fin 1)
             else if c1 = ''transparent'' \<or> c2 \<noteq> ''transparent'' then Inr (Fin 1)
             else sim_score_style c1 c2)
          else
            let rgb = (if rgb = 0 then 1 else rgb); rgb1 = (if rgb1 = 0 then 1 else rgb1);
                i = red rgb - red rgb1; j = green rgb - green rgb1; k = blue rgb - blue rgb1
            in bindE (check_int (i * i)) (\<lambda>ii. bindE (check_int (ii + j * j)) (\<lambda>ij.
               bindE (check_int (ij + k * k)) (\<lambda>d2.
                 Inr (if d2 < 289 then Fin 1 else Fin 0)))))))"

definition sim_enum :: "bytes \<Rightarrow> bytes \<Rightarrow> flt res" where
  "sim_enum s1 s2 =
     (if s1 = [] \<and> s2 = [] then Inr (Fin (- 1)) else if s1 = s2 then Inr (Fin 1) else Inr (Fin 0))"

text \<open>\<open>normalize\<close> reads \<open>background_it->second\<close> after the element has been erased.\<close>

definition normalize :: "style \<Rightarrow> style res" where
  "normalize m = (if cmap_find m BACKGROUND \<noteq> None then Inl BadIterator else Inr m)"

section \<open>One score per property\<close>

definition diff_background :: "style \<Rightarrow> style \<Rightarrow> flt res" where
  "diff_background style1 style2 = sim_color (style_value style1 BACKGROUND_COLOR) (style_value style2 BACKGROUND_COLOR)"

definition diff_text_color :: "style \<Rightarrow> style \<Rightarrow> flt res" where
  "diff_text_color style1 style2 = sim_color (style_value style1 TEXT_COLOR) (style_value style2 TEXT_COLOR)"

definition diff_text_align :: "style \<Rightarrow> style \<Rightarrow> flt res" where
  "diff_text_align style1 style2 = sim_enum (style_value style1 TEXT_ALIGN) (style_value style2 TEXT_ALIGN)"

definition diff_text_decoration :: "style \<Rightarrow> style \<Rightarrow> flt res" where
  "diff_text_decoration style1 style2 = sim_enum (style_value style1 TEXT_DECORATION) (style_value style2 TEXT_DECORATION)"

definition diff_font_family :: "style \<Rightarrow> style \<Rightarrow> flt res" where
  "diff_font_family style1 style2 = sim_score_style (style_value style1 FONT_FAMILY) (style_value style2 FONT_FAMILY)"

definition diff_font_size :: "style \<Rightarrow> style \<Rightarrow> flt res" where
  "diff_font_size style1 style2 = sim_size (style_value style1 FONT_SIZE) (style_value style2 FONT_SIZE)"

definition diff_font_style :: "style \<Rightarrow> style \<Rightarrow> flt res" where
  "diff_font_style style1 style2 = sim_enum (style_value style1 FONT_STYLE) (style_value style2 FONT_STYLE)"

definition diff_font_weight :: "style \<Rightarrow> style \<Rightarrow> flt res" where
  "diff_font_weight style1 style2 = sim_enum (style_value style1 FONT_WEIGHT) (style_value style2 FONT_WEIGHT)"

definition diff_list_image :: "style \<Rightarrow> style \<Rightarrow> flt res" where
  "diff_list_image style1 style2 = sim_score_style (style_value style1 LIST_STYLE_IMAGE) (style_value style2 LIST_STYLE_IMAGE)"

definition diff_list_type :: "style \<Rightarrow> style \<Rightarrow> flt res" where
  "diff_list_type style1 style2 = sim_score_style (style_value style1 LIST_STYLE_TYPE) (style_value style2 LIST_STYLE_TYPE)"

definition diff_list_position :: "style \<Rightarrow> style \<Rightarrow> flt res" where
  "diff_list_position style1 style2 = sim_enum (style_value style1 LIST_STYLE_POSITION) (style_value style2 LIST_STYLE_POSITION)"

definition diff_table_layout :: "style \<Rightarrow> style \<Rightarrow> flt res" where
  "diff_table_layout style1 style2 = sim_enum (style_value style1 TABLE_LAYOUT) (style_value style2 TABLE_LAYOUT)"

definition diff_table_collapse :: "style \<Rightarrow> style \<Rightarrow> flt res" where
  "diff_table_collapse style1 style2 = sim_enum (style_value style1 TABLE_COLLAPSE) (style_value style2 TABLE_COLLAPSE)"

definition diff_table_caption :: "style \<Rightarrow> style \<Rightarrow> flt res" where
  "diff_table_caption style1 style2 = sim_enum (style_value style1 TABLE_CAPTION) (style_value style2 TABLE_CAPTION)"

definition diff_border :: "style \<Rightarrow> style \<Rightarrow> flt res" where
  "diff_border style1 style2 = sim_enum (style_value style1 BORDER) (style_value style2 BORDER)"

definition diff_padding_top :: "style \<Rightarrow> style \<Rightarrow> flt res" where
  "diff_padding_top style1 style2 = sim_size (style_value style1 PADDING_TOP) (style_value style2 PADDING_TOP)"

definition diff_padding_right :: "style \<Rightarrow> style \<Rightarrow> flt res" where
  "diff_padding_right style1 style2 = sim_size (style_value style1 PADDING_RIGHT) (style_value style2 PADDING_RIGHT)"

definition diff_padding_left :: "style \<Rightarrow> style \<Rightarrow> flt res" where
  "diff_padding_left style1 style2 = sim_size (style_value style1 PADDING_LEFT) (style_value style2 PADDING_LEFT)"

definition diff_padding_bottom :: "style \<Rightarrow> style \<Rightarrow> flt res" where
  "diff_padding_bottom style1 style2 = sim_size (style_value style1 PADDING_BOTTOM) (style_value style2 PADDING_BOTTOM)"

definition diff_margin :: "style \<Rightarrow> style \<Rightarrow> flt res" where
  "diff_margin style1 style2 = sim_score_style (style_value style1 MARGIN) (style_value style2 MARGIN)"

definition diff_position :: "style \<Rightarrow> style \<Rightarrow> flt res" where
  "diff_position style1 style2 = sim_enum (style_value style1 POSITION) (style_value style2 POSITION)"

definition diff_display :: "style \<Rightarrow> style \<Rightarrow> flt res" where
  "diff_display style1 style2 = sim_enum (style_value style1 DISPLAY) (style_value style2 DISPLAY)"

definition diff_float :: "style \<Rightarrow> style \<Rightarrow> flt res" where
  "diff_float style1 style2 = sim_enum (style_value style1 FLOAT) (style_value style2 FLOAT)"

definition diff_height :: "style \<Rightarrow> style \<Rightarrow> flt res" where
  "diff_height style1 style2 = sim_enum (style_value style1 HEIGHT) (style_value style2 HEIGHT)"

definition diff_width :: "style \<Rightarrow> style \<Rightarrow> flt res" where
  "diff_width style1 style2 = sim_enum (style_value style1 WIDTH) (style_value style2 WIDTH)"

section \<open>\<open>compare_styles\<close>\<close>

definition diffs :: "(style \<Rightarrow> style \<Rightarrow> flt res) list" where
  "diffs =
     [diff_background, diff_text_color, diff_text_align, diff_text_decoration,
      diff_font_family, diff_font_size, diff_font_style, diff_font_weight,
      diff_list_image, diff_list_type, diff_list_position, diff_table_layout,
      diff_table_collapse, diff_table_caption, diff_border, diff_padding_top,
      diff_padding_right, diff_padding_left, diff_padding_bottom, diff_margin,
      diff_position, diff_display, diff_float]"

fun scores :: "(style \<Rightarrow> style \<Rightarrow> flt res) list \<Rightarrow> style \<Rightarrow> style \<Rightarrow> flt list res" where
  "scores [] m1 m2 = Inr []"
| "scores (d # ds) m1 m2 = bindE (d m1 m2) (\<lambda>s. bindE (scores ds m1 m2) (\<lambda>ss. Inr (s # ss)))"

definition weigh :: "flt list \<Rightarrow> flt list \<Rightarrow> nat \<Rightarrow> flt \<times> flt \<Rightarrow> (flt \<times> flt) res" where
  "weigh S W j ab =
     (let (a, b) = ab
      in if flt_le (Fin 0) (S ! j)
         then (if j < length W then Inr (fadd f32 a (fmul f32 (W ! j) (S ! j)), fadd f32 b (W ! j)) else Inl OutOfBounds)
         else Inr (a, b))"

text \<open>The result is the mean and the array \<open>S\<close> of the scores.\<close>

definition compare_styles_w :: "style \<Rightarrow> style \<Rightarrow> flt list \<Rightarrow> (flt \<times> flt list) res" where
  "compare_styles_w style1 style2 W =
     bindE (normalize style1) (\<lambda>style1. bindE (normalize style2) (\<lambda>style2.
     bindE (scores diffs style1 style2) (\<lambda>S.
     bindE (foldE (weigh S W) [0..<length S] (Fin 0, Fin 0)) (\<lambda>(a, b).
       Inr (if flt_less (Fin 0) b then fdiv f32 a b else Fin 1, S)))))"

definition compare_styles :: "style \<Rightarrow> style \<Rightarrow> flt res" where
  "compare_styles style1 style2 =
     bindE (compare_styles_w style1 style2 (replicate 25 (Fin 1))) (\<lambda>(sim, S). Inr sim)"

section \<open>Scores of strings\<close>

definition value_ok :: "bytes \<Rightarrow> bool" where
  "value_ok s \<longleftrightarrow> NUL \<notin> set s \<and> length s < 2 ^ 22 \<and> parse_size s < 2 ^ 22"

definition is_score :: "flt \<Rightarrow> bool" where
  "is_score v \<longleftrightarrow> v = Fin (- 1) \<or> v = NaN \<or> in_unit v"

lemma is_score_Fin [simp]: "is_score (Fin 0)" "is_score (Fin 1)" "is_score (Fin (- 1))" "is_score NaN"
  by (simp_all add: is_score_def)

lemma match_step_inv:
  assumes "NUL \<notin> set l2" and "j < length l2" and "i \<le> length l1" and "c = char_at l1 i" and "n \<le> k" and "k \<le> j"
  shows "\<exists>i' k' n'. match_step l1 l2 j (i, c, k, n) = Inr (i', char_at l1 i', k', n') \<and>
     i' \<le> length l1 \<and> n' \<le> k' \<and> k' \<le> Suc j"
proof (cases "c = l2 ! j")
  case True
  then have "c \<noteq> NUL" using assms(1,2) by (metis nth_mem)
  then have "i + 1 \<le> length l1" using assms(3,4) by (auto simp: char_at_def split: if_splits)
  then show ?thesis using True assms by (simp add: match_step_def read_char_def)
qed (use assms in \<open>simp add: match_step_def\<close>)

lemma match_inner_inv:
  assumes "NUL \<notin> set l2" and "i < length l1" and "n \<le> k" and "k \<le> length l2"
  shows "\<exists>i' c' k' n'. foldE (match_step l1 l2) [k..<length l2] (i, char_at l1 i, k, n) = Inr (i', c', k', n') \<and>
     n' \<le> k' \<and> k' \<le> length l2"
proof -
  let ?I = "\<lambda>j (i, c, k, n). i \<le> length l1 \<and> c = char_at l1 i \<and> n \<le> k \<and> k \<le> j"
  have "\<exists>s'. foldE (match_step l1 l2) [k..<length l2] (i, char_at l1 i, k, n) = Inr s' \<and> ?I (length l2) s'"
  proof (rule foldE_upt_inv)
    show "\<exists>s'. match_step l1 l2 j s = Inr s' \<and> ?I (Suc j) s'" if "k \<le> j" "j < length l2" "?I j s" for j s
      using that match_step_inv [OF assms(1), of j] by (cases s) fastforce
  qed (use assms in auto)
  then show ?thesis by auto
qed

lemma match_loop_bound:
  "NUL \<notin> set l2 \<Longrightarrow> n \<le> k \<Longrightarrow> k \<le> length l2 \<Longrightarrow> \<exists>n'. match_loop l1 l2 i k n = Inr n' \<and> n' \<le> length l2"
proof (induction l1 l2 i k n rule: match_loop.induct)
  case (1 l1 l2 i k n)
  show ?case
  proof (cases "i < length l1")
    case True
    obtain i' c' k' n' where f: "foldE (match_step l1 l2) [k..<length l2] (i, char_at l1 i, k, n) = Inr (i', c', k', n')"
        "n' \<le> k'" "k' \<le> length l2"
      using match_inner_inv [OF 1(2) True 1(3,4)] by blast
    have r: "read_char l1 i = Inr (char_at l1 i)" using True by (simp add: read_char_def)
    from 1(1) [OF True r f(1) refl refl refl 1(2) f(2,3)]
    show ?thesis using True f(1) r by (simp add: match_loop.simps [of l1 l2 i])
  qed (use 1 in \<open>simp add: match_loop.simps [of l1 l2 i]\<close>)
qed

lemma ratio_score:
  assumes "0 \<le> n" and "n \<le> d" and "d < 2 ^ 24"
  shows "is_score (fdiv f32 (f32_of_int n) (f32_of_int d))"
proof (cases "d = 0")
  case False
  have "f32_of_int n = Fin (of_int n)" "f32_of_int d = Fin (of_int d)"
    using assms by (simp_all add: f32_of_int_exact)
  then show ?thesis
    using fdiv_ratio [of "of_int n" "of_int d"] assms False by (auto simp: is_score_def)
qed (use assms in \<open>simp add: f32_of_int_def\<close>)

lemma sim_score_style_score:
  assumes "value_ok s1" and "value_ok s2"
  shows "\<exists>v. sim_score_style s1 s2 = Inr v \<and> is_score v"
proof (cases "s1 = s2")
  case False
  define l1 l2 where "l1 = (if length s2 < length s1 then s1 else s2)" and "l2 = (if length s2 < length s1 then s2 else s1)"
  have l: "NUL \<notin> set l2" "length l2 \<le> length l1" "length l1 + length l2 = length s1 + length s2" "length l1 < 2 ^ 22"
    using assms by (auto simp: l1_def l2_def value_ok_def)
  obtain n where n: "match_loop l1 l2 0 0 0 = Inr n" "n \<le> length l2"
    using match_loop_bound [OF l(1), of 0 0 l1 0] by auto
  have "is_score (fdiv f32 (f32_of_int (2 * int n)) (f32_of_int (int (length s1 + length s2))))"
    using n(2) l by (intro ratio_score) simp_all
  moreover have "(if length s2 < length s1 then (s1, s2) else (s2, s1)) = (l1, l2)"
    by (simp add: l1_def l2_def)
  ultimately show ?thesis using False n(1) by (simp add: sim_score_style_def)
qed (simp add: sim_score_style_def)

lemma sim_size_score:
  assumes "value_ok s1" and "value_ok s2"
  shows "\<exists>v. sim_size s1 s2 = Inr v \<and> is_score v"
proof (cases "s1 \<noteq> s2 \<and> 0 \<le> parse_size s1 \<and> 0 \<le> parse_size s2")
  case True
  let ?a = "parse_size s1" and ?b = "parse_size s2"
  have "?a < 2 ^ 22" "?b < 2 ^ 22" using assms by (simp_all add: value_ok_def)
  then have "int_ok (2 * min ?a ?b)" "int_ok (max ?a ?b + min ?a ?b)"
      "is_score (fdiv f32 (f32_of_int (2 * min ?a ?b)) (f32_of_int (max ?a ?b + min ?a ?b)))"
    using True by (auto simp: int_ok_def intro!: ratio_score)
  moreover have "(if ?b < ?a then ?b else ?a) = min ?a ?b" "(if ?b < ?a then ?a else ?b) = max ?a ?b"
    by (simp_all add: min_def max_def)
  ultimately show ?thesis using True by (simp add: sim_size_def check_int_def Let_def)
qed (use sim_score_style_score [OF assms] in \<open>auto simp: sim_size_def Let_def\<close>)

definition color_ok :: "bytes \<Rightarrow> bool" where
  "color_ok c \<longleftrightarrow> (case parse_color c of Inr rgb \<Rightarrow> - 1 \<le> rgb \<and> rgb < 2 ^ 24 | Inl _ \<Rightarrow> False)"

lemma channel_bounds:
  assumes "0 \<le> rgb" and "rgb < 2 ^ 24"
  shows "0 \<le> red rgb" "red rgb < 256" "0 \<le> green rgb" "green rgb < 256" "0 \<le> blue rgb" "blue rgb < 256"
  using assms by (simp_all add: red_def green_def blue_def)

lemma diff_square:
  assumes "(0 :: int) \<le> x" "x < 256" "0 \<le> y" "y < 256"
  shows "0 \<le> (x - y) * (x - y)" "(x - y) * (x - y) \<le> 65536"
proof -
  have "\<bar>x - y\<bar> \<le> 256" using assms by linarith
  then have "\<bar>x - y\<bar> * \<bar>x - y\<bar> \<le> 256 * 256" by (intro mult_mono) simp_all
  then show "(x - y) * (x - y) \<le> 65536" by (simp add: abs_mult_self_eq)
qed simp

lemma sim_color_score:
  assumes "value_ok c1" and "value_ok c2" and "color_ok c1" and "color_ok c2"
  shows "\<exists>v. sim_color c1 c2 = Inr v \<and> is_score v"
proof -
  obtain r1 r2 where r: "parse_color c1 = Inr r1" "- 1 \<le> r1" "r1 < 2 ^ 24" "parse_color c2 = Inr r2" "- 1 \<le> r2" "r2 < 2 ^ 24"
    using assms(3,4) by (auto simp: color_ok_def split: sum.splits)
  show ?thesis
  proof (cases "r1 = - 1 \<or> r2 = - 1")
    case True
    then show ?thesis using r sim_score_style_score [OF assms(1,2)] by (auto simp: sim_color_def)
  next
    case False
    define x y where "x = (if r1 = 0 then 1 else r1)" and "y = (if r2 = 0 then 1 else r2)"
    have xy: "0 \<le> x" "x < 2 ^ 24" "0 \<le> y" "y < 2 ^ 24" using False r by (auto simp: x_def y_def)
    note b = channel_bounds [OF xy(1,2)] channel_bounds [OF xy(3,4)]
    note sq = diff_square [OF b(1,2,7,8)] diff_square [OF b(3,4,9,10)] diff_square [OF b(5,6,11,12)]
    define i j k where "i = (red x - red y) * (red x - red y)" and "j = (green x - green y) * (green x - green y)"
      and "k = (blue x - blue y) * (blue x - blue y)"
    have "int_ok i" "int_ok (i + j)" "int_ok (i + j + k)"
      using sq by (simp_all add: int_ok_def flip: i_def j_def k_def)
    then show ?thesis
      using False r by (auto simp: sim_color_def check_int_def Let_def simp flip: x_def y_def i_def j_def k_def)
  qed
qed

lemma sim_enum_score: "\<exists>v. sim_enum s1 s2 = Inr v \<and> is_score v"
  by (simp add: sim_enum_def)

section \<open>Scores of styles\<close>

definition style_ok :: "style \<Rightarrow> bool" where
  "style_ok m \<longleftrightarrow> cmap_find m BACKGROUND = None \<and> (\<forall>(k, v) \<in> set m. value_ok v) \<and>
     color_ok (style_value m BACKGROUND_COLOR) \<and> color_ok (style_value m TEXT_COLOR)"

lemma style_value_ok [simp]: "style_ok m \<Longrightarrow> value_ok (style_value m k)"
proof (cases "cmap_find m k")
  case None
  then show ?thesis by (simp add: style_value_def value_ok_def parse_size_def)
next
  case (Some v)
  then have "(k, v) \<in> set m" by (simp add: cmap_find_def map_of_SomeD)
  then show "style_ok m \<Longrightarrow> ?thesis" using Some by (auto simp: style_value_def style_ok_def)
qed

lemma style_color_ok: "style_ok m \<Longrightarrow> color_ok (style_value m BACKGROUND_COLOR) \<and> color_ok (style_value m TEXT_COLOR)"
  by (simp add: style_ok_def)

lemmas diff_defs =
  diff_background_def diff_text_color_def diff_text_align_def diff_text_decoration_def diff_font_family_def
  diff_font_size_def diff_font_style_def diff_font_weight_def diff_list_image_def diff_list_type_def
  diff_list_position_def diff_table_layout_def diff_table_collapse_def diff_table_caption_def diff_border_def
  diff_padding_top_def diff_padding_right_def diff_padding_left_def diff_padding_bottom_def diff_margin_def
  diff_position_def diff_display_def diff_float_def

lemma diffs_score:
  assumes "style_ok m1" and "style_ok m2" and "d \<in> set diffs"
  shows "\<exists>v. d m1 m2 = Inr v \<and> is_score v"
proof -
  have scores: "\<exists>v. sim_score_style (style_value m1 k) (style_value m2 k) = Inr v \<and> is_score v"
    "\<exists>v. sim_size (style_value m1 k) (style_value m2 k) = Inr v \<and> is_score v"
    "\<exists>v. sim_enum (style_value m1 k) (style_value m2 k) = Inr v \<and> is_score v"
    "\<exists>v. sim_color (style_value m1 BACKGROUND_COLOR) (style_value m2 BACKGROUND_COLOR) = Inr v \<and> is_score v"
    "\<exists>v. sim_color (style_value m1 TEXT_COLOR) (style_value m2 TEXT_COLOR) = Inr v \<and> is_score v" for k
    using assms(1,2) style_color_ok
    by (simp_all add: sim_score_style_score sim_size_score sim_enum_score sim_color_score)
  from assms(3) show ?thesis
    unfolding diffs_def list.set insert_iff empty_iff
    by (elim disjE) (simp_all only: diff_defs scores)
qed

lemma sim_refl:
  "sim_score_style s s = Inr (Fin 1) \<or> sim_score_style s s = Inr (Fin (- 1))"
  "sim_size s s = Inr (Fin 1) \<or> sim_size s s = Inr (Fin (- 1))"
  "sim_enum s s = Inr (Fin 1) \<or> sim_enum s s = Inr (Fin (- 1))"
  "color_ok s \<Longrightarrow> sim_color s s = Inr (Fin 1) \<or> sim_color s s = Inr (Fin (- 1))"
  by (auto simp: sim_score_style_def sim_size_def sim_enum_def sim_color_def color_ok_def Let_def split: sum.splits)

lemma diffs_refl:
  assumes "style_ok m" and "d \<in> set diffs"
  shows "d m m = Inr (Fin 1) \<or> d m m = Inr (Fin (- 1))"
  using assms(2) style_color_ok [OF assms(1)]
  unfolding diffs_def list.set insert_iff empty_iff
  by (elim disjE) (simp_all only: diff_defs sim_refl)

lemma scores_all:
  "(\<forall>d \<in> set ds. \<exists>v. d m1 m2 = Inr v \<and> P v) \<Longrightarrow>
     \<exists>S. scores ds m1 m2 = Inr S \<and> length S = length ds \<and> (\<forall>v \<in> set S. P v)"
proof (induction ds)
  case (Cons d ds)
  then obtain v S where "d m1 m2 = Inr v" "P v" "scores ds m1 m2 = Inr S" "length S = length ds" "\<forall>v \<in> set S. P v"
    by auto
  then show ?case by auto
qed simp

text \<open>With all weights 1 the sum of the scores never exceeds their number.\<close>

lemma weigh_bound:
  assumes "length S < 25" and "\<forall>v \<in> set S. is_score v"
  shows "\<exists>x n. foldE (weigh S (replicate 25 (Fin 1))) [0..<length S] (Fin 0, Fin 0) = Inr (Fin x, Fin (of_int n)) \<and>
     0 \<le> x \<and> x \<le> of_int n \<and> 0 \<le> n"
proof -
  let ?I = "\<lambda>j (a, b). \<exists>x n. a = Fin x \<and> b = Fin (of_int n) \<and> 0 \<le> x \<and> x \<le> of_int n \<and> 0 \<le> n \<and> n \<le> int j"
  have "\<exists>s'. foldE (weigh S (replicate 25 (Fin 1))) [0..<length S] (Fin 0, Fin 0) = Inr s' \<and> ?I (length S) s'"
  proof (rule foldE_upt_inv)
    fix j s
    assume j: "0 \<le> j" "j < length S" and "?I j s"
    then obtain x n where s: "s = (Fin x, Fin (of_int n))" "0 \<le> x" "x \<le> of_int n" "0 \<le> n" "n \<le> int j"
      by (cases s) auto
    show "\<exists>s'. weigh S (replicate 25 (Fin 1)) j s = Inr s' \<and> ?I (Suc j) s'"
    proof (cases "flt_le (Fin 0) (S ! j)")
      case True
      have "is_score (S ! j)" using assms(2) j(2) by simp
      then obtain q where q: "S ! j = Fin q" "0 \<le> q" "q \<le> 1"
        using True by (cases "S ! j") (auto simp: is_score_def in_unit_def)
      obtain q' where q': "f32 q = Fin q'" "0 \<le> q'" "q' \<le> 1" using f32_unit [OF q(2,3)] by blast
      obtain y where y: "f32 (x + q') = Fin y" "0 \<le> y" "y \<le> of_int (n + 1)"
        using f32_le_int [of "x + q'" "n + 1"] s q' j assms(1) by auto
      have b: "f32 (of_int n + 1) = Fin (of_int (n + 1))"
        using f32_of_int_exact [of "n + 1"] s j assms(1) by (simp add: f32_of_int_def)
      have "weigh S (replicate 25 (Fin 1)) j s = Inr (Fin y, Fin (of_int (n + 1)))"
        using q q' y b j assms(1) by (simp add: weigh_def s(1))
      then show ?thesis using y s by (auto intro!: exI [of _ "n + 1"])
    next
      case False
      then show ?thesis using s by (auto simp: weigh_def)
    qed
  qed simp_all
  then show ?thesis by auto
qed

lemma weigh_refl:
  assumes "length S < 25" and "\<forall>v \<in> set S. v = Fin 1 \<or> v = Fin (- 1)"
  shows "\<exists>n. foldE (weigh S (replicate 25 (Fin 1))) [0..<length S] (Fin 0, Fin 0) = Inr (Fin (of_int n), Fin (of_int n)) \<and> 0 \<le> n"
proof -
  let ?I = "\<lambda>j s. \<exists>n. s = (Fin (of_int n), Fin (of_int n)) \<and> 0 \<le> n \<and> n \<le> int j"
  have "\<exists>s'. foldE (weigh S (replicate 25 (Fin 1))) [0..<length S] (Fin 0, Fin 0) = Inr s' \<and> ?I (length S) s'"
  proof (rule foldE_upt_inv)
    fix j s
    assume j: "0 \<le> j" "j < length S" and "?I j s"
    then obtain n where s: "s = (Fin (of_int n), Fin (of_int n))" "0 \<le> n" "n \<le> int j" by blast
    have b: "f32 (of_int n + 1) = Fin (of_int (n + 1))"
      using f32_of_int_exact [of "n + 1"] s j assms(1) by (simp add: f32_of_int_def)
    have "S ! j = Fin 1 \<or> S ! j = Fin (- 1)" using assms(2) j by simp
    then show "\<exists>s'. weigh S (replicate 25 (Fin 1)) j s = Inr s' \<and> ?I (Suc j) s'"
      using b s j assms(1) by (elim disjE) (auto simp: weigh_def intro: exI [of _ "n + 1"])
  qed simp_all
  then show ?thesis by auto
qed

lemma length_diffs: "length diffs = 23"
  by (simp add: diffs_def)

lemma compare_styles_score:
  assumes "style_ok m1" and "style_ok m2"
  shows "\<exists>v. compare_styles m1 m2 = Inr v \<and> in_unit v"
proof -
  obtain S where S: "scores diffs m1 m2 = Inr S" "length S = 23" "\<forall>v \<in> set S. is_score v"
    using scores_all [of diffs m1 m2 is_score] diffs_score [OF assms] length_diffs by auto
  obtain x n where w: "foldE (weigh S (replicate 25 (Fin 1))) [0..<length S] (Fin 0, Fin 0) = Inr (Fin x, Fin (of_int n))"
      "0 \<le> x" "x \<le> of_int n" "0 \<le> n"
    using weigh_bound [of S] S(2,3) by auto
  have "normalize m1 = Inr m1" "normalize m2 = Inr m2" using assms by (simp_all add: normalize_def style_ok_def)
  then show ?thesis
    using S(1) w fdiv_ratio [of x "of_int n"]
    by (cases "n = 0") (auto simp: compare_styles_def compare_styles_w_def)
qed

text \<open>Two styles without a \<open>background\<close> property, whose values are free of NUL bytes, shorter than
  4 MB and below \<open>2^22\<close> as sizes and whose colours are readable, are compared without any error,
  and their similarity is a number between 0 and 1.\<close>

theorem compare_styles_unit:
  assumes "style_ok m1" and "style_ok m2"
  shows "\<exists>v. compare_styles m1 m2 = Inr v \<and> in_unit v"
  using assms by (rule compare_styles_score)

text \<open>A style compared with itself scores exactly 1.\<close>

theorem compare_styles_self:
  assumes "style_ok m"
  shows "compare_styles m m = Inr (Fin 1)"
proof -
  obtain S where S: "scores diffs m m = Inr S" "length S = 23" "\<forall>v \<in> set S. v = Fin 1 \<or> v = Fin (- 1)"
    using scores_all [of diffs m m "\<lambda>v. v = Fin 1 \<or> v = Fin (- 1)"] diffs_refl [OF assms] length_diffs by auto
  obtain n where w: "foldE (weigh S (replicate 25 (Fin 1))) [0..<length S] (Fin 0, Fin 0) = Inr (Fin (of_int n), Fin (of_int n))"
      "0 \<le> n"
    using weigh_refl [of S] S(2,3) by auto
  have "normalize m = Inr m" using assms by (simp add: normalize_def style_ok_def)
  then show ?thesis
    using S(1) w by (cases "n = 0") (auto simp: compare_styles_def compare_styles_w_def)
qed

text \<open>A style that has a \<open>background\<close> property cannot be compared with any other: \<open>normalize\<close>
  uses the iterator it has just erased.\<close>

theorem compare_styles_background:
  assumes "cmap_find m1 BACKGROUND \<noteq> None"
  shows "compare_styles m1 m2 = Inl BadIterator"
  using assms by (simp add: compare_styles_def compare_styles_w_def normalize_def)

text \<open>
  A colour that cannot be read is as good as any other: \<open>c2.compare("transparent")\<close> is not compared
  with 0, so the branch is taken for every second colour but \<open>transparent\<close>.
\<close>

lemma sim_color_unreadable:
  assumes "parse_color c1 = Inr r1" and "parse_color c2 = Inr r2" and "r1 = - 1 \<or> r2 = - 1"
    and "c2 \<noteq> ''transparent''" and "c1 \<noteq> [] \<or> c2 \<noteq> []"
  shows "sim_color c1 c2 = Inr (Fin 1)"
  using assms by (auto simp: sim_color_def)

text \<open>The numbers of an \<open>rgb\<close> colour, and the colours with more than three of them.\<close>

lemma digits_span:
  "ds \<noteq> [] \<Longrightarrow> list_all is_digit ds \<Longrightarrow> \<not> is_digit c \<Longrightarrow>
     rgb_numbers (ds @ c # p) co =
       (if length co < 3 then rgb_numbers p (co @ [strtol10 (ds @ c # p)]) else Inl OutOfBounds)"
  by (cases ds) (simp_all add: rgb_numbers.simps [of "_ # _"] dropWhile_append1 list_all_iff Let_def)

lemma rgb_skip: "list_all (\<lambda>c. \<not> is_digit c) xs \<Longrightarrow> rgb_numbers (xs @ p) co = rgb_numbers p co"
  by (induction xs) (simp_all add: rgb_numbers.simps [of "_ # _"])

text \<open>Reading a colour of the form \<open>rgba(a, b, c, d)\<close> writes past the array \<open>co\<close> of three numbers.\<close>

theorem parse_color_rgba:
  assumes "\<And>n. n \<in> {a, b, c, d} \<Longrightarrow> n \<noteq> [] \<and> list_all is_digit n"
    and "contains ''rgb'' s" and "c_str s = ''rgba('' @ a @ '', '' @ b @ '', '' @ c @ '', '' @ d @ '')''"
  shows "parse_color s = Inl OutOfBounds"
proof -
  have n: "\<not> is_digit CHR '',''" "\<not> is_digit SP'" "\<not> is_digit CHR '')''" "list_all (\<lambda>c. \<not> is_digit c) ''rgba(''"
    if "SP' = CHR 0x20" for SP'
    using that by (simp_all add: is_digit_def)
  have sp: "rgb_numbers (CHR 0x20 # p) co = rgb_numbers p co" for p co
    using rgb_skip [of "[CHR 0x20]" p co] by (simp add: is_digit_def)
  have "rgb_numbers (c_str s) [] = Inl OutOfBounds"
    using assms(1) [of a] assms(1) [of b] assms(1) [of c] assms(1) [of d] n(1,3) rgb_skip [OF n(4)]
    by (simp add: assms(3) digits_span sp)
  then show ?thesis by (simp add: parse_color_def assms(2))
qed

lemma parse_color_rgba_witness: "parse_color ''rgba(0, 0, 0, 5)'' = Inl OutOfBounds"
  by (rule parse_color_rgba [of "''0''" "''0''" "''0''" "''5''"])
    (auto simp: is_digit_def contains_def c_str_def)

lemma color_ok_simple: "color_ok []" "color_ok ''gray''"
  by (simp_all add: color_ok_def parse_color_def contains_def map_color_def cmap_find_def)

lemma style_witness: "style_ok [(''color'', ''gray''), (''width'', ''10px'')]" "style_ok [(''display'', ''block'')]"
  using color_ok_simple
  by (simp_all add: style_ok_def cmap_find_def style_value_def value_ok_def parse_size_def upt_rec is_digit_def
      strtol10_def digits_val_def digit_val_def clamp_long_def wrap_int_def c_str_def)

lemma compare_styles_unit_witness:
  "\<exists>v. compare_styles [(''color'', ''gray''), (''width'', ''10px'')] [(''display'', ''block'')] = Inr v \<and> in_unit v"
  by (rule compare_styles_unit) (rule style_witness)+

lemma compare_styles_self_witness:
  "compare_styles [(''color'', ''gray''), (''width'', ''10px'')] [(''color'', ''gray''), (''width'', ''10px'')] = Inr (Fin 1)"
  by (rule compare_styles_self) (rule style_witness)

lemma compare_styles_background_witness:
  "compare_styles [(''background'', ''red'')] [] = Inl BadIterator"
  by (rule compare_styles_background) (simp add: cmap_find_def)

end
