(* ===== verification/Distance.thy ===== *)
theory Distance
  imports Prelude
begin

text \<open>
  \<open>DisCrawler/DOMAttUtil/distance.cpp\<close>: the two edit distances of class \<open>Distance\<close>.  The
  \<open>const char *\<close> overload fills a \<open>malloc\<close>ed matrix through a computed cell address; its heap
  block is modelled cell by cell, a cell being \<open>None\<close> until it is written, and every access
  outside the block is an error.  The \<open>std::string\<close> overload trims the common prefix and
  suffix first and fills a vector of vectors, with a transposition rule.  The specification both
  are measured against is \<open>edits s t k\<close>: \<open>t\<close> is obtained from \<open>s\<close> by \<open>k\<close> insertions,
  deletions and substitutions.
\<close>

section \<open>Edit scripts, the specification\<close>

inductive edits :: "'a list \<Rightarrow> 'a list \<Rightarrow> nat \<Rightarrow> bool" where
  edits_nil: "edits [] [] 0"
| edits_keep: "edits s t k \<Longrightarrow> edits (c # s) (c # t) k"
| edits_subst: "edits s t k \<Longrightarrow> edits (c # s) (d # t) (Suc k)"
| edits_ins: "edits s t k \<Longrightarrow> edits s (d # t) (Suc k)"
| edits_del: "edits s t k \<Longrightarrow> edits (c # s) t (Suc k)"

inductive_cases edits_Nil1E: "edits [] t k"
inductive_cases edits_Nil2E: "edits s [] k"
inductive_cases edits_ConsE: "edits (c # s) (d # t) k"

lemma edits_refl: "edits s s 0"
  by (induction s) (auto intro: edits.intros)

lemma edits_append: "edits s t k \<Longrightarrow> edits s' t' k' \<Longrightarrow> edits (s @ s') (t @ t') (k + k')"
  by (induction rule: edits.induct) (auto intro: edits.intros)

lemma edits_single:
  "edits [c] [c] 0" "edits [c] [d] (Suc 0)" "edits [] [d] (Suc 0)" "edits [c] [] (Suc 0)"
  by (auto intro: edits.intros)

lemma edits_rev: "edits s t k \<Longrightarrow> edits (rev s) (rev t) k"
proof (induction rule: edits.induct)
  case edits_nil
  show ?case by (simp add: edits.edits_nil)
next
  case (edits_keep s t k c)
  from edits_append [OF this(2) edits_single(1)] show ?case by simp
next
  case (edits_subst s t k c d)
  from edits_append [OF this(2) edits_single(2)] show ?case by simp
next
  case (edits_ins s t k d)
  from edits_append [OF this(2) edits_single(3)] show ?case by simp
next
  case (edits_del s t k c)
  from edits_append [OF this(2) edits_single(4)] show ?case by simp
qed

lemma edits_Nil1: "edits [] t k \<Longrightarrow> length t \<le> k"
  by (induction "[] :: 'a list" t k rule: edits.induct) auto

lemma edits_Nil2: "edits s [] k \<Longrightarrow> length s \<le> k"
  by (induction s "[] :: 'a list" k rule: edits.induct) auto

text \<open>The last step of a script, by reversal of the first one.\<close>

lemma edits_snocE:
  assumes "edits (s @ [c]) (t @ [d]) k"
  obtains "c = d" "edits s t k"
  | k' where "k = Suc k'" "edits s t k'"
  | k' where "k = Suc k'" "edits (s @ [c]) t k'"
  | k' where "k = Suc k'" "edits s (t @ [d]) k'"
proof -
  from edits_rev [OF assms] have "edits (c # rev s) (d # rev t) k" by simp
  then show thesis
    by (rule edits_ConsE) (metis edits_rev rev.simps(2) rev_rev_ident that)+
qed

lemma edits_length: "edits s t k \<Longrightarrow> length s \<le> length t + k \<and> length t \<le> length s + k"
  by (induction rule: edits.induct) auto

text \<open>\<open>lev s t i j\<close>: the recurrence the matrices implement, on prefixes of \<open>s\<close> and \<open>t\<close>.\<close>

fun lev :: "'a list \<Rightarrow> 'a list \<Rightarrow> nat \<Rightarrow> nat \<Rightarrow> nat" where
  "lev s t 0 j = j"
| "lev s t (Suc i) 0 = Suc i"
| "lev s t (Suc i) (Suc j) =
     min (lev s t i (Suc j) + 1)
      (min (lev s t (Suc i) j + 1) (lev s t i j + (if s ! i = t ! j then 0 else 1)))"

lemma lev_0_right [simp]: "lev s t i 0 = i"
  by (cases i) auto

lemma edits_lev: "i \<le> length s \<Longrightarrow> j \<le> length t \<Longrightarrow> edits (take i s) (take j t) (lev s t i j)"
proof (induction s t i j rule: lev.induct)
  case (1 s t j)
  have "edits [] xs (length xs)" for xs :: "'a list"
    by (induction xs) (auto intro: edits.intros)
  from this [of "take j t"] 1 show ?case by simp
next
  case (2 s t i)
  have "edits xs [] (length xs)" for xs :: "'a list"
    by (induction xs) (auto intro: edits.intros)
  from this [of "take (Suc i) s"] 2 show ?case by simp
next
  case (3 s t i j)
  then have s: "take (Suc i) s = take i s @ [s ! i]" and t: "take (Suc j) t = take j t @ [t ! j]"
    by (simp_all add: take_Suc_conv_app_nth)
  from 3 have IH: "edits (take i s) (take (Suc j) t) (lev s t i (Suc j))"
    "edits (take (Suc i) s) (take j t) (lev s t (Suc i) j)"
    "edits (take i s) (take j t) (lev s t i j)" by auto
  from edits_append [OF IH(1) edits_single(4) [of "s ! i"]]
  have a: "edits (take (Suc i) s) (take (Suc j) t) (lev s t i (Suc j) + 1)" by (simp add: s)
  from edits_append [OF IH(2) edits_single(3) [of "t ! j"]]
  have b: "edits (take (Suc i) s) (take (Suc j) t) (lev s t (Suc i) j + 1)" by (simp add: t)
  have c: "edits (take (Suc i) s) (take (Suc j) t)
      (lev s t i j + (if s ! i = t ! j then 0 else 1))"
    using edits_append [OF IH(3) edits_single(1) [of "s ! i"]]
      edits_append [OF IH(3) edits_single(2) [of "s ! i" "t ! j"]]
    by (cases "s ! i = t ! j") (simp_all add: s t)
  from a b c show ?case by (simp add: min_def)
qed

lemma lev_minimal: "edits (take i s) (take j t) k \<Longrightarrow> i \<le> length s \<Longrightarrow> j \<le> length t \<Longrightarrow> lev s t i j \<le> k"
proof (induction s t i j arbitrary: k rule: lev.induct)
  case (1 s t j)
  then show ?case using edits_Nil1 by fastforce
next
  case (2 s t i)
  then show ?case using edits_Nil2 by fastforce
next
  case (3 s t i j)
  then have s: "take (Suc i) s = take i s @ [s ! i]" and t: "take (Suc j) t = take j t @ [t ! j]"
    by (simp_all add: take_Suc_conv_app_nth)
  from 3(4) have "edits (take i s @ [s ! i]) (take j t @ [t ! j]) k" by (simp add: s t)
  then show ?case
  proof (cases rule: edits_snocE)
    case 1
    with 3(3) [of k] 3(5,6) show ?thesis by simp
  next
    case (2 k')
    with 3(3) [of k'] 3(5,6) show ?thesis by (simp add: min_def)
  next
    case (3 k')
    with "3.IH"(2) [of k'] "3.prems" s show ?thesis by simp
  next
    case (4 k')
    with "3.IH"(1) [of k'] "3.prems" t show ?thesis by simp
  qed
qed

text \<open>The distance of two whole strings, and what makes it one.\<close>

definition edit_distance :: "'a list \<Rightarrow> 'a list \<Rightarrow> nat" where
  "edit_distance s t = lev s t (length s) (length t)"

lemma edit_distance_least:
  "edits s t (edit_distance s t) \<and> (\<forall>k. edits s t k \<longrightarrow> edit_distance s t \<le> k)"
  using edits_lev [of "length s" s "length t" t] lev_minimal [of "length s" s "length t" t]
  by (auto simp: edit_distance_def)

lemma lev_le_max: "lev s t i j \<le> max i j"
  by (induction s t i j rule: lev.induct) auto


section \<open>\<open>LD(const char *, const char *)\<close>: the heap matrix\<close>

text \<open>
  The block returned by \<open>malloc\<close> is a list of cells.  \<open>GetCellPointer\<close> gives the index a cell
  address has in the block; reading or writing at an index outside it, or reading a cell nothing
  was written to, is an error.
\<close>

type_synonym heap_block = "int option list"

definition Minimum :: "int \<Rightarrow> int \<Rightarrow> int \<Rightarrow> int" where
  "Minimum a b c =
     (let mi = a; mi = (if b < mi then b else mi); mi = (if c < mi then c else mi) in mi)"

definition GetCellPointer :: "nat \<Rightarrow> nat \<Rightarrow> nat \<Rightarrow> nat" where
  "GetCellPointer col row nCols = col + row * (nCols + 1)"

definition GetAt :: "heap_block \<Rightarrow> nat \<Rightarrow> nat \<Rightarrow> nat \<Rightarrow> int res" where
  "GetAt d col row nCols =
     (let p = GetCellPointer col row nCols
      in if p < length d
         then (case d ! p of None \<Rightarrow> Inl UninitRead | Some x \<Rightarrow> Inr x)
         else Inl OutOfBounds)"

definition PutAt :: "heap_block \<Rightarrow> nat \<Rightarrow> nat \<Rightarrow> nat \<Rightarrow> int \<Rightarrow> heap_block res" where
  "PutAt d col row nCols x =
     (let p = GetCellPointer col row nCols
      in if p < length d then Inr (d[p := Some x]) else Inl OutOfBounds)"

definition LD_cell :: "bytes \<Rightarrow> bytes \<Rightarrow> nat \<Rightarrow> nat \<Rightarrow> nat \<Rightarrow> heap_block \<Rightarrow> heap_block res" where
  "LD_cell s t n i j d =
     (let cost = (if s ! (i - 1) = t ! (j - 1) then 0 else 1)
      in bindE (GetAt d (i - 1) j n) (\<lambda>above.
         bindE (GetAt d i (j - 1) n) (\<lambda>left.
         bindE (GetAt d (i - 1) (j - 1) n) (\<lambda>diag.
         PutAt d i j n (Minimum (above + 1) (left + 1) (diag + cost))))))"

text \<open>
  \<open>LD_fill\<close> is steps 2 to 7, on the block step 1 allocates.  The second initialisation loop passes
  \<open>m\<close> where the other accesses pass \<open>n\<close>, as the source does.
\<close>

definition LD_fill :: "bytes \<Rightarrow> bytes \<Rightarrow> nat \<Rightarrow> nat \<Rightarrow> heap_block \<Rightarrow> int res" where
  "LD_fill s t n m d =
     bindE (foldE (\<lambda>i d. PutAt d i 0 n (int i)) [0..<n + 1] d) (\<lambda>d.
     bindE (foldE (\<lambda>j d. PutAt d 0 j m (int j)) [0..<m + 1] d) (\<lambda>d.
     bindE (foldE (\<lambda>i d. foldE (\<lambda>j d. LD_cell s t n i j d) [1..<m + 1] d) [1..<n + 1] d)
       (\<lambda>d. GetAt d n m n)))"

text \<open>
  The size \<open>(n+1) * (m+1) * sizeof(int)\<close> is stored in an \<open>int\<close>; a product that does not fit is
  an error.
\<close>

definition LD_cstr :: "bytes \<Rightarrow> bytes \<Rightarrow> int res" where
  "LD_cstr s' t' =
     (let s = c_str s'; t = c_str t'; n = length s; m = length t
      in if n = 0 then Inr (int m)
         else if m = 0 then Inr (int n)
         else if 2 ^ 31 \<le> (n + 1) * (m + 1) * 4 then Inl SizeOverflow
         else LD_fill s t n m (replicate ((n + 1) * (m + 1)) None))"

lemma Minimum_eq [simp]: "Minimum a b c = min a (min b c)"
  by (auto simp: Minimum_def Let_def)

lemma cell_inj:
  assumes "a \<le> n" and "a' \<le> n"
  shows "GetCellPointer a b n = GetCellPointer a' b' n \<longleftrightarrow> a = a' \<and> b = b'"
proof
  assume eq: "GetCellPointer a b n = GetCellPointer a' b' n"
  have "GetCellPointer a b n mod (n + 1) = a" "GetCellPointer a' b' n mod (n + 1) = a'"
    using assms unfolding GetCellPointer_def by (simp_all del: add_Suc_right Suc_eq_plus1)
  with eq have a: "a = a'" by simp
  with eq have "b * (n + 1) = b' * (n + 1)" by (simp add: GetCellPointer_def)
  then have "b = b'" by (metis mult_cancel2 Suc_eq_plus1 nat.simps(3))
  with a show "a = a' \<and> b = b'" by simp
qed simp

lemma cell_bound: "a \<le> n \<Longrightarrow> b \<le> m \<Longrightarrow> GetCellPointer a b n < (n + 1) * (m + 1)"
proof -
  assume "a \<le> n" "b \<le> m"
  then have "a + b * (n + 1) \<le> n + m * (n + 1)"
    by (intro add_mono mult_right_mono) auto
  also have "\<dots> < (n + 1) * (m + 1)" by (simp add: algebra_simps)
  finally show ?thesis by (simp add: GetCellPointer_def)
qed

lemma GetAt_Inr:
  "col \<le> nCols \<Longrightarrow> GetCellPointer col row nCols < length d \<Longrightarrow>
     d ! GetCellPointer col row nCols = Some x \<Longrightarrow> GetAt d col row nCols = Inr x"
  by (simp add: GetAt_def)

subsection \<open>Strings of one length\<close>

text \<open>
  When both strings have length \<open>n\<close> the two strides agree.  \<open>filled s t n i j d\<close>: the cells of
  row and column 0, of the columns before \<open>i\<close>, and of column \<open>i\<close> before row \<open>j\<close> hold the
  recurrence.
\<close>

definition filled :: "bytes \<Rightarrow> bytes \<Rightarrow> nat \<Rightarrow> nat \<Rightarrow> nat \<Rightarrow> heap_block \<Rightarrow> bool" where
  "filled s t n i j d \<longleftrightarrow> length d = (n + 1) * (n + 1) \<and>
     (\<forall>a \<le> n. \<forall>b \<le> n. a = 0 \<or> b = 0 \<or> a < i \<or> (a = i \<and> b < j) \<longrightarrow>
        d ! GetCellPointer a b n = Some (int (lev s t a b)))"

lemma filledD:
  "filled s t n i j d \<Longrightarrow> a \<le> n \<Longrightarrow> b \<le> n \<Longrightarrow> a = 0 \<or> b = 0 \<or> a < i \<or> (a = i \<and> b < j) \<Longrightarrow>
     d ! GetCellPointer a b n = Some (int (lev s t a b))"
  unfolding filled_def by blast

lemma filled_GetAt:
  "filled s t n i j d \<Longrightarrow> a \<le> n \<Longrightarrow> b \<le> n \<Longrightarrow> a = 0 \<or> b = 0 \<or> a < i \<or> (a = i \<and> b < j) \<Longrightarrow>
     GetAt d a b n = Inr (int (lev s t a b))"
  using cell_bound [of a n b n] unfolding filled_def by (intro GetAt_Inr) metis+

lemma LD_cell_filled:
  assumes "filled s t n i j d" and "1 \<le> i" "i \<le> n" "1 \<le> j" "j \<le> n"
  shows "\<exists>d'. LD_cell s t n i j d = Inr d' \<and> filled s t n i (Suc j) d'"
proof -
  obtain i' j' where ij: "i = Suc i'" "j = Suc j'" using assms by (cases i; cases j) auto
  let ?x = "int (lev s t i j)"
  let ?d = "d[GetCellPointer i j n := Some ?x]"
  have len: "length d = (n + 1) * (n + 1)" using assms(1) by (simp add: filled_def)
  have x: "?x = min (int (lev s t i' j) + 1)
      (min (int (lev s t i j') + 1) (int (lev s t i' j') + (if s ! i' = t ! j' then 0 else 1)))"
    by (simp add: ij min_def)
  have "GetAt d i' j n = Inr (int (lev s t i' j))" "GetAt d i j' n = Inr (int (lev s t i j'))"
    "GetAt d i' j' n = Inr (int (lev s t i' j'))"
    using assms by (auto intro!: filled_GetAt [OF assms(1)] simp: ij)
  moreover have "PutAt d i j n ?x = Inr ?d"
    using cell_bound [of i n j n] assms len by (simp add: PutAt_def)
  ultimately have "LD_cell s t n i j d = Inr ?d"
    unfolding LD_cell_def Let_def x by (simp add: ij)
  moreover have "filled s t n i (Suc j) ?d"
    unfolding filled_def
  proof (intro conjI allI impI)
    show "length ?d = (n + 1) * (n + 1)" using len by simp
    fix a b
    assume ab: "a \<le> n" "b \<le> n" "a = 0 \<or> b = 0 \<or> a < i \<or> a = i \<and> b < Suc j"
    show "?d ! GetCellPointer a b n = Some (int (lev s t a b))"
    proof (cases "a = i \<and> b = j")
      case True
      then show ?thesis using cell_bound [of i n j n] assms len by simp
    next
      case False
      then have "GetCellPointer a b n \<noteq> GetCellPointer i j n"
        using cell_inj [of a n i b j] ab(1) assms(3) by simp
      moreover have "a = 0 \<or> b = 0 \<or> a < i \<or> (a = i \<and> b < j)" using False ab(3) by auto
      ultimately show ?thesis using filledD [OF assms(1) ab(1,2)] by simp
    qed
  qed
  ultimately show ?thesis by blast
qed

lemma filled_next: "filled s t n i (Suc n) d \<Longrightarrow> filled s t n (Suc i) 1 d"
  unfolding filled_def by (metis less_Suc_eq less_Suc_eq_le less_one)

lemma LD_rows_filled:
  assumes "filled s t n 1 1 d" and "n \<noteq> 0"
  shows "\<exists>d'. foldE (\<lambda>i d. foldE (\<lambda>j d. LD_cell s t n i j d) [1..<n + 1] d) [1..<n + 1] d = Inr d'
            \<and> filled s t n (n + 1) 1 d'"
proof (rule foldE_upt_inv)
  show "1 \<le> n + 1" "filled s t n 1 1 d" using assms by simp_all
  fix i d1
  assume i: "1 \<le> i" "i < n + 1" and f: "filled s t n i 1 d1"
  have "\<exists>d2. foldE (\<lambda>j d. LD_cell s t n i j d) [1..<n + 1] d1 = Inr d2 \<and> filled s t n i (n + 1) d2"
    by (rule foldE_upt_inv [where I = "filled s t n i"])
      (use i f in \<open>auto intro!: LD_cell_filled\<close>)
  then show "\<exists>d2. foldE (\<lambda>j d. LD_cell s t n i j d) [1..<n + 1] d1 = Inr d2 \<and> filled s t n (Suc i) 1 d2"
    by (auto dest: filled_next)
qed

subsection \<open>The initialisation loops\<close>

lemma PutAt_loop:
  assumes "\<forall>j < b. GetCellPointer (c j) (r j) w < length d"
    and "inj_on (\<lambda>j. GetCellPointer (c j) (r j) w) {..<b}"
  shows "\<exists>d'. foldE (\<lambda>j d. PutAt d (c j) (r j) w (int j)) [0..<b] d = Inr d' \<and> length d' = length d \<and>
     (\<forall>j < b. d' ! GetCellPointer (c j) (r j) w = Some (int j)) \<and>
     (\<forall>q. q \<notin> (\<lambda>j. GetCellPointer (c j) (r j) w) ` {..<b} \<longrightarrow> d' ! q = d ! q)"
proof -
  let ?p = "\<lambda>j. GetCellPointer (c j) (r j) w"
  let ?I = "\<lambda>i d'. length d' = length d \<and> (\<forall>j < i. d' ! ?p j = Some (int j)) \<and>
     (\<forall>q. q \<notin> ?p ` {..<i} \<longrightarrow> d' ! q = d ! q)"
  show ?thesis
  proof (rule foldE_upt_inv [where I = ?I])
    fix i d1
    assume i: "0 \<le> i" "i < b" and I: "?I i d1"
    have "?p i \<noteq> ?p j" if "j < i" for j
      using inj_onD [OF assms(2), of i j] i that by auto
    then have "?I (Suc i) (d1[?p i := Some (int i)])"
      using I i assms(1) by (auto simp: less_Suc_eq lessThan_Suc)
    moreover have "PutAt d1 (c i) (r i) w (int i) = Inr (d1[?p i := Some (int i)])"
      using I i assms(1) by (simp add: PutAt_def)
    ultimately show "\<exists>d2. PutAt d1 (c i) (r i) w (int i) = Inr d2 \<and> ?I (Suc i) d2"
      by blast
  qed auto
qed

lemma row_cell [simp]: "GetCellPointer i 0 w = i"
  by (simp add: GetCellPointer_def)

lemma first_loop:
  "\<exists>d'. foldE (\<lambda>i d. PutAt d i 0 n (int i)) [0..<n + 1] (replicate ((n + 1) * (m + 1)) None) = Inr d' \<and>
     length d' = (n + 1) * (m + 1) \<and> (\<forall>i \<le> n. d' ! i = Some (int i)) \<and>
     (\<forall>q. n < q \<longrightarrow> q < (n + 1) * (m + 1) \<longrightarrow> d' ! q = None)"
proof -
  have "\<forall>j < n + 1. GetCellPointer j 0 n < length (replicate ((n + 1) * (m + 1)) (None :: int option))"
    by simp
  from PutAt_loop [of "n + 1" "\<lambda>i. i" "\<lambda>_. 0", OF this]
  show ?thesis by (auto simp: less_Suc_eq_le)
qed

lemma column_cell_inj: "inj_on (\<lambda>j. GetCellPointer 0 j w) A"
  using cell_inj [of 0 w 0] by (simp add: inj_on_def)

lemma LD_init_filled:
  assumes "n \<noteq> 0"
  shows "\<exists>d. bindE (foldE (\<lambda>i d. PutAt d i 0 n (int i)) [0..<n + 1] (replicate ((n + 1) * (n + 1)) None))
            (foldE (\<lambda>j d. PutAt d 0 j n (int j)) [0..<n + 1]) = Inr d \<and> filled s t n 1 1 d"
proof -
  obtain d1 where d1: "foldE (\<lambda>i d. PutAt d i 0 n (int i)) [0..<n + 1]
      (replicate ((n + 1) * (n + 1)) None) = Inr d1"
    "length d1 = (n + 1) * (n + 1)" "\<forall>i \<le> n. d1 ! i = Some (int i)"
    using first_loop [of n n] by blast
  have "\<forall>j < n + 1. GetCellPointer 0 j n < length d1"
    using cell_bound [of 0 n] d1(2) by simp
  from PutAt_loop [of "n + 1" "\<lambda>_. 0" "\<lambda>j. j", OF this column_cell_inj]
  obtain d2 where d2: "foldE (\<lambda>j d. PutAt d 0 j n (int j)) [0..<n + 1] d1 = Inr d2"
    "length d2 = length d1" "\<forall>j < n + 1. d2 ! GetCellPointer 0 j n = Some (int j)"
    "\<forall>q. q \<notin> (\<lambda>j. GetCellPointer 0 j n) ` {..<n + 1} \<longrightarrow> d2 ! q = d1 ! q"
    by blast
  have row: "d2 ! a = Some (int a)" if "a \<le> n" for a
  proof (cases "a = 0")
    case True
    then show ?thesis using d2(3) by (metis add_gr_0 less_one of_nat_0 row_cell)
  next
    case False
    then have "a \<notin> (\<lambda>j. GetCellPointer 0 j n) ` {..<n + 1}"
      using cell_inj [of a n 0 0] that by auto
    then show ?thesis using d2(4) d1(3) that by simp
  qed
  have "filled s t n 1 1 d2"
    using d2(2,3) d1(2) row by (auto simp: filled_def less_Suc_eq_le)
  then show ?thesis using d1(1) d2(1) by auto
qed

lemma LD_fill_equal:
  assumes "n \<noteq> 0"
  shows "LD_fill s t n n (replicate ((n + 1) * (n + 1)) None) = Inr (int (lev s t n n))"
proof -
  obtain d where d: "bindE (foldE (\<lambda>i d. PutAt d i 0 n (int i)) [0..<n + 1]
      (replicate ((n + 1) * (n + 1)) None)) (foldE (\<lambda>j d. PutAt d 0 j n (int j)) [0..<n + 1]) = Inr d"
    "filled s t n 1 1 d"
    using LD_init_filled [OF assms] by blast
  then obtain d0 where d0: "foldE (\<lambda>i d. PutAt d i 0 n (int i)) [0..<n + 1]
      (replicate ((n + 1) * (n + 1)) None) = Inr d0"
    "foldE (\<lambda>j d. PutAt d 0 j n (int j)) [0..<n + 1] d0 = Inr d"
    by (auto simp only: bindE_eq_Inr)
  obtain d' where d': "foldE (\<lambda>i d. foldE (\<lambda>j d. LD_cell s t n i j d) [1..<n + 1] d) [1..<n + 1] d = Inr d'"
    "filled s t n (n + 1) 1 d'"
    using LD_rows_filled [OF d(2) assms] by blast
  have "GetAt d' n n n = Inr (int (lev s t n n))"
    using filled_GetAt [OF d'(2)] by simp
  then show ?thesis unfolding LD_fill_def by (simp only: d0 d'(1) bindE.simps)
qed

lemma LD_equal_length:
  assumes "length s = length t" and "NUL \<notin> set s" "NUL \<notin> set t"
    and "(length s + 1) * (length s + 1) * 4 < 2 ^ 31"
  shows "LD_cstr s t = Inr (int (edit_distance s t))"
proof -
  have "\<not> 2 ^ 31 \<le> (length s + 1) * (length t + 1) * 4" using assms(1,4) by simp
  then show ?thesis
    using LD_fill_equal [of "length s" s t] assms(1)
    unfolding LD_cstr_def Let_def c_str_id [OF assms(2)] c_str_id [OF assms(3)]
    by (cases "length s = 0") (simp_all only: edit_distance_def refl if_False if_True lev_0_right
        not_False_eq_True)
qed

subsection \<open>Strings of different lengths\<close>

text \<open>
  The strides differ.  A longer second string makes the column initialisation write past the end
  of the block; a shorter one leaves the cell of row \<open>m\<close>, column 0 unwritten, and the fill of the
  first column of results reads it.
\<close>

lemma LD_fill_longer:
  assumes "n < m"
  shows "LD_fill s t n m (replicate ((n + 1) * (m + 1)) None) = Inl OutOfBounds"
proof -
  obtain d where d: "foldE (\<lambda>i d. PutAt d i 0 n (int i)) [0..<n + 1]
      (replicate ((n + 1) * (m + 1)) None) = Inr d" "length d = (n + 1) * (m + 1)"
    using first_loop [of n m] by blast
  have m: "(n + 1) * (m + 1) \<le> GetCellPointer 0 m m"
    using assms unfolding GetCellPointer_def by (simp add: mult_le_mono1 del: mult_Suc mult_Suc_right)
  have "foldE (\<lambda>j d. PutAt d 0 j m (int j)) [0..<m + 1] d = Inl OutOfBounds"
    by (rule foldE_upt_fail [where k = m and I = "\<lambda>_ d. length d = (n + 1) * (m + 1)"])
      (use d(2) m in \<open>auto simp: PutAt_def Let_def\<close>)
  then show ?thesis unfolding LD_fill_def by (simp only: d bindE.simps)
qed

lemma GetAt_cases: "GetCellPointer a b w < length d \<Longrightarrow> GetAt d a b w = Inl UninitRead \<or> (\<exists>x. GetAt d a b w = Inr x)"
  by (auto simp: GetAt_def split: option.splits)

lemma LD_cell_shorter:
  assumes "length d = (n + 1) * (m + 1)" and "1 \<le> i" "i \<le> n" "1 \<le> j" "j \<le> m"
  shows "LD_cell s t n i j d = Inl UninitRead \<or>
     (\<exists>x. LD_cell s t n i j d = Inr (d[GetCellPointer i j n := Some x]))"
proof -
  have "GetCellPointer (i - 1) j n < length d" "GetCellPointer i (j - 1) n < length d"
    "GetCellPointer (i - 1) (j - 1) n < length d" "GetCellPointer i j n < length d"
    using assms cell_bound [of _ n _ m] by auto
  then show ?thesis
    using GetAt_cases [of "i - 1" j n d] GetAt_cases [of i "j - 1" n d]
      GetAt_cases [of "i - 1" "j - 1" n d]
    by (auto simp: LD_cell_def PutAt_def Let_def simp del: Minimum_eq)
qed

lemma LD_fill_shorter:
  assumes "m < n" and "1 \<le> m"
  shows "LD_fill s t n m (replicate ((n + 1) * (m + 1)) None) = Inl UninitRead"
proof -
  let ?z = "GetCellPointer 0 m n"
  obtain d0 where d0: "foldE (\<lambda>i d. PutAt d i 0 n (int i)) [0..<n + 1]
      (replicate ((n + 1) * (m + 1)) None) = Inr d0" "length d0 = (n + 1) * (m + 1)"
    "\<forall>q. n < q \<longrightarrow> q < (n + 1) * (m + 1) \<longrightarrow> d0 ! q = None"
    using first_loop [of n m] by blast
  have "1 * (n + 1) \<le> m * (n + 1)" using assms(2) by (rule mult_le_mono1)
  then have z: "n < ?z" "?z < (n + 1) * (m + 1)"
    using cell_bound [of 0 n m m] by (auto simp: GetCellPointer_def)
  have col: "GetCellPointer 0 j m < ?z" if "j \<le> m" for j
  proof -
    have "j * (m + 1) \<le> m * (m + 1)" using that by (rule mult_le_mono1)
    also have "\<dots> < m * (n + 1)" using assms by (intro mult_strict_left_mono) auto
    finally show ?thesis by (simp add: GetCellPointer_def)
  qed
  have "\<forall>j < m + 1. GetCellPointer 0 j m < length d0"
    using col z d0(2) by (metis Suc_eq_plus1 less_Suc_eq_le order_less_trans)
  from PutAt_loop [of "m + 1" "\<lambda>_. 0" "\<lambda>j. j", OF this column_cell_inj]
  obtain d where d: "foldE (\<lambda>j d. PutAt d 0 j m (int j)) [0..<m + 1] d0 = Inr d"
    "length d = length d0"
    "\<forall>q. q \<notin> (\<lambda>j. GetCellPointer 0 j m) ` {..<m + 1} \<longrightarrow> d ! q = d0 ! q"
    by blast
  have "?z \<notin> (\<lambda>j. GetCellPointer 0 j m) ` {..<m + 1}"
  proof
    assume "?z \<in> (\<lambda>j. GetCellPointer 0 j m) ` {..<m + 1}"
    then obtain j where "j < m + 1" "?z = GetCellPointer 0 j m" by blast
    with col [of j] show False by simp
  qed
  then have dz: "d ! ?z = None" using d(3) d0(3) z by simp
  let ?I = "\<lambda>(_::nat) (d :: heap_block). length d = (n + 1) * (m + 1) \<and> d ! ?z = None"
  have first: "foldE (\<lambda>j d. LD_cell s t n 1 j d) [1..<m + 1] d = Inl UninitRead"
  proof (rule foldE_upt_fail [where k = m and I = ?I])
    show "1 \<le> m" "m < m + 1" "?I 1 d" using assms d(2) d0(2) dz by simp_all
  next
    fix j d1
    assume j: "1 \<le> j" "j < m" and I: "?I j d1"
    have "?z \<noteq> GetCellPointer 1 j n" using cell_inj [of 0 n 1 m j] assms by simp
    then show "LD_cell s t n 1 j d1 = Inl UninitRead \<or>
        (\<exists>d2. LD_cell s t n 1 j d1 = Inr d2 \<and> ?I (Suc j) d2)"
      using LD_cell_shorter [of d1 n m 1 j s t] I j assms by auto
  next
    fix d1
    assume I: "?I m d1"
    then have "GetAt d1 0 m n = Inl UninitRead" using z by (simp add: GetAt_def)
    then show "LD_cell s t n 1 m d1 = Inl UninitRead" by (simp add: LD_cell_def Let_def)
  qed
  have "[1..<n + 1] = 1 # [2..<n + 1]" using assms by (simp add: upt_conv_Cons numeral_2_eq_2)
  then have "foldE (\<lambda>i d. foldE (\<lambda>j d. LD_cell s t n i j d) [1..<m + 1] d) [1..<n + 1] d = Inl UninitRead"
    by (simp only: foldE.simps first bindE.simps)
  then show ?thesis unfolding LD_fill_def by (simp only: d0(1) d(1) bindE.simps)
qed


text \<open>Together: the overload is safe exactly when one string is empty or the lengths agree.\<close>

text \<open>C14.  For strings of one length (short enough for the size computation to fit in an \<open>int\<close>)
  \<open>LD(const char*, const char*)\<close> touches only initialised cells inside its block and returns the
  least number of insertions, deletions and substitutions that turn the first into the second.\<close>

theorem LD_cstr_edit_distance:
  assumes "length s = length t" and "NUL \<notin> set s" "NUL \<notin> set t"
    and "(length s + 1) * (length s + 1) * 4 < 2 ^ 31"
  shows "\<exists>k. LD_cstr s t = Inr (int k) \<and> edits s t k \<and> (\<forall>k'. edits s t k' \<longrightarrow> k \<le> k')"
  using LD_equal_length [OF assms] edit_distance_least [of s t] by blast

theorem LD_cstr_edit_distance_witness:
  "\<exists>k. LD_cstr ''cat'' ''cut'' = Inr (int k) \<and> edits ''cat'' ''cut'' k \<and>
     (\<forall>k'. edits ''cat'' ''cut'' k' \<longrightarrow> k \<le> k')"
  by (rule LD_cstr_edit_distance) simp_all

lemma LD_different_lengths:
  assumes "s \<noteq> []" "t \<noteq> []" "length s \<noteq> length t" "NUL \<notin> set s" "NUL \<notin> set t"
    and "(length s + 1) * (length t + 1) * 4 < 2 ^ 31"
  shows "LD_cstr s t = Inl (if length s < length t then OutOfBounds else UninitRead)"
proof -
  have c: "c_str s = s" "c_str t = t" using assms(4,5) by (simp_all add: c_str_id)
  have "\<not> 2 ^ 31 \<le> (length s + 1) * (length t + 1) * 4" using assms(6) by (simp only: not_le)
  then have "LD_cstr s t = LD_fill s t (length s) (length t)
      (replicate ((length s + 1) * (length t + 1)) None)"
    using assms(1,2) unfolding LD_cstr_def Let_def c by (simp only: length_0_conv if_False)
  then show ?thesis
    using LD_fill_longer [of "length s" "length t" s t] assms
      LD_fill_shorter [of "length t" "length s" s t] by (simp add: Suc_le_eq)
qed

text \<open>For two non-empty strings of different lengths the same function leaves defined
  behaviour: if the second is longer, initialising column 0 with the stride \<open>m\<close> writes past the end
  of the \<open>malloc\<close>ed block; if it is shorter, an uninitialised cell is read.\<close>

theorem LD_cstr_different_lengths:
  assumes "s \<noteq> []" "t \<noteq> []" "length s \<noteq> length t" "NUL \<notin> set s" "NUL \<notin> set t"
    and "(length s + 1) * (length t + 1) * 4 < 2 ^ 31"
  shows "LD_cstr s t = Inl (if length s < length t then OutOfBounds else UninitRead)"
  using assms by (rule LD_different_lengths)

theorem LD_cstr_different_lengths_witness:
  "LD_cstr ''ab'' ''abc'' = Inl OutOfBounds"
  using LD_cstr_different_lengths [of "''ab''" "''abc''"] by simp

section \<open>\<open>LD(std::string, std::string)\<close>: trimming, then a matrix with transpositions\<close>

function skip_prefix :: "bytes \<Rightarrow> bytes \<Rightarrow> nat \<Rightarrow> nat \<Rightarrow> nat" where
  "skip_prefix s t i minlen =
     (if char_at s i = char_at t i \<and> i < minlen then skip_prefix s t (i + 1) minlen else i)"
  by pat_completeness auto
termination
  by (relation "measure (\<lambda>(s, t, i, minlen). minlen - i)") auto

fun trim_suffix :: "bytes \<Rightarrow> bytes \<Rightarrow> nat \<Rightarrow> nat \<Rightarrow> nat \<Rightarrow> nat \<times> nat" where
  "trim_suffix s t i j k =
     (if char_at s j = char_at t k \<and> i < j \<and> i < k then trim_suffix s t i (j - 1) (k - 1)
      else (j, k))"

declare skip_prefix.simps [simp del] trim_suffix.simps [simp del]

text \<open>The matrix: \<open>n + 1\<close> rows of \<open>m + 1\<close> zeros; an index outside it is an error.\<close>

type_synonym matrix = "int list list"

definition mat_get :: "matrix \<Rightarrow> nat \<Rightarrow> nat \<Rightarrow> int res" where
  "mat_get M i j = (if i < length M \<and> j < length (M ! i) then Inr (M ! i ! j) else Inl OutOfBounds)"

definition mat_put :: "matrix \<Rightarrow> nat \<Rightarrow> nat \<Rightarrow> int \<Rightarrow> matrix res" where
  "mat_put M i j x =
     (if i < length M \<and> j < length (M ! i) then Inr (M[i := (M ! i)[j := x]]) else Inl OutOfBounds)"

definition LD_trans :: "bytes \<Rightarrow> bytes \<Rightarrow> nat \<Rightarrow> nat \<Rightarrow> matrix \<Rightarrow> int \<Rightarrow> int res" where
  "LD_trans source target i j M cell =
     (if 2 < i \<and> 2 < j then
        bindE (mat_get M (i - 2) (j - 2)) (\<lambda>m0.
          let trans = m0 + 1;
              trans = (if source ! (i - 2) \<noteq> target ! (j - 1) then trans + 1 else trans);
              trans = (if source ! (i - 1) \<noteq> target ! (j - 2) then trans + 1 else trans)
          in Inr (if cell > trans then trans else cell))
      else Inr cell)"

definition LD_step :: "bytes \<Rightarrow> bytes \<Rightarrow> nat \<Rightarrow> nat \<Rightarrow> matrix \<Rightarrow> matrix res" where
  "LD_step source target i j M =
     (let cost = (if source ! (i - 1) = target ! (j - 1) then 0 else 1)
      in bindE (mat_get M (i - 1) j) (\<lambda>above.
         bindE (mat_get M i (j - 1)) (\<lambda>left.
         bindE (mat_get M (i - 1) (j - 1)) (\<lambda>diag.
         bindE (LD_trans source target i j M (min (above + 1) (min (left + 1) (diag + cost))))
           (mat_put M i j)))))"

definition LD_matrix :: "bytes \<Rightarrow> bytes \<Rightarrow> nat \<Rightarrow> nat \<Rightarrow> int res" where
  "LD_matrix source target n m =
     bindE (foldE (\<lambda>i M. mat_put M i 0 (int i)) [0..<n + 1]
              (replicate (n + 1) (replicate (m + 1) 0))) (\<lambda>M.
     bindE (foldE (\<lambda>j M. mat_put M 0 j (int j)) [0..<m + 1] M) (\<lambda>M.
     bindE (foldE (\<lambda>i M. foldE (\<lambda>j M. LD_step source target i j M) [1..<m + 1] M) [1..<n + 1] M)
       (\<lambda>M. mat_get M n m)))"

definition LD_string :: "bytes \<Rightarrow> bytes \<Rightarrow> int res" where
  "LD_string s t =
     (let j = length s; k = length t
      in if j = 0 then Inr (int k)
         else if k = 0 then Inr (int j)
         else
           let minlen = min j k;
               i = skip_prefix s t 0 minlen;
               (j, k) = trim_suffix s t i j k
           in bindE (substr s i j) (\<lambda>source.
              bindE (substr t i k) (\<lambda>target.
                let n = length source; m = length target
                in if n = 0 then Inr (int m)
                   else if m = 0 then Inr (int n)
                   else LD_matrix source target n m)))"


subsection \<open>The matrix implements a recurrence\<close>

text \<open>
  \<open>osa\<close>: edit distance with a transposition step, which the source applies from the third row
  and column on.
\<close>

fun osa :: "bytes \<Rightarrow> bytes \<Rightarrow> nat \<Rightarrow> nat \<Rightarrow> nat" where
  "osa s t 0 j = j"
| "osa s t (Suc i) 0 = Suc i"
| "osa s t (Suc i) (Suc j) =
     (let cell = min (osa s t i (Suc j) + 1)
        (min (osa s t (Suc i) j + 1) (osa s t i j + (if s ! i = t ! j then 0 else 1)))
      in if 1 < i \<and> 1 < j then
           min cell (osa s t (i - 1) (j - 1) + 1 + (if s ! (i - 1) = t ! j then 0 else 1)
             + (if s ! i = t ! (j - 1) then 0 else 1))
         else cell)"

lemma osa_0_right [simp]: "osa s t i 0 = i"
  by (cases i) auto

lemma osa_le_max: "osa s t i j \<le> max i j"
proof (induction s t i j rule: osa.induct)
  case (3 s t i j)
  have "osa s t (Suc i) (Suc j) \<le> osa s t i j + 1" by (auto simp: Let_def min_def)
  also have "\<dots> \<le> max (Suc i) (Suc j)" using 3 by (simp add: max_def split: if_splits)
  finally show ?case .
qed auto

lemma osa_sym: "osa s t i j = osa t s j i"
proof (induction s t i j rule: osa.induct)
  case (3 s t i j)
  have tr: "1 < i \<and> 1 < j \<Longrightarrow> osa s t (i - 1) (j - 1) = osa t s (j - 1) (i - 1)"
    using 3 by blast
  then show ?case
    using 3(1,2,3)
    by (cases "s ! i = t ! j"; cases "s ! (i - 1) = t ! j"; cases "s ! i = t ! (j - 1)";
        cases "1 < i"; cases "1 < j")
      (simp_all add: Let_def min.commute min.left_commute)
qed auto

text \<open>\<open>mfilled\<close>: the matrix has its shape and the cells filled so far hold the recurrence.\<close>

definition mshape :: "nat \<Rightarrow> nat \<Rightarrow> matrix \<Rightarrow> bool" where
  "mshape n m M \<longleftrightarrow> length M = n + 1 \<and> (\<forall>i \<le> n. length (M ! i) = m + 1)"

lemma mat_get_shape: "mshape n m M \<Longrightarrow> i \<le> n \<Longrightarrow> j \<le> m \<Longrightarrow> mat_get M i j = Inr (M ! i ! j)"
  by (simp add: mat_get_def mshape_def)

lemma mat_put_shape:
  "mshape n m M \<Longrightarrow> i \<le> n \<Longrightarrow> j \<le> m \<Longrightarrow> mat_put M i j x = Inr (M[i := (M ! i)[j := x]])"
  by (simp add: mat_put_def mshape_def)

lemma mshape_put: "mshape n m M \<Longrightarrow> mshape n m (M[i := (M ! i)[j := x]])"
  by (cases "i < length M") (auto simp: mshape_def nth_list_update)

lemma mat_nth_put:
  "mshape n m M \<Longrightarrow> i \<le> n \<Longrightarrow> j \<le> m \<Longrightarrow> a \<le> n \<Longrightarrow>
     M[i := (M ! i)[j := x]] ! a ! b = (if a = i \<and> b = j then x else M ! a ! b)"
  by (auto simp: mshape_def nth_list_update)

definition mfilled :: "bytes \<Rightarrow> bytes \<Rightarrow> nat \<Rightarrow> nat \<Rightarrow> nat \<Rightarrow> nat \<Rightarrow> matrix \<Rightarrow> bool" where
  "mfilled s t n m i j M \<longleftrightarrow> mshape n m M \<and>
     (\<forall>a \<le> n. \<forall>b \<le> m. a = 0 \<or> b = 0 \<or> a < i \<or> (a = i \<and> b < j) \<longrightarrow> M ! a ! b = int (osa s t a b))"

lemma mfilledD:
  "mfilled s t n m i j M \<Longrightarrow> a \<le> n \<Longrightarrow> b \<le> m \<Longrightarrow> a = 0 \<or> b = 0 \<or> a < i \<or> (a = i \<and> b < j) \<Longrightarrow>
     mat_get M a b = Inr (int (osa s t a b))"
  unfolding mfilled_def using mat_get_shape by metis

lemma LD_step_filled:
  assumes "mfilled s t n m i j M" and "1 \<le> i" "i \<le> n" "1 \<le> j" "j \<le> m"
  shows "\<exists>M'. LD_step s t i j M = Inr M' \<and> mfilled s t n m i (Suc j) M'"
proof -
  obtain i' j' where ij: "i = Suc i'" "j = Suc j'" using assms by (cases i; cases j) auto
  have sh: "mshape n m M" using assms(1) by (simp add: mfilled_def)
  let ?x = "int (osa s t i j)"
  let ?M = "M[i := (M ! i)[j := ?x]]"
  let ?cell = "min (int (osa s t i' j) + 1) (min (int (osa s t i j') + 1)
    (int (osa s t i' j') + (if s ! i' = t ! j' then 0 else 1)))"
  have get: "mat_get M i' j = Inr (int (osa s t i' j))" "mat_get M i j' = Inr (int (osa s t i j'))"
    "mat_get M i' j' = Inr (int (osa s t i' j'))"
    "1 < i' \<Longrightarrow> 1 < j' \<Longrightarrow> mat_get M (i' - 1) (j' - 1) = Inr (int (osa s t (i' - 1) (j' - 1)))"
    using assms by (auto intro!: mfilledD [OF assms(1)] simp: ij)
  have x: "LD_trans s t i j M ?cell = Inr ?x"
    using get(4) by (auto simp: LD_trans_def ij Let_def min_def)
  have "LD_step s t i j M = Inr ?M"
    using get(1-3) x mat_put_shape [OF sh, of i j ?x] assms
    unfolding LD_step_def Let_def by (simp add: ij)
  moreover have "mfilled s t n m i (Suc j) ?M"
    using assms mshape_put [OF sh] mat_nth_put [OF sh assms(3,5)]
    unfolding mfilled_def by (metis less_Suc_eq)
  ultimately show ?thesis by blast
qed

lemma mfilled_next: "mfilled s t n m i (Suc m) M \<Longrightarrow> mfilled s t n m (Suc i) 1 M"
  unfolding mfilled_def by (metis less_Suc_eq less_Suc_eq_le less_one)

lemma LD_matrix_init:
  "\<exists>M. bindE (foldE (\<lambda>i M. mat_put M i 0 (int i)) [0..<n + 1]
         (replicate (n + 1) (replicate (m + 1) 0)))
       (foldE (\<lambda>j M. mat_put M 0 j (int j)) [0..<m + 1]) = Inr M \<and> mfilled s t n m 1 1 M"
proof -
  let ?I = "\<lambda>i M. mshape n m M \<and> (\<forall>a < i. M ! a ! 0 = int a)"
  have "\<exists>M. foldE (\<lambda>i M. mat_put M i 0 (int i)) [0..<n + 1]
      (replicate (n + 1) (replicate (m + 1) 0)) = Inr M \<and> ?I (n + 1) M"
  proof (rule foldE_upt_inv [where I = ?I])
    fix i M assume "0 \<le> i" "i < n + 1" "?I i M"
    then show "\<exists>M'. mat_put M i 0 (int i) = Inr M' \<and> ?I (Suc i) M'"
      using mat_put_shape [of n m M i 0] mshape_put [of n m M i 0] mat_nth_put [of n m M i 0]
      by (auto simp: less_Suc_eq less_Suc_eq_le)
  qed (simp_all add: mshape_def nth_append del: replicate.simps)
  then obtain M1 where M1: "foldE (\<lambda>i M. mat_put M i 0 (int i)) [0..<n + 1]
      (replicate (n + 1) (replicate (m + 1) 0)) = Inr M1" "mshape n m M1" "\<forall>a < n + 1. M1 ! a ! 0 = int a"
    by blast
  let ?J = "\<lambda>j M. mshape n m M \<and> (\<forall>a < n + 1. M ! a ! 0 = int a) \<and> (\<forall>b < j. M ! 0 ! b = int b)"
  have "\<exists>M. foldE (\<lambda>j M. mat_put M 0 j (int j)) [0..<m + 1] M1 = Inr M \<and> ?J (m + 1) M"
  proof (rule foldE_upt_inv [where I = ?J])
    fix j M assume "0 \<le> j" "j < m + 1" "?J j M"
    then show "\<exists>M'. mat_put M 0 j (int j) = Inr M' \<and> ?J (Suc j) M'"
      using mat_put_shape [of n m M 0 j] mshape_put [of n m M 0 j] mat_nth_put [of n m M 0 j]
      by (auto simp: less_Suc_eq less_Suc_eq_le)
  qed (use M1 in simp_all)
  then show ?thesis using M1(1) by (auto simp: mfilled_def less_Suc_eq_le)
qed

lemma LD_matrix_osa:
  assumes "1 \<le> n" "1 \<le> m"
  shows "LD_matrix s t n m = Inr (int (osa s t n m))"
proof -
  obtain M where M: "bindE (foldE (\<lambda>i M. mat_put M i 0 (int i)) [0..<n + 1]
         (replicate (n + 1) (replicate (m + 1) 0)))
       (foldE (\<lambda>j M. mat_put M 0 j (int j)) [0..<m + 1]) = Inr M" "mfilled s t n m 1 1 M"
    using LD_matrix_init by blast
  then obtain M0 where M0: "foldE (\<lambda>i M. mat_put M i 0 (int i)) [0..<n + 1]
      (replicate (n + 1) (replicate (m + 1) 0)) = Inr M0"
    "foldE (\<lambda>j M. mat_put M 0 j (int j)) [0..<m + 1] M0 = Inr M"
    by (auto simp only: bindE_eq_Inr)
  have row: "\<exists>M2. foldE (\<lambda>j M. LD_step s t i j M) [1..<m + 1] M1 = Inr M2 \<and> mfilled s t n m i (m + 1) M2"
    if "1 \<le> i" "i \<le> n" "mfilled s t n m i 1 M1" for i M1
    by (rule foldE_upt_inv [where I = "mfilled s t n m i"])
      (use that in \<open>auto intro!: LD_step_filled\<close>)
  have "\<exists>M'. foldE (\<lambda>i M. foldE (\<lambda>j M. LD_step s t i j M) [1..<m + 1] M) [1..<n + 1] M = Inr M' \<and>
      mfilled s t n m (n + 1) 1 M'"
  proof (rule foldE_upt_inv [where I = "\<lambda>i. mfilled s t n m i 1"])
    fix i M1 assume "1 \<le> i" "i < n + 1" "mfilled s t n m i 1 M1"
    then show "\<exists>M2. foldE (\<lambda>j M. LD_step s t i j M) [1..<m + 1] M1 = Inr M2 \<and> mfilled s t n m (Suc i) 1 M2"
      using row [of i M1] mfilled_next [of s t n m i] by auto
  qed (use M(2) in simp_all)
  then obtain M' where "foldE (\<lambda>i M. foldE (\<lambda>j M. LD_step s t i j M) [1..<m + 1] M) [1..<n + 1] M = Inr M'"
    "mat_get M' n m = Inr (int (osa s t n m))"
    using mfilledD [of s t n m "n + 1" 1 _ n m] by auto
  then show ?thesis unfolding LD_matrix_def by (simp only: M0 bindE.simps)
qed


subsection \<open>Trimming\<close>

lemma skip_prefix_bounds: "i \<le> minlen \<Longrightarrow> i \<le> skip_prefix s t i minlen \<and> skip_prefix s t i minlen \<le> minlen"
proof (induction s t i minlen rule: skip_prefix.induct)
  case (1 s t i minlen)
  then show ?case by (auto simp: skip_prefix.simps [of s t i minlen])
qed

lemma skip_prefix_common:
  "i \<le> a \<Longrightarrow> a < skip_prefix s t i minlen \<Longrightarrow> char_at s a = char_at t a"
proof (induction s t i minlen rule: skip_prefix.induct)
  case (1 s t i minlen)
  then show ?case
    by (cases "a = i") (auto simp: skip_prefix.simps [of s t i minlen] split: if_splits)
qed

lemma skip_prefix_sym: "skip_prefix s t i minlen = skip_prefix t s i minlen"
proof (induction s t i minlen rule: skip_prefix.induct)
  case (1 s t i minlen)
  then show ?case
    by (simp add: skip_prefix.simps [of s t i minlen] skip_prefix.simps [of t s i minlen] eq_commute)
qed

lemma skip_prefix_self: "skip_prefix s s i minlen = max i minlen"
proof (induction "minlen - i" arbitrary: i)
  case (Suc n)
  then have "skip_prefix s s (i + 1) minlen = max (i + 1) minlen" by simp
  moreover have "i < minlen" using Suc(2) by arith
  ultimately show ?case by (simp add: skip_prefix.simps [of s s i minlen])
qed (simp add: skip_prefix.simps)

lemma LD_string_Nil: "LD_string [] t = Inr (int (length t))" "LD_string t [] = Inr (int (length t))"
  by (simp_all add: LD_string_def Let_def)

lemma trim_suffix_bounds: "trim_suffix s t i j k = (j', k') \<Longrightarrow> j' \<le> j \<and> k' \<le> k"
proof (induction s t i j k rule: trim_suffix.induct)
  case (1 s t i j k)
  then show ?case by (fastforce simp: trim_suffix.simps [of s t i j k] split: if_splits)
qed

lemma trim_suffix_sym: "trim_suffix t s i k j = prod.swap (trim_suffix s t i j k)"
proof (induction s t i j k rule: trim_suffix.induct)
  case (1 s t i j k)
  then show ?case
    by (simp add: trim_suffix.simps [of s t i j k] trim_suffix.simps [of t s i k j] eq_commute)
qed

lemma trim_suffix_same: "j \<le> Suc (length u) \<Longrightarrow> trim_suffix (x # u) (y # u) 0 j j = (0, 0)"
proof (induction j)
  case 0
  then show ?case by (simp add: trim_suffix.simps)
next
  case (Suc j)
  then show ?case
    by (simp add: trim_suffix.simps [of "x # u" "y # u" 0 "Suc j" "Suc j"] char_at_def)
qed

text \<open>What \<open>LD\<close> returns, in terms of the two trimmed strings \<open>u\<close> and \<open>v\<close>.\<close>

lemma LD_string_trimmed:
  assumes "s \<noteq> []" "t \<noteq> []" and i: "i = skip_prefix s t 0 (min (length s) (length t))"
    and jk: "trim_suffix s t i (length s) (length t) = (j, k)"
    and u: "u = take j (drop i s)" and v: "v = take k (drop i t)"
  shows "LD_string s t = (if u = [] then Inr (int (length v)) else if v = [] then Inr (int (length u))
        else Inr (int (osa u v (length u) (length v))))"
proof -
  have "i \<le> length s" "i \<le> length t"
    using skip_prefix_bounds [of 0 "min (length s) (length t)" s t] by (simp_all add: i)
  then have "substr s i j = Inr u" "substr t i k = Inr v" by (simp_all add: substr_def u v)
  then have "LD_string s t = (if u = [] then Inr (int (length v)) else if v = [] then Inr (int (length u))
        else LD_matrix u v (length u) (length v))"
    using assms(1,2) jk by (simp add: LD_string_def Let_def flip: i)
  then show ?thesis
    using LD_matrix_osa [of "length u" "length v" u v] by (simp add: Suc_le_eq)
qed

lemma LD_string_bounds: "\<exists>d. LD_string s t = Inr (int d) \<and> d \<le> max (length s) (length t)"
proof (cases "s = [] \<or> t = []")
  case True
  then have "LD_string s t = Inr (int (max (length s) (length t)))" by (auto simp: LD_string_Nil)
  then show ?thesis by blast
next
  case False
  define i where "i = skip_prefix s t 0 (min (length s) (length t))"
  obtain j k where jk: "trim_suffix s t i (length s) (length t) = (j, k)"
    by (cases "trim_suffix s t i (length s) (length t)")
  define u v where "u = take j (drop i s)" and "v = take k (drop i t)"
  have "length u \<le> length s" "length v \<le> length t" by (simp_all add: u_def v_def)
  moreover have "osa u v (length u) (length v) \<le> max (length u) (length v)" by (rule osa_le_max)
  ultimately show ?thesis
    using LD_string_trimmed [OF _ _ i_def jk u_def v_def] False by auto
qed

text \<open>\<open>LD(std::string, std::string)\<close> always returns: no index leaves the matrix, no
  \<open>substr\<close> throws, and the result lies between 0 and the length of the longer string.\<close>

theorem LD_string_total: "\<exists>d. LD_string s t = Inr (int d) \<and> d \<le> max (length s) (length t)"
  by (rule LD_string_bounds)

lemma LD_string_sym: "LD_string s t = LD_string t s"
proof (cases "s = [] \<or> t = []")
  case True
  then show ?thesis by (auto simp: LD_string_Nil)
next
  case False
  define i where "i = skip_prefix s t 0 (min (length s) (length t))"
  have i': "i = skip_prefix t s 0 (min (length t) (length s))"
    using skip_prefix_sym by (simp add: i_def min.commute)
  obtain j k where jk: "trim_suffix s t i (length s) (length t) = (j, k)"
    by (cases "trim_suffix s t i (length s) (length t)")
  then have kj: "trim_suffix t s i (length t) (length s) = (k, j)"
    using trim_suffix_sym [of t s i "length t" "length s"] by simp
  define u v where "u = take j (drop i s)" and "v = take k (drop i t)"
  show ?thesis
    using LD_string_trimmed [OF _ _ i_def jk u_def v_def] LD_string_trimmed [OF _ _ i' kj v_def u_def]
      False osa_sym [of u v] by auto
qed

lemma LD_string_self: "LD_string s s = Inr 0"
proof (cases "s = []")
  case False
  have i: "skip_prefix s s 0 (length s) = length s" by (simp add: skip_prefix_self)
  show ?thesis using False by (simp add: LD_string_def i Let_def substr_def trim_suffix.simps)
qed (simp add: LD_string_def)

text \<open>It behaves as a distance in two respects: it is symmetric, and a string is at distance 0
  from itself.\<close>

theorem LD_string_sym_self: "LD_string s t = LD_string t s \<and> LD_string s s = Inr 0"
  using LD_string_sym LD_string_self by blast

text \<open>But it does not tell different strings apart: trimming the suffix drops the character the
  loop stopped at, so any two strings that differ in their first character only are at distance 0,
  although their edit distance is 1.\<close>

theorem LD_string_first_char:
  assumes "x \<noteq> y"
  shows "LD_string (x # u) (y # u) = Inr 0 \<and> edit_distance (x # u) (y # u) = 1"
proof
  have "skip_prefix (x # u) (y # u) 0 (Suc (length u)) = 0"
    using assms by (simp add: skip_prefix.simps char_at_def)
  then show "LD_string (x # u) (y # u) = Inr 0"
    by (simp add: LD_string_def trim_suffix_same substr_def)
  let ?s = "x # u" and ?t = "y # u"
  have "edits ?s ?t (Suc 0)" using edits_refl by (rule edits_subst)
  then have "edit_distance ?s ?t \<le> 1" using edit_distance_least [of ?s ?t] by auto
  moreover have "\<not> edits ?s ?t 0" using assms by (auto elim: edits_ConsE)
  then have "edit_distance ?s ?t \<noteq> 0" using edit_distance_least [of ?s ?t] by metis
  ultimately show "edit_distance ?s ?t = 1" by simp
qed

theorem LD_string_first_char_witness: "LD_string ''cat'' ''rat'' = Inr 0"
  using LD_string_first_char [of "CHR ''c''" "CHR ''r''" "''at''"] by simp

section \<open>What the callers rely on\<close>

text \<open>
  A distance, where it may be used: it returns, between 0 and the longer length, and 0 for a
  string and itself.
\<close>

locale string_distance =
  fixes ld :: "bytes \<Rightarrow> bytes \<Rightarrow> int res"
    and usable :: "bytes \<Rightarrow> bytes \<Rightarrow> bool"
  assumes ld_bound: "usable s t \<Longrightarrow> \<exists>d. ld s t = Inr (int d) \<and> d \<le> max (length s) (length t)"
    and ld_self: "usable s s \<Longrightarrow> ld s s = Inr 0"
begin

definition same :: "bytes \<Rightarrow> bytes \<Rightarrow> int res" where
  "same s t = bindE (ld s t) (\<lambda>d. Inr (int (max (length s) (length t)) - d))"

lemma same_bound: "usable s t \<Longrightarrow> \<exists>n. same s t = Inr (int n) \<and> n \<le> max (length s) (length t)"
proof -
  assume "usable s t"
  then obtain d where "ld s t = Inr (int d)" "d \<le> max (length s) (length t)" using ld_bound by blast
  then have "same s t = Inr (int (max (length s) (length t) - d))" by (simp add: same_def of_nat_diff)
  then show ?thesis by auto
qed

lemma same_self: "usable s s \<Longrightarrow> same s s = Inr (int (length s))"
  by (simp add: same_def ld_self)

end

definition cstr_usable :: "bytes \<Rightarrow> bytes \<Rightarrow> bool" where
  "cstr_usable s t \<longleftrightarrow> length s = length t \<and> NUL \<notin> set s \<and> NUL \<notin> set t \<and>
     (length s + 1) * (length s + 1) * 4 < 2 ^ 31"

lemma edit_distance_le_max: "edit_distance s t \<le> max (length s) (length t)"
  using lev_le_max by (simp add: edit_distance_def)

lemma edit_distance_self: "edit_distance s s = 0"
  using edit_distance_least [of s s] edits_refl [of s] by fastforce

interpretation cstr: string_distance LD_cstr cstr_usable
proof
  fix s t
  show "cstr_usable s t \<Longrightarrow> \<exists>d. LD_cstr s t = Inr (int d) \<and> d \<le> max (length s) (length t)"
    unfolding cstr_usable_def using LD_equal_length [of s t] edit_distance_le_max [of s t] by blast
  show "cstr_usable s s \<Longrightarrow> LD_cstr s s = Inr 0"
    unfolding cstr_usable_def using LD_equal_length [of s s] edit_distance_self [of s] by (metis of_nat_0)
qed

interpretation str: string_distance LD_string "\<lambda>s t. True"
  by unfold_locales (auto simp: LD_string_self LD_string_bounds)

end
