(* ===== verification/DomAtt.thy ===== *)
theory DomAtt
  imports XpathUtil StyleCompare Distance
begin

text \<open>
  \<open>DisCrawler/DOMAttUtil/nsDomAttUtil.cpp\<close>: measures of the nodes of a document that the browser shows,
  such as depth, links, text, box, and how a node's style resembles its neighbours'.  What the
  browser answers beyond the tree is in the record \<open>browser\<close>; the locale \<open>browser_tree\<close> states how
  siblings follow from the children.  A pointer that may be null is an option.
\<close>

section \<open>The browser\<close>

text \<open>
  \<open>evaluate\<close> is the XPath evaluator, \<open>ownerDocument\<close> and \<open>documentElement\<close> as in the DOM (the owner of a
  document is null), \<open>stripWhitespace\<close> is \<open>nsCString::StripWhitespace\<close>, \<open>styleNames\<close> the names of the
  computed style when there is a view, \<open>anchorHref\<close> and \<open>linkHref\<close> the \<open>href\<close> of a node that is an
  anchor or a \<open>link\<close> element, \<open>areaHref\<close> the attributes \<open>nohref\<close> and \<open>href\<close> of an \<open>area\<close>.
\<close>

record 'n browser =
  page :: "'n dom"
  evaluate :: "bytes \<Rightarrow> 'n \<Rightarrow> 'n list option"
  ownerDocument :: "'n \<Rightarrow> 'n option"
  documentElement :: "'n \<Rightarrow> 'n option"
  textContent :: "'n \<Rightarrow> bytes"
  stripWhitespace :: "bytes \<Rightarrow> bytes"
  previousSibling :: "'n \<Rightarrow> 'n option"
  nextSibling :: "'n \<Rightarrow> 'n option"
  styleNames :: "'n \<Rightarrow> bytes list option"
  propertyValue :: "'n \<Rightarrow> bytes \<Rightarrow> bytes"
  anchorHref :: "'n \<Rightarrow> bytes option"
  linkHref :: "'n \<Rightarrow> bytes option"
  areaHref :: "'n \<Rightarrow> (bool \<times> bytes) option"
  contentDocument :: "'n \<Rightarrow> 'n option"

text \<open>\<open>do_QueryInterface\<close> to an element.\<close>

definition as_element :: "'n dom \<Rightarrow> 'n option \<Rightarrow> 'n option" where
  "as_element d node =
     (case node of None \<Rightarrow> None | Some n \<Rightarrow> if nodeType d n = ELEMENT_NODE then Some n else None)"

section \<open>Depth and links\<close>

partial_function (option) depth_loop :: "'n dom \<Rightarrow> 'n option \<Rightarrow> int \<Rightarrow> int run" where
  "depth_loop d pNode ret =
     (case pNode of
        None \<Rightarrow> Some (Inr ret)
      | Some n \<Rightarrow> bindR (Some (check_int (ret + 1))) (\<lambda>ret. depth_loop d (parentNode d n) ret))"

definition CalNodeDepth :: "'n dom \<Rightarrow> 'n option \<Rightarrow> int run" where
  "CalNodeDepth d node = depth_loop d node 0"

text \<open>
  The nodes an expression finds in a document; the evaluator refuses a document without an element,
  and a null document is followed.
\<close>

definition doc_nodes :: "'n browser \<Rightarrow> 'n option \<Rightarrow> bytes \<Rightarrow> 'n list res" where
  "doc_nodes b doc xpath =
     (case doc of
        None \<Rightarrow> Inl NullDeref
      | Some dc \<Rightarrow> Inr (case documentElement b dc of None \<Rightarrow> [] | Some e \<Rightarrow> GetNodes (evaluate b) e xpath))"

definition GetDocUrlCount :: "'n browser \<Rightarrow> 'n option \<Rightarrow> int res" where
  "GetDocUrlCount b doc = bindE (doc_nodes b doc ''//a[@href]'') (\<lambda>ns. Inr (int_of_size (length ns)))"

definition GetNodeUrlCount :: "'n browser \<Rightarrow> 'n option \<Rightarrow> int res" where
  "GetNodeUrlCount b node =
     (case node of
        None \<Rightarrow> Inl NullDeref
      | Some n \<Rightarrow>
          (case ownerDocument b n of
             None \<Rightarrow> Inr 0
           | Some dc \<Rightarrow> Inr (int_of_size (length (GetSubNodes (evaluate b) n ''.//a[@href]'')))))"

text \<open>The loop over the links of both \<open>UrlDistance\<close> methods.\<close>

fun url_distance :: "'n dom \<Rightarrow> 'n list \<Rightarrow> bytes option \<Rightarrow> int \<Rightarrow> int res" where
  "url_distance d [] lastUrl distValue = Inr distValue"
| "url_distance d (n # ns) lastUrl distValue =
     (case as_element d (Some n) of
        None \<Rightarrow> url_distance d ns lastUrl distValue
      | Some e \<Rightarrow>
          let curUrl = getAttribute d e ''href''
          in case lastUrl of
               None \<Rightarrow> url_distance d ns (Some curUrl) distValue
             | Some u \<Rightarrow>
                 bindE (LD_string u curUrl) (\<lambda>k. bindE (check_int (distValue + k)) (\<lambda>distValue.
                   url_distance d ns (Some curUrl) distValue)))"

definition GetDocUrlDistance :: "'n browser \<Rightarrow> 'n option \<Rightarrow> int res" where
  "GetDocUrlDistance b doc =
     bindE (doc_nodes b doc ''//a[@href]'') (\<lambda>ns. url_distance (page b) ns None 0)"

definition GetNodeUrlDistance :: "'n browser \<Rightarrow> 'n option \<Rightarrow> int res" where
  "GetNodeUrlDistance b node =
     (case node of
        None \<Rightarrow> Inr (- 1)
      | Some n \<Rightarrow>
          (case ownerDocument b n of
             None \<Rightarrow> Inr (- 1)
           | Some dc \<Rightarrow> url_distance (page b) (GetSubNodes (evaluate b) n ''.//a[@href]'') None 0))"

section \<open>Texts\<close>

definition strip_text :: "'n browser \<Rightarrow> bytes \<Rightarrow> bytes" where
  "strip_text b s = stripWhitespace b (filter (\<lambda>c. c \<noteq> NL) s)"

definition GetNodeText_of :: "'n browser \<Rightarrow> 'n option \<Rightarrow> bytes" where
  "GetNodeText_of b node = strip_text b (case node of None \<Rightarrow> [] | Some n \<Rightarrow> textContent b n)"

definition GetDocText :: "'n browser \<Rightarrow> 'n option \<Rightarrow> bytes res" where
  "GetDocText b doc =
     (case doc of
        None \<Rightarrow> Inl NullDeref
      | Some dc \<Rightarrow> Inr (strip_text b (case documentElement b dc of None \<Rightarrow> [] | Some e \<Rightarrow> textContent b e)))"

definition GetNodeOwnText :: "'n browser \<Rightarrow> 'n option \<Rightarrow> bytes res" where
  "GetNodeOwnText b node =
     (case node of
        None \<Rightarrow> Inl NullDeref
      | Some n \<Rightarrow>
          Inr (strip_text b (fold (\<lambda>c s. if nodeType (page b) c = TEXT_NODE then s @ nodeValue (page b) c else s)
                 (kids (page b) n) [])))"

section \<open>Frames\<close>

text \<open>
  The recursion of \<open>GetALLDocumentArray\<close> over the frames \<open>ns\<close>; \<open>supArr\<close> is the array.  A frame without
  a document passes null on, which the path utility follows.
\<close>

definition frame_path :: bytes where
  "frame_path = ''//frame | //iframe''"

partial_function (option) frame_docs :: "'n browser \<Rightarrow> 'n list \<Rightarrow> 'n list \<Rightarrow> 'n list run" where
  "frame_docs b ns supArr =
     (case ns of
        [] \<Rightarrow> Some (Inr supArr)
      | n # rest \<Rightarrow>
          if nodeName (page b) n = ''FRAME'' \<or> nodeName (page b) n = ''IFRAME'' then
            (case contentDocument b n of
               None \<Rightarrow> Some (Inl NullDeref)
             | Some dc \<Rightarrow>
                 bindR (Some (doc_nodes b (Some dc) frame_path)) (\<lambda>frmArr.
                 bindR (frame_docs b frmArr (supArr @ [dc])) (\<lambda>supArr. frame_docs b rest supArr)))
          else frame_docs b rest supArr)"

definition GetALLDocumentArray :: "'n browser \<Rightarrow> 'n option \<Rightarrow> 'n list \<Rightarrow> 'n list run" where
  "GetALLDocumentArray b doc supArr =
     (case doc of
        None \<Rightarrow> Some (Inl NullDeref)
      | Some dc \<Rightarrow> bindR (Some (doc_nodes b doc frame_path)) (\<lambda>frmArr. frame_docs b frmArr (supArr @ [dc])))"

section \<open>Styles of neighbours\<close>

text \<open>The computed style of a node is added to the map.\<close>

definition GetComLayoutInfo :: "'n browser \<Rightarrow> 'n option \<Rightarrow> style \<Rightarrow> style" where
  "GetComLayoutInfo b node lmap =
     (case node of
        None \<Rightarrow> lmap
      | Some n \<Rightarrow>
          (case ownerDocument b n of
             None \<Rightarrow> lmap
           | Some dc \<Rightarrow>
               (case styleNames b n of
                  None \<Rightarrow> lmap
                | Some names \<Rightarrow>
                    fold (\<lambda>name m. if cmap_find m name = None then cmap_insert name (propertyValue b n name) m else m)
                      names lmap)))"

text \<open>The nearest sibling that is an element; \<open>f\<close> steps to the previous or next sibling.\<close>

partial_function (option) sib_element :: "'n dom \<Rightarrow> ('n \<Rightarrow> 'n option) \<Rightarrow> 'n option \<Rightarrow> 'n option option" where
  "sib_element d f sib =
     (case sib of
        None \<Rightarrow> Some None
      | Some n \<Rightarrow> if nodeType d n = ELEMENT_NODE then Some sib else sib_element d f (f n))"

text \<open>The similarity with a sibling is 0 when there is none.\<close>

definition sib_sim :: "'n browser \<Rightarrow> style \<Rightarrow> 'n option \<Rightarrow> flt res" where
  "sib_sim b nodemap ele =
     (case ele of None \<Rightarrow> Inr (Fin 0) | Some e \<Rightarrow> compare_styles nodemap (GetComLayoutInfo b ele []))"

text \<open>The results are \<open>*pDist\<close> and \<open>*lDist\<close>.\<close>

definition CalSibParentDist :: "'n browser \<Rightarrow> 'n option \<Rightarrow> (flt \<times> flt) run" where
  "CalSibParentDist b node =
     (case node of
        None \<Rightarrow> Some (Inl NullDeref)
      | Some n \<Rightarrow>
          let d = page b; nodemap = GetComLayoutInfo b node []
          in Option.bind (sib_element d (previousSibling b) (previousSibling b n)) (\<lambda>pSib.
             bindR (Some (sib_sim b nodemap (as_element d pSib))) (\<lambda>psib.
             Option.bind (sib_element d (nextSibling b) (nextSibling b n)) (\<lambda>nSib.
             bindR (Some (sib_sim b nodemap (as_element d nSib))) (\<lambda>nsib.
               let lDist =
                 (if as_element d nSib \<noteq> None \<and> as_element d pSib \<noteq> None then fdiv f64 (fadd f64 psib nsib) (Fin 2)
                  else if as_element d nSib = None \<and> as_element d pSib = None then Fin 1
                  else fadd f64 psib nsib)
               in bindR (Some (compare_styles nodemap (GetComLayoutInfo b (as_element d (parentNode d n)) [])))
                    (\<lambda>pDist. Some (Inr (pDist, lDist))))))))"

section \<open>Boxes and links\<close>

text \<open>\<open>None\<close> is \<open>NS_ERROR_FAILURE\<close>: the four numbers stay as they are.\<close>

definition GetEleBox :: "'n browser \<Rightarrow> 'n option \<Rightarrow> (int \<times> int \<times> int \<times> int) option" where
  "GetEleBox b node =
     (case node of
        None \<Rightarrow> None
      | Some n \<Rightarrow> (case ownerDocument b n of None \<Rightarrow> None | Some dc \<Rightarrow> boxOf (page b) n))"

definition GetNodeArea :: "'n browser \<Rightarrow> 'n option \<Rightarrow> int res" where
  "GetNodeArea b node =
     (case GetEleBox b (as_element (page b) node) of
        None \<Rightarrow> Inr 0
      | Some (x, y, w, h) \<Rightarrow> check_int (w * h))"

definition GetLinkStr :: "'n browser \<Rightarrow> 'n option \<Rightarrow> int \<Rightarrow> bytes" where
  "GetLinkStr b node type =
     (case node of
        None \<Rightarrow> []
      | Some n \<Rightarrow>
          if type = 0 then
            (case anchorHref b n of
               Some u \<Rightarrow> u
             | None \<Rightarrow>
                 (case linkHref b n of
                    Some u \<Rightarrow> u
                  | None \<Rightarrow> (case areaHref b n of Some (nohref, u) \<Rightarrow> (if nohref then [] else u) | None \<Rightarrow> [])))
          else if type = 1 then
            (case as_element (page b) node of None \<Rightarrow> [] | Some e \<Rightarrow> getAttribute (page b) e ''href'')
          else [])"

definition IsLink :: "'n browser \<Rightarrow> 'n option \<Rightarrow> bool" where
  "IsLink b node = (let linkUrl = GetLinkStr b node 0 in linkUrl \<noteq> [] \<and> CHR ''#'' \<notin> set linkUrl)"

definition IsLinkNotInCal :: "'n browser \<Rightarrow> 'n option \<Rightarrow> bool" where
  "IsLinkNotInCal b node =
     (if IsLink b node then
        let content = GetNodeText_of b node; date = atoi content
        in \<not> (length content < 3 \<and> 0 < date \<and> date < 31)
      else False)"

section \<open>Depth\<close>

context dom_tree
begin

lemma ancestors_bound:
  "finite {a. (is_parent d)\<^sup>*\<^sup>* n a} \<and> card {a. (is_parent d)\<^sup>*\<^sup>* n a} \<le> Suc (up n)"
proof (induction "up n" arbitrary: n rule: less_induct)
  case less
  show ?case
  proof (cases "parentNode d n")
    case None
    then have "{a. (is_parent d)\<^sup>*\<^sup>* n a} = {n}"
      by (auto simp: is_parent_def elim: converse_rtranclpE)
    then show ?thesis by simp
  next
    case (Some p)
    have "{a. (is_parent d)\<^sup>*\<^sup>* n a} = insert n {a. (is_parent d)\<^sup>*\<^sup>* p a}"
      using Some by (auto simp: is_parent_def elim: converse_rtranclpE intro: converse_rtranclp_into_rtranclp)
    then show ?thesis using less.hyps [OF up [OF Some]] up [OF Some] by (simp add: card_insert_if)
  qed
qed

lemma ancestors_parent:
  assumes "parentNode d n = Some p"
  shows "card {a. (is_parent d)\<^sup>*\<^sup>* n a} = Suc (card {a. (is_parent d)\<^sup>*\<^sup>* p a})"
proof -
  have "up a \<le> up p" if "(is_parent d)\<^sup>*\<^sup>* p a" for a
    using that by (induction rule: rtranclp_induct) (auto simp: is_parent_def dest: up)
  then have "\<not> (is_parent d)\<^sup>*\<^sup>* p n" using up [OF assms] by fastforce
  moreover have "{a. (is_parent d)\<^sup>*\<^sup>* n a} = insert n {a. (is_parent d)\<^sup>*\<^sup>* p a}"
    using assms by (auto simp: is_parent_def elim: converse_rtranclpE intro: converse_rtranclp_into_rtranclp)
  ultimately show ?thesis using ancestors_bound [of p] by simp
qed

lemma depth_loop_counts:
  "0 \<le> k \<Longrightarrow> k + int (up n) + 1 < 2 ^ 31 \<Longrightarrow>
     depth_loop d (Some n) k = Some (Inr (k + int (card {a. (is_parent d)\<^sup>*\<^sup>* n a})))"
proof (induction "up n" arbitrary: n k rule: less_induct)
  case less
  have "check_int (k + 1) = Inr (k + 1)" using less.prems by (simp add: check_int_def int_ok_def)
  then have step: "depth_loop d (Some n) k = depth_loop d (parentNode d n) (k + 1)"
    by (subst depth_loop.simps) simp
  show ?case
  proof (cases "parentNode d n")
    case None
    then have "{a. (is_parent d)\<^sup>*\<^sup>* n a} = {n}"
      by (auto simp: is_parent_def elim: converse_rtranclpE)
    then show ?thesis using step None by (simp add: depth_loop.simps)
  next
    case (Some p)
    then show ?thesis
      using step less.hyps [OF up [OF Some], of "k + 1"] less.prems up [OF Some] ancestors_parent [OF Some] by simp
  qed
qed

end

lemma node_depth_counts:
  assumes "dom_tree d up down" "up n < 2 ^ 31 - 1"
  shows "CalNodeDepth d (Some n) = Some (Inr (int (card {a. (is_parent d)\<^sup>*\<^sup>* n a})))"
  using dom_tree.depth_loop_counts [OF assms(1), of 0 n] assms(2) by (simp add: CalNodeDepth_def)

text \<open>\<open>CalNodeDepth\<close> counts the node and its ancestors, the document included.\<close>

theorem CalNodeDepth_counts:
  assumes "dom_tree d up down" "up n < 2 ^ 31 - 1"
  shows "CalNodeDepth d (Some n) = Some (Inr (int (card {a. (is_parent d)\<^sup>*\<^sup>* n a})))"
  by (rule node_depth_counts [OF assms])

lemma CalNodeDepth_counts_witness:
  "CalNodeDepth (dom_of sample_page) (Some [0, 0]) =
     Some (Inr (int (card {a. (is_parent (dom_of sample_page))\<^sup>*\<^sup>* [0, 0] a})))"
  by (rule CalNodeDepth_counts [OF markup_dom.dom_tree_axioms]) simp

section \<open>Distances of links\<close>

fun chain_distance :: "bytes list \<Rightarrow> nat" where
  "chain_distance (u # v # us) = nat (projr (LD_string u v)) + chain_distance (v # us)"
| "chain_distance us = 0"

lemma LD_string_sum: "\<exists>k. LD_string u v = Inr (int k) \<and> k \<le> length u + length v"
  using LD_string_bounds [of u v] by (metis max.bounded_iff max_def le_add1 le_add2 le_trans)

lemma url_distance_sum:
  assumes "\<forall>n \<in> set ns. nodeType d n = ELEMENT_NODE"
    and "k + length u + 2 * sum_list (map (\<lambda>n. length (getAttribute d n ''href'')) ns) < 2 ^ 31"
  shows "url_distance d ns (Some u) (int k) = Inr (int (k + chain_distance (u # map (\<lambda>n. getAttribute d n ''href'') ns)))"
  using assms
proof (induction ns arbitrary: u k)
  case (Cons n ns)
  let ?v = "getAttribute d n ''href''"
  obtain j where j: "LD_string u ?v = Inr (int j)" "j \<le> length u + length ?v" using LD_string_sum by blast
  have "check_int (int k + int j) = Inr (int (k + j))"
    using j(2) Cons.prems(2) by (simp add: check_int_def int_ok_def)
  then have "url_distance d (n # ns) (Some u) (int k) = url_distance d ns (Some ?v) (int (k + j))"
    using j(1) Cons.prems(1) by (simp add: as_element_def Let_def)
  then show ?case
    using Cons.IH [of "k + j" ?v] Cons.prems j by simp
qed simp

text \<open>The distance of a document is the sum of the edit distances of the addresses of consecutive links;
  with less than a gigabyte of addresses it does not overflow.
\<close>

theorem GetDocUrlDistance_sum:
  assumes "documentElement b dc = Some e" "GetNodes (evaluate b) e ''//a[@href]'' = ns"
    and "list_all (\<lambda>n. nodeType (page b) n = ELEMENT_NODE) ns"
    and "sum_list (map (\<lambda>n. length (getAttribute (page b) n ''href'')) ns) < 2 ^ 30"
  shows "GetDocUrlDistance b (Some dc) = Inr (int (chain_distance (map (\<lambda>n. getAttribute (page b) n ''href'') ns)))
    \<and> GetDocUrlCount b (Some dc) = Inr (int_of_size (length ns))"
proof (cases ns)
  case Nil
  then show ?thesis using assms(1,2) by (simp add: GetDocUrlDistance_def GetDocUrlCount_def doc_nodes_def)
next
  case (Cons n ms)
  let ?u = "getAttribute (page b) n ''href''"
  have "url_distance (page b) ns None 0 = url_distance (page b) ms (Some ?u) (int 0)"
    using assms(3) Cons by (simp add: as_element_def Let_def)
  also have "\<dots> = Inr (int (0 + chain_distance (?u # map (\<lambda>n. getAttribute (page b) n ''href'') ms)))"
    using assms(3,4) Cons by (intro url_distance_sum) (auto simp: list_all_iff)
  finally show ?thesis
    using assms(1,2) Cons by (simp add: GetDocUrlDistance_def GetDocUrlCount_def doc_nodes_def)
qed

section \<open>The frames of a document\<close>

definition is_frame :: "'n browser \<Rightarrow> 'n \<Rightarrow> bool" where
  "is_frame b n \<longleftrightarrow> nodeName (page b) n = ''FRAME'' \<or> nodeName (page b) n = ''IFRAME''"

definition frame_nodes :: "'n browser \<Rightarrow> 'n \<Rightarrow> 'n list" where
  "frame_nodes b dc = (case documentElement b dc of None \<Rightarrow> [] | Some e \<Rightarrow> GetNodes (evaluate b) e frame_path)"

definition frame_content :: "'n browser \<Rightarrow> 'n list \<Rightarrow> 'n list" where
  "frame_content b ns = map (\<lambda>n. the (contentDocument b n)) (filter (is_frame b) ns)"

definition inner_docs :: "'n browser \<Rightarrow> 'n \<Rightarrow> 'n list" where
  "inner_docs b dc = frame_content b (frame_nodes b dc)"

text \<open>Every frame among the nodes has a document, nested less than \<open>k\<close> deep.\<close>

definition frames_loaded :: "'n browser \<Rightarrow> ('n \<Rightarrow> nat) \<Rightarrow> nat \<Rightarrow> 'n list \<Rightarrow> bool" where
  "frames_loaded b nesting k ns \<longleftrightarrow>
     list_all (\<lambda>n. case contentDocument b n of None \<Rightarrow> False | Some c \<Rightarrow> nesting c < k) (filter (is_frame b) ns)"

lemma frames_loaded_content: "frames_loaded b nesting k ns \<Longrightarrow> c \<in> set (frame_content b ns) \<Longrightarrow> nesting c < k"
  by (fastforce simp: frames_loaded_def frame_content_def list_all_iff split: option.splits)

lemma frame_docs_walk:
  assumes loaded: "\<And>dc. frames_loaded b nesting (nesting dc) (frame_nodes b dc)"
    and "frames_loaded b nesting k ns"
  shows "frame_docs b ns supArr = Some (Inr (supArr @ walk (inner_docs b) k (frame_content b ns)))"
  using assms(2)
proof (induction k arbitrary: ns supArr rule: less_induct)
  case (less k)
  note outer = less.IH
  from less.prems show ?case
  proof (induction ns arbitrary: supArr)
    case Nil
    then show ?case by (simp add: frame_docs.simps frame_content_def)
  next
    case (Cons n ns)
    have ns: "frames_loaded b nesting k ns" using Cons.prems by (simp add: frames_loaded_def split: if_splits)
    show ?case
    proof (cases "is_frame b n")
      case True
      then obtain c where c: "contentDocument b n = Some c" "nesting c < k"
        using Cons.prems by (auto simp: frames_loaded_def split: option.splits)
      then obtain j where k: "k = Suc j" "nesting c \<le> j" by (cases k) auto
      have "walk (inner_docs b) j (inner_docs b c) = walk (inner_docs b) (nesting c) (inner_docs b c)"
        using frames_loaded_content [OF loaded] k(2) by (intro walk_stable [of _ nesting]) (auto simp: inner_docs_def)
      then have "walk (inner_docs b) k (frame_content b (n # ns)) =
          c # walk (inner_docs b) (nesting c) (inner_docs b c) @ walk (inner_docs b) k (frame_content b ns)"
        using True c(1) k(1) by (simp add: frame_content_def)
      moreover have "frame_docs b (frame_nodes b c) (supArr @ [c]) =
          Some (Inr ((supArr @ [c]) @ walk (inner_docs b) (nesting c) (inner_docs b c)))"
        using outer [OF c(2) loaded] by (simp flip: inner_docs_def)
      ultimately show ?thesis
        using Cons.IH [OF ns] True c(1)
        by (subst frame_docs.simps) (simp add: doc_nodes_def is_frame_def flip: frame_nodes_def)
    next
      case False
      then show ?thesis
        using Cons.IH [OF ns] by (subst frame_docs.simps) (simp add: is_frame_def frame_content_def)
    qed
  qed
qed

text \<open>C30.  When every frame has loaded a document and frames are nested finitely deep, all documents are listed
  in the order in which they are met, each before those in its frames.
\<close>

theorem GetALLDocumentArray_frames:
  assumes "\<And>dc. frames_loaded b nesting (nesting dc) (frame_nodes b dc)"
  shows "GetALLDocumentArray b (Some dc) supArr =
    Some (Inr (supArr @ walk (inner_docs b) (Suc (nesting dc)) [dc]))"
proof -
  have "frame_docs b (frame_nodes b dc) (supArr @ [dc]) =
      Some (Inr ((supArr @ [dc]) @ walk (inner_docs b) (nesting dc) (inner_docs b dc)))"
    using frame_docs_walk [OF assms assms] by (simp flip: inner_docs_def)
  then show ?thesis by (simp add: GetALLDocumentArray_def doc_nodes_def flip: frame_nodes_def)
qed

text \<open>A frame that has no document yet ends the program.\<close>

lemma frame_docs_unloaded:
  "is_frame b n \<Longrightarrow> contentDocument b n = None \<Longrightarrow> frame_docs b (n # ns) supArr = Some (Inl NullDeref)"
  by (subst frame_docs.simps) (simp add: is_frame_def)

section \<open>Siblings\<close>

text \<open>The siblings of a node are its neighbours in the list of children.\<close>

locale browser_tree = dom_tree "page b" up down
  for b :: "'n browser" and up down :: "'n \<Rightarrow> nat" +
  assumes next_sib: "kids (page b) p = xs @ n # ys \<Longrightarrow> nextSibling b n = (case ys of [] \<Rightarrow> None | m # ms \<Rightarrow> Some m)"
    and prev_sib: "kids (page b) p = xs @ n # ys \<Longrightarrow> previousSibling b n = (if xs = [] then None else Some (last xs))"
begin

abbreviation element_find :: "'n list \<Rightarrow> 'n option" where
  "element_find \<equiv> find (\<lambda>m. nodeType (page b) m = ELEMENT_NODE)"

lemma next_element:
  "kids (page b) p = xs @ n # ys \<Longrightarrow>
     sib_element (page b) (nextSibling b) (nextSibling b n) = Some (element_find ys)"
proof (induction ys arbitrary: xs n)
  case Nil
  then show ?case using next_sib [OF Nil] by (simp add: sib_element.simps)
next
  case (Cons m ys)
  have "kids (page b) p = (xs @ [n]) @ m # ys" using Cons.prems by simp
  then show ?case using Cons.IH next_sib [OF Cons.prems] by (subst sib_element.simps) simp
qed

lemma previous_element:
  "kids (page b) p = xs @ n # ys \<Longrightarrow>
     sib_element (page b) (previousSibling b) (previousSibling b n) = Some (element_find (rev xs))"
proof (induction xs arbitrary: n ys rule: rev_induct)
  case Nil
  then show ?case using prev_sib [OF Nil] by (simp add: sib_element.simps)
next
  case (snoc m xs)
  have "kids (page b) p = xs @ m # (n # ys)" using snoc.prems by simp
  then show ?case using snoc.IH prev_sib [OF snoc.prems] by (subst sib_element.simps) simp
qed

lemma element_find_element: "as_element (page b) (element_find ns) = element_find ns"
proof (cases "element_find ns")
  case (Some m)
  then show ?thesis using find_SomeD [OF Some] by (simp add: as_element_def)
qed (simp add: as_element_def)

lemma element_find_None: "element_find ns = None \<longleftrightarrow> list_all (\<lambda>m. nodeType (page b) m \<noteq> ELEMENT_NODE) ns"
  by (auto simp: find_None_iff list_all_iff)

end

text \<open>What \<open>CalSibParentDist\<close> computes from the nearest elements around the node.\<close>

definition styled :: "'n browser \<Rightarrow> 'n \<Rightarrow> bool" where
  "styled b n \<longleftrightarrow> style_ok (GetComLayoutInfo b (Some n) [])"

lemma style_ok_Nil: "style_ok []"
  by (simp add: style_ok_def cmap_find_def style_value_def color_ok_simple)

lemma sib_sim_unit:
  assumes "styled b n" "case e of None \<Rightarrow> True | Some m \<Rightarrow> styled b m"
  shows "\<exists>v. sib_sim b (GetComLayoutInfo b (Some n) []) e = Inr v \<and> in_unit v \<and> (e = None \<longrightarrow> v = Fin 0)"
  using assms compare_styles_score by (cases e) (auto simp: sib_sim_def styled_def)

lemma sib_parent_unit:
  assumes "browser_tree b up down" "kids (page b) p = xs @ n # ys" "list_all (styled b) (p # xs @ n # ys)"
  shows "\<exists>pDist lDist. CalSibParentDist b (Some n) = Some (Inr (pDist, lDist)) \<and> in_unit pDist \<and> in_unit lDist
    \<and> (if list_all (\<lambda>m. nodeType (page b) m \<noteq> ELEMENT_NODE) (xs @ ys) then lDist = Fin 1 else True)"
proof -
  let ?find = "find (\<lambda>m. nodeType (page b) m = ELEMENT_NODE)"
  let ?map = "GetComLayoutInfo b (Some n) []"
  note sibs = browser_tree.previous_element [OF assms(1,2)] browser_tree.next_element [OF assms(1,2)]
    browser_tree.element_find_element [OF assms(1)] browser_tree.element_find_None [OF assms(1)]
  have n: "styled b n" and ok: "\<forall>m \<in> set xs \<union> set ys. styled b m" and p: "styled b p"
    using assms(3) by (auto simp: list_all_iff)
  have "case ?find (rev xs) of None \<Rightarrow> True | Some m \<Rightarrow> styled b m" "case ?find ys of None \<Rightarrow> True | Some m \<Rightarrow> styled b m"
    using ok by (auto dest: find_SomeD split: option.split)
  note sim = sib_sim_unit [OF n this(1)] sib_sim_unit [OF n this(2)]
  from sim(1) obtain u where u: "sib_sim b ?map (?find (rev xs)) = Inr u" "in_unit u" "?find (rev xs) = None \<longrightarrow> u = Fin 0"
    by - (elim exE conjE, rule that)
  from sim(2) obtain v where v: "sib_sim b ?map (?find ys) = Inr v" "in_unit v" "?find ys = None \<longrightarrow> v = Fin 0"
    by - (elim exE conjE, rule that)
  note uv = u v
  have parent: "parentNode (page b) n = Some p"
    using dom_tree.child_iff [OF browser_tree.axioms(1) [OF assms(1)], of n p] assms(2) by simp
  have "style_ok (GetComLayoutInfo b (as_element (page b) (Some p)) [])"
    using p style_ok_Nil by (simp add: as_element_def styled_def GetComLayoutInfo_def)
  then obtain w where w: "compare_styles ?map (GetComLayoutInfo b (as_element (page b) (Some p)) []) = Inr w" "in_unit w"
    using compare_styles_score n by (auto simp: styled_def)
  define pe ne where e: "pe = ?find (rev xs)" "ne = ?find ys"
  define l where "l = (if ne \<noteq> None \<and> pe \<noteq> None then fdiv f64 (fadd f64 u v) (Fin 2)
     else if ne = None \<and> pe = None then Fin 1 else fadd f64 u v)"
  have "CalSibParentDist b (Some n) = Some (Inr (w, l))"
    using sibs(1,2) sibs(3) [of "rev xs"] sibs(3) [of ys] uv(1,4) w(1) unfolding e [symmetric]
    by (cases pe; cases ne) (simp_all add: CalSibParentDist_def Let_def parent l_def)
  moreover have "in_unit l"
    using uv(3,6) in_unit_mean [OF uv(2,5)] in_unit_add_0 [OF uv(2)] in_unit_add_0 [OF uv(5)]
    unfolding e [symmetric] by (auto simp: l_def)
  moreover have "if list_all (\<lambda>m. nodeType (page b) m \<noteq> ELEMENT_NODE) (xs @ ys) then l = Fin 1 else True"
    using sibs(4) [of "rev xs"] sibs(4) [of ys] unfolding e [symmetric] by (simp add: l_def)
  ultimately show ?thesis using w(2) by blast
qed

text \<open>When the styles of a node, its siblings and its parent can be compared, both results are numbers
  between 0 and 1; a node without sibling elements is as like its siblings as can be.
\<close>

theorem CalSibParentDist_unit:
  assumes "browser_tree b up down" "kids (page b) p = xs @ n # ys" "list_all (styled b) (p # xs @ n # ys)"
  shows "\<exists>pDist lDist. CalSibParentDist b (Some n) = Some (Inr (pDist, lDist)) \<and> in_unit pDist \<and> in_unit lDist
    \<and> (if list_all (\<lambda>m. nodeType (page b) m \<noteq> ELEMENT_NODE) (xs @ ys) then lDist = Fin 1 else True)"
  by (rule sib_parent_unit [OF assms])

section \<open>Calendars\<close>

text \<open>A link whose text is a day of a month is part of a calendar, up to the 30th.\<close>

theorem IsLinkNotInCal_day:
  assumes "IsLink b node" "GetNodeText_of b node = show_nat k" "0 < k" "k < 2 ^ 31"
  shows "IsLinkNotInCal b node \<longleftrightarrow> 31 \<le> k"
proof -
  have "atoi (show_nat k) = int k" using atoi_show_nat [of k "[]"] assms(4) by simp
  moreover have "length (show_nat k) < 3" if "k < 31"
  proof -
    have "k div 10 < 10" using that by simp
    then show ?thesis by (simp add: show_nat.simps [of k] show_nat.simps [of "k div 10"])
  qed
  ultimately show ?thesis using assms by (cases "k < 31") (simp_all add: IsLinkNotInCal_def Let_def)
qed

section \<open>A browser that shows markup\<close>

text \<open>
  The evaluator knows the expressions of this program; no frame is loaded and no style computed.
\<close>

definition nodes_below :: "markup list \<Rightarrow> nat list \<Rightarrow> nat list list" where
  "nodes_below ms n = walk (kids (dom_of ms)) (node_height ms n) (kids (dom_of ms) n)"

definition markup_link :: "markup list \<Rightarrow> nat list \<Rightarrow> bool" where
  "markup_link ms n \<longleftrightarrow> nodeName (dom_of ms) n = ''A'' \<and> getAttribute (dom_of ms) n ''href'' \<noteq> []"

definition find_nodes :: "markup list \<Rightarrow> bytes \<Rightarrow> nat list \<Rightarrow> nat list list option" where
  "find_nodes ms x n =
     (if x = ''//a[@href]'' \<or> x = ''.//a[@href]'' then Some (filter (markup_link ms) (nodes_below ms n))
      else if x = ''//*'' then Some (filter (\<lambda>m. nodeType (dom_of ms) m = ELEMENT_NODE) (n # nodes_below ms n))
      else if x = frame_path then Some (filter (\<lambda>m. nodeName (dom_of ms) m \<in> {''FRAME'', ''IFRAME''}) (nodes_below ms n))
      else None)"

definition browser_of :: "markup list \<Rightarrow> nat list browser" where
  "browser_of ms = \<lparr>
     page = dom_of ms,
     evaluate = find_nodes ms,
     ownerDocument = (\<lambda>n. if n = [] then None else Some []),
     documentElement = (\<lambda>n. if n = [] then find (\<lambda>m. nodeType (dom_of ms) m = ELEMENT_NODE) (kids (dom_of ms) []) else None),
     textContent = (\<lambda>n. concat (map (nodeValue (dom_of ms)) (n # nodes_below ms n))),
     stripWhitespace = filter (\<lambda>c. c \<notin> {CHR 0x08, CHR 0x09, CHR 0x0D, NL, CHR 0x20}),
     previousSibling = (\<lambda>n. if n = [] \<or> last n = 0 then None else Some (butlast n @ [last n - 1])),
     nextSibling = (\<lambda>n. if n = [] \<or> entry ms (butlast n @ [last n + 1]) = None then None else Some (butlast n @ [last n + 1])),
     styleNames = (\<lambda>n. None),
     propertyValue = (\<lambda>n x. []),
     anchorHref = (\<lambda>n. if markup_link ms n then Some (getAttribute (dom_of ms) n ''href'') else None),
     linkHref = (\<lambda>n. None),
     areaHref = (\<lambda>n. None),
     contentDocument = (\<lambda>n. None)\<rparr>"

lemma browser_of_page [simp]: "page (browser_of ms) = dom_of ms"
  by (simp add: browser_of_def)

lemma kids_position:
  assumes "kids (dom_of ms) p = xs @ n # ys"
  shows "n = p @ [length xs]" "xs = map (\<lambda>i. p @ [i]) [0..<length xs]"
    "below ms p \<noteq> None" "length (the (below ms p)) = length xs + Suc (length ys)" "ys = [] \<or> hd ys = p @ [Suc (length xs)]"
proof -
  obtain zs where zs: "below ms p = Some zs" "map (\<lambda>i. p @ [i]) [0..<length zs] = xs @ n # ys"
    using assms by (cases "below ms p") (auto simp: dom_of_simps)
  have len: "length zs = length xs + Suc (length ys)" using arg_cong [OF zs(2), of length] by simp
  have nth: "(xs @ n # ys) ! i = p @ [i]" if "i < length zs" for i 
    using that arg_cong [OF zs(2), of "\<lambda>l. l ! i"] by simp
  show "n = p @ [length xs]" using nth [of "length xs"] len by simp
  show "xs = map (\<lambda>i. p @ [i]) [0..<length xs]"
  proof (rule nth_equalityI)
    fix i assume "i < length xs"
    then show "xs ! i = map (\<lambda>i. p @ [i]) [0..<length xs] ! i" using nth [of i] len by (simp add: nth_append)
  qed simp
  show "below ms p \<noteq> None" "length (the (below ms p)) = length xs + Suc (length ys)" using zs(1) len by simp_all
  show "ys = [] \<or> hd ys = p @ [Suc (length xs)]" using nth [of "Suc (length xs)"] len by (cases ys) (auto simp: nth_append)
qed

interpretation markup_browser: browser_tree "browser_of ms" length "node_height ms"
proof (intro browser_tree.intro browser_tree_axioms.intro, goal_cases)
  case 1
  show ?case by (simp add: markup_dom.dom_tree_axioms)
next
  case (2 p xs n ys)
  then have k: "kids (dom_of ms) p = xs @ n # ys" by simp
  note pos = kids_position [OF k]
  show ?case
    using pos(1,3,4,5) by (cases ys) (auto simp: browser_of_def entry_snoc)
next
  case (3 p xs n ys)
  then have k: "kids (dom_of ms) p = xs @ n # ys" by simp
  note pos = kids_position [OF k]
  show ?case
  proof (cases xs rule: rev_cases)
    case Nil
    then show ?thesis using pos(1) by (simp add: browser_of_def)
  next
    case (snoc zs z)
    then have "z = p @ [length zs]" using arg_cong [OF pos(2), of last] by simp
    then show ?thesis using pos(1) snoc by (simp add: browser_of_def)
  qed
qed

section \<open>The properties on markup\<close>

text \<open>A page with two links and a frame.\<close>

definition link_page :: "markup list" where
  "link_page = [Element (CHR ''H'') ''TML'' []
     [Element (CHR ''A'') [] [(''href'', ''/a/31'')] [Text ''31''],
      Element (CHR ''A'') [] [(''href'', ''/a/2'')] [],
      Element (CHR ''F'') ''RAME'' [] []]]"

definition link_browser :: "nat list browser" where
  "link_browser = (browser_of link_page)\<lparr>contentDocument := (\<lambda>n. if n = [0, 2] then Some [7] else None)\<rparr>"

lemmas link_eval = link_browser_def browser_of_def link_page_def dom_of_simps entry_def find_nodes_def frame_path_def
  nodes_below_def markup_link_def getAttribute_def node_height_def GetNodes_def upt_rec

lemma GetDocUrlDistance_sum_witness:
  "GetDocUrlDistance (browser_of link_page) (Some []) = Inr (int (chain_distance [''/a/31'', ''/a/2'']))
    \<and> GetDocUrlCount (browser_of link_page) (Some []) = Inr (int_of_size (length [[0, 0], [0, 1 :: nat]]))"
  using GetDocUrlDistance_sum [of "browser_of link_page" "[]" "[0]" "[[0, 0], [0, 1]]"] by (simp add: link_eval)

lemma GetALLDocumentArray_frames_witness:
  "GetALLDocumentArray link_browser (Some []) [] =
     Some (Inr ([] @ walk (inner_docs link_browser) (Suc (if [] = ([] :: nat list) then 1 else 0)) [[]]))"
  by (rule GetALLDocumentArray_frames) (simp add: link_eval frames_loaded_def frame_nodes_def is_frame_def)

lemma CalSibParentDist_unit_witness:
  "\<exists>pDist lDist. CalSibParentDist (browser_of link_page) (Some [0, 1]) = Some (Inr (pDist, lDist))
    \<and> in_unit pDist \<and> in_unit lDist
    \<and> (if list_all (\<lambda>m. nodeType (page (browser_of link_page)) m \<noteq> ELEMENT_NODE) ([[0, 0]] @ [[0, 2]]) then lDist = Fin 1 else True)"
  by (rule CalSibParentDist_unit [OF markup_browser.browser_tree_axioms, of _ "[0]"])
    (simp_all add: link_eval styled_def GetComLayoutInfo_def style_ok_Nil)

lemma IsLinkNotInCal_day_witness: "IsLinkNotInCal (browser_of link_page) (Some [0, 0]) \<longleftrightarrow> 31 \<le> (31 :: nat)"
proof (rule IsLinkNotInCal_day)
  show "IsLink (browser_of link_page) (Some [0, 0])"
    by (simp add: IsLink_def GetLinkStr_def link_eval)
  show "GetNodeText_of (browser_of link_page) (Some [0, 0]) = show_nat 31"
    by (simp add: GetNodeText_of_def strip_text_def link_eval show_nat_eval)
qed simp_all

end
