(* ===== verification/AttClusters.thy ===== *)
theory AttClusters
  imports CxxMap FloatArith StringUtil "HOL-Library.Multiset"
begin

text \<open>
  The attribute vectors of page nodes and their clusters: \<open>DisCrawler/StatCom/nsAttVec.cpp\<close>,
  \<open>nsAttDim.cpp\<close>, \<open>nsAttSet.cpp\<close>, \<open>nsClustModel.cpp\<close>, \<open>nsCluster.cpp\<close> and
  \<open>DisCrawler/ContentTrain/ThresholdCluster.cpp\<close>.  A pointer to an XPCOM object is the object, or
  \<open>None\<close> for a null pointer; taking a reference to a null pointer fails.  A method that returns
  \<open>NS_ERROR_FAILURE\<close> yields \<open>None\<close> and leaves its out parameter alone.
\<close>

section \<open>Vectors (\<open>nsAttVec\<close>)\<close>

record ('d, 'n) att_vec =
  m_doc :: "'d option"
  m_node :: "'n option"
  vect :: "(int, flt) cmap"

definition addref :: "'a option \<Rightarrow> 'a res" where
  "addref p = (case p of None \<Rightarrow> Inl NullDeref | Some a \<Rightarrow> Inr a)"

definition new_att_vec :: "('d, 'n) att_vec" where
  "new_att_vec = \<lparr>m_doc = None, m_node = None, vect = []\<rparr>"

definition SetDoc :: "'d option \<Rightarrow> ('d, 'n) att_vec \<Rightarrow> ('d, 'n) att_vec" where
  "SetDoc d v = v\<lparr>m_doc := d\<rparr>"

definition GetDoc :: "('d, 'n) att_vec \<Rightarrow> 'd res" where
  "GetDoc v = addref (m_doc v)"

definition SetNode :: "'n option \<Rightarrow> ('d, 'n) att_vec \<Rightarrow> ('d, 'n) att_vec" where
  "SetNode n v = v\<lparr>m_node := n\<rparr>"

definition GetNode :: "('d, 'n) att_vec \<Rightarrow> 'n res" where
  "GetNode v = addref (m_node v)"

definition vec_GetLength :: "('d, 'n) att_vec \<Rightarrow> int" where
  "vec_GetLength v = int_of_size (length (vect v))"

definition SetValue :: "int \<Rightarrow> flt \<Rightarrow> ('d, 'n) att_vec \<Rightarrow> ('d, 'n) att_vec" where
  "SetValue dm x v =
     v\<lparr>vect := if cmap_find (vect v) dm \<noteq> None then cmap_set dm x (vect v) else cmap_insert dm x (vect v)\<rparr>"

definition AddValue :: "int \<Rightarrow> flt \<Rightarrow> ('d, 'n) att_vec \<Rightarrow> ('d, 'n) att_vec" where
  "AddValue dm x v = v\<lparr>vect := cmap_insert dm x (vect v)\<rparr>"

definition vec_Contains :: "('d, 'n) att_vec \<Rightarrow> int \<Rightarrow> bool" where
  "vec_Contains v dm \<longleftrightarrow> cmap_find (vect v) dm \<noteq> None"

definition GetValueByDim :: "('d, 'n) att_vec \<Rightarrow> int \<Rightarrow> flt option" where
  "GetValueByDim v dm = cmap_find (vect v) dm"

definition GetDims :: "('d, 'n) att_vec \<Rightarrow> int list" where
  "GetDims v = map fst (vect v)"

text \<open>A local \<open>double value = .0\<close> that \<open>GetValueByDim\<close> may leave alone.\<close>

definition value_or_zero :: "('d, 'n) att_vec \<Rightarrow> int \<Rightarrow> flt" where
  "value_or_zero v dm = (case GetValueByDim v dm of Some x \<Rightarrow> x | None \<Rightarrow> Fin 0)"

definition vec_AppendVector :: "('d, 'n) att_vec \<Rightarrow> ('d, 'n) att_vec \<Rightarrow> ('d, 'n) att_vec" where
  "vec_AppendVector w v = fold (\<lambda>dm. AddValue dm (value_or_zero w dm)) (GetDims w) v"

definition SetVector :: "('d, 'n) att_vec \<Rightarrow> ('d, 'n) att_vec \<Rightarrow> ('d, 'n) att_vec res" where
  "SetVector w v =
     bindE (GetDoc w) (\<lambda>d. bindE (GetNode w) (\<lambda>n.
       Inr (vec_AppendVector w (v\<lparr>m_doc := Some d, m_node := Some n\<rparr>))))"

section \<open>Names of dimensions (\<open>nsAttDim\<close>)\<close>

type_synonym att_dim = "(bytes, int) cmap"

definition dim_GetCount :: "att_dim \<Rightarrow> int" where
  "dim_GetCount dims = int_of_size (length dims)"

text \<open>The out parameter is set to -1 when the call fails.\<close>

definition GetDimId :: "att_dim \<Rightarrow> bytes \<Rightarrow> int \<times> bool" where
  "GetDimId dims desc =
     (case cmap_find dims (c_str desc) of Some i \<Rightarrow> (i, True) | None \<Rightarrow> (- 1, False))"

definition AddDim :: "int \<Rightarrow> bytes \<Rightarrow> att_dim \<Rightarrow> att_dim" where
  "AddDim i desc dims = cmap_set (c_str desc) i dims"

text \<open>The first description with this number; \<open>None\<close> leaves the out parameter alone.\<close>

definition GetDesc :: "att_dim \<Rightarrow> int \<Rightarrow> bytes option" where
  "GetDesc dims i = map_option fst (find (\<lambda>(desc, j). i = j) dims)"

section \<open>Sets of vectors (\<open>nsAttSet\<close>)\<close>

type_synonym 'v att_set = "'v option list"

definition set_GetLength :: "'v att_set \<Rightarrow> int" where
  "set_GetLength s = int_of_size (length s)"

text \<open>The guard \<open>index < Count()\<close> lets a negative index through.\<close>

definition SetVetor :: "int \<Rightarrow> 'v option \<Rightarrow> 'v att_set \<Rightarrow> ('v att_set \<times> bool) res" where
  "SetVetor index v s =
     (if index < int_of_size (length s) then
        (if index < 0 then Inl OutOfBounds else Inr (s[nat index := v], True))
      else Inr (s, False))"

definition set_AppendVector :: "'v option \<Rightarrow> 'v att_set \<Rightarrow> 'v att_set" where
  "set_AppendVector v s = s @ [v]"

definition GetVectorByIndex :: "'v att_set \<Rightarrow> int \<Rightarrow> 'v option res" where
  "GetVectorByIndex s index =
     (if index < int_of_size (length s) then
        (if index < 0 then Inl OutOfBounds else bindE (addref (s ! nat index)) (\<lambda>v. Inr (Some v)))
      else Inr None)"

definition AppendSet :: "'v att_set \<Rightarrow> 'v att_set \<Rightarrow> 'v att_set res" where
  "AppendSet t s =
     foldE (\<lambda>i s. bindE (GetVectorByIndex t i) (\<lambda>avec. Inr (if avec \<noteq> None then set_AppendVector avec s else s)))
       [0..set_GetLength t - 1] s"

section \<open>The model of classes (\<open>nsClustModel\<close>)\<close>

record ('v, 's) clust_model =
  c_atts :: "'v option list"
  c_sets :: "'s option list"

definition new_clust_model :: "('v, 's) clust_model" where
  "new_clust_model = \<lparr>c_atts = [], c_sets = []\<rparr>"

definition GetClassCount :: "('v, 's) clust_model \<Rightarrow> int option" where
  "GetClassCount m =
     (if length (c_atts m) = length (c_sets m) then Some (int_of_size (length (c_atts m))) else None)"

definition GetClassAtt :: "('v, 's) clust_model \<Rightarrow> int \<Rightarrow> 'v option res" where
  "GetClassAtt m classid = GetVectorByIndex (c_atts m) classid"

definition GetClassSet :: "('v, 's) clust_model \<Rightarrow> int \<Rightarrow> 's option res" where
  "GetClassSet m classid = GetVectorByIndex (c_sets m) classid"

definition AppendClass :: "'s option \<Rightarrow> 'v option \<Rightarrow> ('v, 's) clust_model \<Rightarrow> ('v, 's) clust_model \<times> bool" where
  "AppendClass s a m =
     (if length (c_atts m) = length (c_sets m)
      then (m\<lparr>c_atts := c_atts m @ [a], c_sets := c_sets m @ [s]\<rparr>, True)
      else (m, False))"

definition ClearModel :: "('v, 's) clust_model \<Rightarrow> ('v, 's) clust_model" where
  "ClearModel m =
     (let m = (if 0 < length (c_atts m) then m\<lparr>c_atts := []\<rparr> else m)
      in if 0 < length (c_atts m) then m\<lparr>c_sets := []\<rparr> else m)"

section \<open>Clusters by a threshold (\<open>ThresholdCluster\<close>)\<close>

definition CaculDot :: "('d, 'n) att_vec \<Rightarrow> ('d, 'n) att_vec \<Rightarrow> flt" where
  "CaculDot v1 v2 =
     fold (\<lambda>dimid dot.
       if vec_Contains v2 dimid
       then fadd f64 dot (fmul f64 (value_or_zero v1 dimid) (value_or_zero v2 dimid))
       else dot) (GetDims v1) (Fin 0)"

definition CaculSimilarity :: "('d, 'n) att_vec \<Rightarrow> ('d, 'n) att_vec \<Rightarrow> flt" where
  "CaculSimilarity v1 v2 =
     (let d1 = CaculDot v1 v1; d2 = CaculDot v2 v2; dot = CaculDot v1 v2
      in fdiv f64 dot (fsqrt (fmul f64 d1 d2)))"

record ('d, 'n) threshold_cluster =
  m_atts :: "('d, 'n) att_vec att_set"
  dParams :: "(bytes, flt) cmap"
  sParams :: "(bytes, bytes) cmap"
  m_model :: "(('d, 'n) att_vec, ('d, 'n) att_vec att_set) clust_model"

definition new_threshold_cluster :: "('d, 'n) threshold_cluster" where
  "new_threshold_cluster = \<lparr>m_atts = [], dParams = [], sParams = [], m_model = new_clust_model\<rparr>"

definition SetAtt :: "('d, 'n) att_vec att_set \<Rightarrow> ('d, 'n) threshold_cluster \<Rightarrow> ('d, 'n) threshold_cluster" where
  "SetAtt s t = t\<lparr>m_atts := s\<rparr>"

definition SetDoubleParam :: "bytes \<Rightarrow> flt \<Rightarrow> ('d, 'n) threshold_cluster \<Rightarrow> ('d, 'n) threshold_cluster" where
  "SetDoubleParam nm x t = t\<lparr>dParams := cmap_insert (c_str nm) x (dParams t)\<rparr>"

definition SetStringParam :: "bytes \<Rightarrow> bytes \<Rightarrow> ('d, 'n) threshold_cluster \<Rightarrow> ('d, 'n) threshold_cluster" where
  "SetStringParam nm x t = t\<lparr>sParams := cmap_insert (c_str nm) (c_str x) (sParams t)\<rparr>"

definition threshold :: "('d, 'n) threshold_cluster \<Rightarrow> flt" where
  "threshold t = (case cmap_find (dParams t) ''threshold'' of Some x \<Rightarrow> x | None \<Rightarrow> f64 (9 / 10))"

text \<open>The loop over the classes; a failing \<open>GetClassCount\<close> leaves the count at 0.\<close>

fun find_class :: "(('d, 'n) att_vec, 's) clust_model \<Rightarrow> ('d, 'n) att_vec \<Rightarrow> flt \<Rightarrow> int list \<Rightarrow> int res" where
  "find_class m vec th [] = Inr (- 1)"
| "find_class m vec th (classid # ids) =
     bindE (GetClassAtt m classid) (\<lambda>cp.
       case cp of
         None \<Rightarrow> find_class m vec th ids
       | Some v \<Rightarrow> (if flt_less th (CaculSimilarity vec v) then Inr classid else find_class m vec th ids))"

definition FindSimilarClass :: "('d, 'n) threshold_cluster \<Rightarrow> ('d, 'n) att_vec \<Rightarrow> int res" where
  "FindSimilarClass t vec =
     (let count = (case GetClassCount (m_model t) of Some n \<Rightarrow> n | None \<Rightarrow> 0)
      in find_class (m_model t) vec (threshold t) [0..count - 1])"

text \<open>One document.  The set \<open>GetClassSet\<close> returns is the object the model holds, so the vector is
  appended in the model.\<close>

definition place_doc :: "('d, 'n) att_vec \<Rightarrow> ('d, 'n) threshold_cluster \<Rightarrow> ('d, 'n) threshold_cluster res" where
  "place_doc vec t =
     bindE (FindSimilarClass t vec) (\<lambda>classid.
       if classid < 0 then
         Inr (t\<lparr>m_model := fst (AppendClass (Some (set_AppendVector (Some vec) [])) (Some vec) (m_model t))\<rparr>)
       else
         bindE (GetClassSet (m_model t) classid) (\<lambda>p. bindE (addref p) (\<lambda>p_attset.
           Inr (t\<lparr>m_model := (m_model t)\<lparr>c_sets :=
                 (c_sets (m_model t))[nat classid := Some (set_AppendVector (Some vec) p_attset)]\<rparr>\<rparr>))))"

definition CaculModel :: "('d, 'n) threshold_cluster \<Rightarrow> ('d, 'n) threshold_cluster res" where
  "CaculModel t =
     foldE (\<lambda>i t. bindE (GetVectorByIndex (m_atts t) i) (\<lambda>vec. bindE (addref vec) (\<lambda>vec. place_doc vec t)))
       [0..set_GetLength (m_atts t) - 1] t"

section \<open>What the stores promise\<close>

interpretation vec_store: key_store SetValue GetValueByDim "\<lambda>v. cmap_ok (vect v)"
  by unfold_locales (auto simp: SetValue_def GetValueByDim_def)

lemma AddValue_fold:
  "cmap_ok (vect v) \<Longrightarrow>
     cmap_find (vect (fold (\<lambda>d. AddValue d (g d)) ds v)) d =
       (case cmap_find (vect v) d of Some x \<Rightarrow> Some x | None \<Rightarrow> if d \<in> set ds then Some (g d) else None) \<and>
     cmap_ok (vect (fold (\<lambda>d. AddValue d (g d)) ds v))"
proof (induction ds arbitrary: v)
  case (Cons a ds)
  have "cmap_ok (vect (AddValue a (g a) v))" using Cons.prems by (simp add: AddValue_def)
  from Cons.IH [OF this] show ?case
    using Cons.prems by (auto simp: AddValue_def split: option.splits)
qed (simp split: option.splits)

text \<open>Appending a vector adds the dimensions the target does not have and keeps the values of those it
  has; a document and node are taken over only by \<open>SetVector\<close>, which fails when the source has none.\<close>

theorem AppendVector_values:
  assumes "cmap_ok (vect v)"
  shows "GetValueByDim (vec_AppendVector w v) d =
      (case GetValueByDim v d of Some x \<Rightarrow> Some x | None \<Rightarrow> GetValueByDim w d) \<and>
    SetVector w v = (case (m_doc w, m_node w) of
      (Some dc, Some n) \<Rightarrow> Inr (vec_AppendVector w (v\<lparr>m_doc := Some dc, m_node := Some n\<rparr>))
    | _ \<Rightarrow> Inl NullDeref)"
proof -
  have "(if d \<in> set (GetDims w) then Some (value_or_zero w d) else None) = cmap_find (vect w) d"
    by (cases "cmap_find (vect w) d")
      (auto simp: GetDims_def value_or_zero_def GetValueByDim_def cmap_find_def map_of_eq_None_iff [symmetric])
  then have "GetValueByDim (vec_AppendVector w v) d =
      (case GetValueByDim v d of Some x \<Rightarrow> Some x | None \<Rightarrow> GetValueByDim w d)"
    using AddValue_fold [OF assms, of "value_or_zero w" "GetDims w" d]
    by (simp only: vec_AppendVector_def GetValueByDim_def)
  then show ?thesis
    by (simp add: SetVector_def GetDoc_def GetNode_def addref_def split: option.splits)
qed

lemma AppendVector_values_witness:
  "GetValueByDim (vec_AppendVector (AddValue 1 (Fin 5) (AddValue 2 (Fin 6) (new_att_vec :: (unit, unit) att_vec)))
     (AddValue 1 (Fin 7) new_att_vec)) 1 = Some (Fin 7)"
proof -
  let ?v = "AddValue 1 (Fin 7) (new_att_vec :: (unit, unit) att_vec)"
    and ?w = "AddValue 1 (Fin 5) (AddValue 2 (Fin 6) (new_att_vec :: (unit, unit) att_vec))"
  have "cmap_ok (vect ?v)" by (simp add: AddValue_def new_att_vec_def cmap_ok_def)
  from AppendVector_values [OF this, of ?w 1] have "GetValueByDim (vec_AppendVector ?w ?v) 1 =
      (case GetValueByDim ?v 1 of Some x \<Rightarrow> Some x | None \<Rightarrow> GetValueByDim ?w 1)"
    by (rule conjunct1)
  also have "\<dots> = Some (Fin 7)" by (simp add: GetValueByDim_def AddValue_def new_att_vec_def cmap_find_def)
  finally show ?thesis .
qed

section \<open>The model of classes\<close>

definition model_ok :: "('v, 'v att_set) clust_model \<Rightarrow> bool" where
  "model_ok m \<longleftrightarrow> length (c_atts m) = length (c_sets m) \<and> length (c_atts m) < 2 ^ 31 \<and> None \<notin> set (c_atts m) \<and>
     None \<notin> set (c_sets m) \<and> (\<forall>s. Some s \<in> set (c_sets m) \<longrightarrow> None \<notin> set s)"

text \<open>\<open>ClearModel\<close> empties the centres of a consistent model but never the sets: a model that had
  classes counts no classes any more and refuses every new one.\<close>

theorem ClearModel_stuck:
  assumes "length (c_atts m) = length (c_sets m)" and "c_atts m \<noteq> []"
  shows "c_atts (ClearModel m) = [] \<and> c_sets (ClearModel m) = c_sets m \<and> GetClassCount (ClearModel m) = None \<and>
     AppendClass s a (ClearModel m) = (ClearModel m, False) \<and> ClearModel (ClearModel m) = ClearModel m"
  using assms by (auto simp: ClearModel_def GetClassCount_def AppendClass_def)

lemma ClearModel_stuck_witness:
  "AppendClass (Some ''t'') (Some ''b'') (ClearModel (fst (AppendClass (Some ''s'') (Some ''a'') new_clust_model))) =
     (ClearModel (fst (AppendClass (Some ''s'') (Some ''a'') new_clust_model)), False)"
proof -
  let ?m = "fst (AppendClass (Some ''s'') (Some ''a'') new_clust_model)"
  have "length (c_atts ?m) = length (c_sets ?m)" "c_atts ?m \<noteq> []"
    by (simp_all add: AppendClass_def new_clust_model_def)
  from ClearModel_stuck [OF this] show ?thesis by blast
qed

section \<open>Threshold clusters implement leader clustering\<close>

text \<open>
  The specification: a document joins the first class whose leader it is near to, and founds a class
  otherwise.
\<close>

fun add_doc :: "('v \<Rightarrow> 'v \<Rightarrow> bool) \<Rightarrow> 'v \<Rightarrow> ('v \<times> 'v list) list \<Rightarrow> ('v \<times> 'v list) list" where
  "add_doc near v [] = [(v, [v])]"
| "add_doc near v ((c, ms) # cs) = (if near v c then (c, ms @ [v]) # cs else (c, ms) # add_doc near v cs)"

lemma add_doc_members: "mset (concat (map snd (add_doc near v cs))) = mset (concat (map snd cs)) + {#v#}"
  by (induction near v cs rule: add_doc.induct) auto

lemma add_doc_leaders:
  "map fst (add_doc near v cs) =
     (if list_all (\<lambda>c. \<not> near v c) (map fst cs) then map fst cs @ [v] else map fst cs)"
  by (induction near v cs rule: add_doc.induct) auto

lemma fold_add_doc_members:
  "mset (concat (map snd (fold (add_doc near) docs cs))) = mset (concat (map snd cs)) + mset docs"
  by (induction docs arbitrary: cs) (simp_all add: add_doc_members del: mset_concat)

text \<open>Every class is headed by its leader and holds documents near to it.\<close>

definition led :: "('v \<Rightarrow> 'v \<Rightarrow> bool) \<Rightarrow> 'v \<times> 'v list \<Rightarrow> bool" where
  "led near p \<longleftrightarrow> (\<exists>ms. snd p = fst p # ms \<and> list_all (\<lambda>v. near v (fst p)) ms)"

lemma add_doc_led: "list_all (led near) cs \<Longrightarrow> list_all (led near) (add_doc near v cs)"
  by (induction near v cs rule: add_doc.induct) (auto simp: led_def)

lemma fold_add_doc_led: "list_all (led near) cs \<Longrightarrow> list_all (led near) (fold (add_doc near) docs cs)"
  by (induction docs arbitrary: cs) (simp_all add: add_doc_led)

lemma fold_add_doc_apart:
  "sorted_wrt (\<lambda>c d. \<not> near d c) (map fst cs) \<Longrightarrow> sorted_wrt (\<lambda>c d. \<not> near d c) (map fst (fold (add_doc near) docs cs))"
proof (induction docs arbitrary: cs)
  case (Cons v docs)
  have "sorted_wrt (\<lambda>c d. \<not> near d c) (map fst (add_doc near v cs))"
    unfolding add_doc_leaders using Cons.prems by (simp add: sorted_wrt_append list_all_iff)
  then show ?case using Cons.IH by simp
qed simp

section \<open>\<open>CaculModel\<close> refines leader clustering\<close>

definition classes :: "('v, 'v att_set) clust_model \<Rightarrow> ('v \<times> 'v list) list" where
  "classes m = zip (map the (c_atts m)) (map (map the \<circ> the) (c_sets m))"

abbreviation near_doc :: "('d, 'n) threshold_cluster \<Rightarrow> ('d, 'n) att_vec \<Rightarrow> ('d, 'n) att_vec \<Rightarrow> bool" where
  "near_doc t v c \<equiv> flt_less (threshold t) (CaculSimilarity v c)"

text \<open>The search of \<open>FindSimilarClass\<close>, from class \<open>k\<close> on.\<close>

fun first_near :: "('v \<Rightarrow> bool) \<Rightarrow> 'v list \<Rightarrow> nat option" where
  "first_near P [] = None"
| "first_near P (c # cs) = (if P c then Some 0 else map_option Suc (first_near P cs))"

lemma GetVectorByIndex_in:
  "int (length s) < 2 ^ 31 \<Longrightarrow> k < length s \<Longrightarrow> GetVectorByIndex s (int k) = bindE (addref (s ! k)) (\<lambda>v. Inr (Some v))"
  by (simp add: GetVectorByIndex_def int_of_size_id)

lemma find_class_first:
  assumes "int (length (c_atts m)) < 2 ^ 31" and "None \<notin> set (c_atts m)" and "k \<le> length (c_atts m)"
  shows "find_class m vec th [int k..int (length (c_atts m)) - 1] =
     Inr (case first_near (\<lambda>c. flt_less th (CaculSimilarity vec c)) (drop k (map the (c_atts m))) of
            Some i \<Rightarrow> int (k + i) | None \<Rightarrow> - 1)"
  using assms(3)
proof (induction "length (c_atts m) - k" arbitrary: k)
  case 0
  then show ?case by simp
next
  case (Suc n)
  then have k: "k < length (c_atts m)" by simp
  then obtain v where v: "c_atts m ! k = Some v" using assms(2) by (metis not_None_eq nth_mem)
  have up: "[int k..int (length (c_atts m)) - 1] = int k # [int (Suc k)..int (length (c_atts m)) - 1]"
    using k by (subst upto_rec1) (simp_all add: add.commute)
  have "drop k (map the (c_atts m)) = v # drop (Suc k) (map the (c_atts m))"
    using k v by (simp add: Cons_nth_drop_Suc [symmetric] drop_map)
  moreover have "GetClassAtt m (int k) = Inr (Some v)"
    using GetVectorByIndex_in [OF assms(1) k] v by (simp add: GetClassAtt_def addref_def)
  ultimately show ?case
    using Suc.hyps(1) [of "Suc k"] Suc.hyps(2) k up by (simp split: option.splits)
qed

lemma first_near_Some: "first_near P cs = Some i \<Longrightarrow> i < length cs"
  by (induction P cs arbitrary: i rule: first_near.induct) (auto split: if_splits)

lemma add_doc_zip:
  "length cs = length ss \<Longrightarrow> add_doc near v (zip cs ss) =
     (case first_near (near v) cs of
        None \<Rightarrow> zip cs ss @ [(v, [v])]
      | Some i \<Rightarrow> zip cs (ss[i := ss ! i @ [v]]))"
  by (induction cs ss rule: list_induct2) (auto split: option.splits)

lemma place_doc_refines:
  assumes ok: "model_ok (m_model t)" and room: "int (length (c_atts (m_model t))) + 1 < 2 ^ 31"
  shows "\<exists>t'. place_doc vec t = Inr t' \<and> model_ok (m_model t') \<and>
     classes (m_model t') = add_doc (near_doc t) vec (classes (m_model t)) \<and>
     length (c_atts (m_model t')) \<le> length (c_atts (m_model t)) + 1 \<and>
     m_atts t' = m_atts t \<and> dParams t' = dParams t \<and> sParams t' = sParams t"
proof -
  let ?m = "m_model t" and ?P = "near_doc t vec"
  have len: "length (c_sets ?m) = length (c_atts ?m)" and short: "int (length (c_atts ?m)) < 2 ^ 31"
    using ok room by (simp_all add: model_ok_def)
  have find: "FindSimilarClass t vec = Inr (case first_near ?P (map the (c_atts ?m)) of Some i \<Rightarrow> int i | None \<Rightarrow> - 1)"
    using find_class_first [of ?m 0 vec "threshold t"] ok short
    by (simp add: FindSimilarClass_def GetClassCount_def len int_of_size_id model_ok_def split: option.splits)
  have add: "add_doc (near_doc t) vec (classes ?m) =
     (case first_near ?P (map the (c_atts ?m)) of
        None \<Rightarrow> classes ?m @ [(vec, [vec])]
      | Some i \<Rightarrow> zip (map the (c_atts ?m)) ((map (map the \<circ> the) (c_sets ?m))[i := map (map the \<circ> the) (c_sets ?m) ! i @ [vec]]))"
    unfolding classes_def by (rule add_doc_zip) (simp add: len)
  show ?thesis
  proof (cases "first_near ?P (map the (c_atts ?m))")
    case None
    then show ?thesis
      using ok room len find add
      by (auto simp: place_doc_def AppendClass_def set_AppendVector_def model_ok_def classes_def)
  next
    case (Some i)
    then have i: "i < length (c_atts ?m)" using first_near_Some by fastforce
    then have "c_sets ?m ! i \<in> set (c_sets ?m)" by (simp add: len)
    then obtain s where s: "c_sets ?m ! i = Some s" "None \<notin> set s"
      using ok by (metis model_ok_def not_None_eq)
    have g: "GetClassSet ?m (int i) = Inr (Some s)"
      using GetVectorByIndex_in [of "c_sets ?m" i] i short s len by (simp add: GetClassSet_def addref_def)
    let ?t = "t\<lparr>m_model := ?m\<lparr>c_sets := (c_sets ?m)[i := Some (s @ [Some vec])]\<rparr>\<rparr>"
    have "place_doc vec t = Inr ?t"
      using find Some g by (simp add: place_doc_def addref_def set_AppendVector_def)
    moreover have "model_ok (m_model ?t)"
      using ok s i len by (auto simp: model_ok_def dest!: set_update_subset_insert [THEN subsetD])
    moreover have "classes (m_model ?t) = add_doc (near_doc t) vec (classes ?m)"
      using Some add s i len by (simp add: classes_def map_update)
    ultimately show ?thesis by (intro exI [of _ ?t]) simp
  qed
qed

definition next_doc :: "int \<Rightarrow> ('d, 'n) threshold_cluster \<Rightarrow> ('d, 'n) threshold_cluster res" where
  "next_doc i t = bindE (GetVectorByIndex (m_atts t) i) (\<lambda>vec. bindE (addref vec) (\<lambda>vec. place_doc vec t))"

lemma CaculModel_next: "CaculModel t = foldE next_doc [0..set_GetLength (m_atts t) - 1] t"
  by (simp add: CaculModel_def next_doc_def [abs_def])

lemma next_docs_refine:
  assumes "model_ok (m_model t)" and "None \<notin> set (m_atts t)" and "k \<le> length (m_atts t)"
    and "length (c_atts (m_model t)) + (length (m_atts t) - k) < 2 ^ 31" and "length (m_atts t) < 2 ^ 31"
  shows "\<exists>t'. foldE next_doc [int k..int (length (m_atts t)) - 1] t = Inr t' \<and> model_ok (m_model t') \<and> m_atts t' = m_atts t \<and>
     classes (m_model t') = fold (add_doc (near_doc t)) (map the (drop k (m_atts t))) (classes (m_model t))"
  using assms
proof (induction "length (m_atts t) - k" arbitrary: k t)
  case 0
  then show ?case by simp
next
  case (Suc n)
  then have k: "k < length (m_atts t)" by simp
  then obtain v where v: "m_atts t ! k = Some v" using Suc.prems(2) by (metis not_None_eq nth_mem)
  have up: "[int k..int (length (m_atts t)) - 1] = int k # [int (Suc k)..int (length (m_atts t)) - 1]"
    using k by (subst upto_rec1) (simp_all add: add.commute)
  have d: "map the (drop k (m_atts t)) = v # map the (drop (Suc k) (m_atts t))"
    using k v by (simp add: Cons_nth_drop_Suc [symmetric])
  have step: "next_doc (int k) t = place_doc v t"
    using GetVectorByIndex_in [of "m_atts t" k] k v Suc.prems(5) by (simp add: next_doc_def addref_def)
  have "int (length (c_atts (m_model t))) + 1 < 2 ^ 31" using Suc.prems(4) k by simp
  from place_doc_refines [OF Suc.prems(1) this, of v] obtain t1 where t1: "place_doc v t = Inr t1" "model_ok (m_model t1)"
      "classes (m_model t1) = add_doc (near_doc t) v (classes (m_model t))"
      "length (c_atts (m_model t1)) \<le> length (c_atts (m_model t)) + 1" "m_atts t1 = m_atts t" "dParams t1 = dParams t"
    by blast
  have th: "threshold t1 = threshold t" by (simp add: threshold_def t1(6))
  have "n = length (m_atts t1) - Suc k" "Suc k \<le> length (m_atts t1)" "None \<notin> set (m_atts t1)"
    "length (c_atts (m_model t1)) + (length (m_atts t1) - Suc k) < 2 ^ 31" "length (m_atts t1) < 2 ^ 31"
    using Suc.hyps(2) Suc.prems k t1(4) by (simp_all add: t1(5))
  from Suc.hyps(1) [OF this(1) t1(2) this(3) this(2) this(4) this(5)] show ?case
    by (simp add: up step t1 th d)
qed

text \<open>C4.  \<open>CaculModel\<close> refines leader clustering: on a consistent model and a set of vectors it does not
  fail, keeps the model consistent, and its classes are those the specification gives for the
  vectors in their order.\<close>

theorem CaculModel_refines:
  assumes "model_ok (m_model t)" and "None \<notin> set (m_atts t)"
    and "length (c_atts (m_model t)) + length (m_atts t) < 2 ^ 31"
  shows "\<exists>t'. CaculModel t = Inr t' \<and> model_ok (m_model t') \<and>
     classes (m_model t') = fold (add_doc (near_doc t)) (map the (m_atts t)) (classes (m_model t))"
  using next_docs_refine [OF assms(1,2), of 0] assms(3)
  by (auto simp: CaculModel_next set_GetLength_def int_of_size_id)

definition sample_docs :: "(unit, unit) threshold_cluster" where
  "sample_docs = SetAtt [Some (AddValue 0 (Fin 1) new_att_vec), Some (AddValue 1 (Fin 1) new_att_vec),
     Some (AddValue 0 (Fin 2) new_att_vec)] new_threshold_cluster"

lemma sample_docs_ok: "model_ok (m_model sample_docs)" "None \<notin> set (m_atts sample_docs)"
    "length (c_atts (m_model sample_docs)) + length (m_atts sample_docs) < 2 ^ 31"
    "m_model sample_docs = new_clust_model"
  by (simp_all add: sample_docs_def SetAtt_def new_threshold_cluster_def new_clust_model_def model_ok_def)

lemma CaculModel_refines_witness:
  "\<exists>t'. CaculModel sample_docs = Inr t' \<and> model_ok (m_model t') \<and>
     classes (m_model t') = fold (add_doc (near_doc sample_docs)) (map the (m_atts sample_docs)) (classes (m_model sample_docs))"
  by (rule CaculModel_refines [OF sample_docs_ok(1-3)])

text \<open>C20.  Starting from an empty model, \<open>CaculModel\<close> puts every document into exactly one class; each class
  begins with its centre, its other documents have a similarity to the centre above the
  threshold, and no centre has such a similarity to an earlier one.\<close>

theorem CaculModel_classes:
  assumes "m_model t = new_clust_model" and "None \<notin> set (m_atts t)" and "length (m_atts t) < 2 ^ 31"
  shows "\<exists>t'. CaculModel t = Inr t' \<and>
     mset (concat (map snd (classes (m_model t')))) = mset (map the (m_atts t)) \<and>
     list_all (led (near_doc t)) (classes (m_model t')) \<and>
     sorted_wrt (\<lambda>c d. \<not> near_doc t d c) (map fst (classes (m_model t')))"
proof -
  have "model_ok (m_model t)" "classes (m_model t) = []" "length (c_atts (m_model t)) = 0"
    by (simp_all add: assms(1) new_clust_model_def model_ok_def classes_def)
  then obtain t' where "CaculModel t = Inr t'"
      "classes (m_model t') = fold (add_doc (near_doc t)) (map the (m_atts t)) []"
    using next_docs_refine [of t 0] assms(2,3)
    by (auto simp: CaculModel_next set_GetLength_def int_of_size_id)
  then show ?thesis
    using fold_add_doc_members [of "near_doc t" "map the (m_atts t)" "[]"]
      fold_add_doc_led [of "near_doc t" "[]" "map the (m_atts t)"]
      fold_add_doc_apart [of "near_doc t" "[]" "map the (m_atts t)"]
    by simp
qed

lemma CaculModel_classes_witness:
  "\<exists>t'. CaculModel sample_docs = Inr t' \<and>
     mset (concat (map snd (classes (m_model t')))) = mset (map the (m_atts sample_docs)) \<and>
     list_all (led (near_doc sample_docs)) (classes (m_model t')) \<and>
     sorted_wrt (\<lambda>c d. \<not> near_doc sample_docs d c) (map fst (classes (m_model t')))"
  by (rule CaculModel_classes [OF sample_docs_ok(4,2)]) (simp add: sample_docs_def SetAtt_def new_threshold_cluster_def)

end
