(* ===== verification/DocAtt.thy ===== *)
theory DocAtt
  imports DomAtt AttClusters
begin

text \<open>
  \<open>DisCrawler/StatCom/nsDocSet.cpp\<close> and \<open>nsDocAtt.cpp\<close>: a set of documents, and one attribute vector for
  every element of a document that has a visible box and children: its area, its likeness to parent
  and siblings, its depth and its shape.  The logarithm of the C library is the argument \<open>lg\<close>.
  Elements hidden by their style are shown first; \<open>set_attr\<close> is the browser's answer to \<open>SetAttribute\<close>.
\<close>

section \<open>Sets of documents\<close>

type_synonym 'n doc_set = "'n option list"

definition GetDocCount :: "'n doc_set \<Rightarrow> int" where
  "GetDocCount docs = int_of_size (length docs)"

text \<open>The inner \<open>None\<close> is \<open>NS_ERROR_FAILURE\<close>.\<close>

definition GetDocByIndex :: "'n doc_set \<Rightarrow> int \<Rightarrow> 'n option res" where
  "GetDocByIndex docs index =
     (if index < int_of_size (length docs) then
        (if index < 0 then Inl OutOfBounds else bindE (addref (docs ! nat index)) (\<lambda>dc. Inr (Some dc)))
      else Inr None)"

definition set_AddDocument :: "'n option \<Rightarrow> 'n doc_set \<Rightarrow> 'n doc_set" where
  "set_AddDocument doc docs = docs @ [doc]"

section \<open>Attributes of a document\<close>

type_synonym 'n node_vec = "('n, 'n) att_vec"

record 'n doc_att =
  da_docs :: "'n doc_set option"
  vset :: "'n node_vec att_set"
  vdim :: "att_dim option"

definition new_doc_att :: "'n doc_att" where
  "new_doc_att = \<lparr>da_docs = None, vset = [], vdim = None\<rparr>"

definition GetDim :: "'n doc_att \<Rightarrow> att_dim res" where
  "GetDim st = addref (vdim st)"

definition SetDim :: "att_dim option \<Rightarrow> 'n doc_att \<Rightarrow> 'n doc_att" where
  "SetDim dims st = st\<lparr>vdim := dims\<rparr>"

definition GetVectorCount :: "'n doc_att \<Rightarrow> int" where
  "GetVectorCount st = set_GetLength (vset st)"

definition att_GetVectorByIndex :: "'n doc_att \<Rightarrow> int \<Rightarrow> 'n node_vec res" where
  "att_GetVectorByIndex st index = bindE (GetVectorByIndex (vset st) index) addref"

text \<open>\<open>GetResult\<close> reads document and node of every vector before it hands out the set.\<close>

definition GetResult :: "'n doc_att \<Rightarrow> 'n node_vec att_set res" where
  "GetResult st =
     bindE (foldE (\<lambda>i _. bindE (GetVectorByIndex (vset st) i) (\<lambda>p. bindE (addref p) (\<lambda>vec.
              bindE (GetDoc vec) (\<lambda>_. bindE (GetNode vec) (\<lambda>_. Inr ())))))
            [0..set_GetLength (vset st) - 1] ())
       (\<lambda>_. Inr (vset st))"

text \<open>A value is added when the dimension has a number.\<close>

definition add_named :: "att_dim \<Rightarrow> bytes \<Rightarrow> flt \<Rightarrow> 'n node_vec \<Rightarrow> 'n node_vec" where
  "add_named dims name x v = (let dimid = fst (GetDimId dims name) in if 0 \<le> dimid then AddValue dimid x v else v)"

definition area_rate :: "(flt \<Rightarrow> flt) \<Rightarrow> int \<Rightarrow> int \<Rightarrow> flt" where
  "area_rate lg box docArea = fdiv f64 (fneg (lg (fdiv f64 (Fin (of_int box)) (Fin (of_int docArea))))) (Fin 5)"

definition box_vector ::
  "(flt \<Rightarrow> flt) \<Rightarrow> att_dim \<Rightarrow> 'n \<Rightarrow> 'n \<Rightarrow> int \<Rightarrow> int \<Rightarrow> int \<Rightarrow> flt \<Rightarrow> flt \<Rightarrow> int \<Rightarrow> 'n node_vec res" where
  "box_vector lg dims domdoc n w h docArea par ldist depth =
     (let v = SetNode (Some n) (SetDoc (Some domdoc) new_att_vec);
          v = add_named dims ''AREA_RATE'' (area_rate lg (w * h) docArea) v;
          v = add_named dims ''STYLE_PAR'' par v;
          v = add_named dims ''STYLE_SIB'' ldist v;
          v = add_named dims ''DEPTH'' (fdiv f64 (lg (Fin (of_int depth))) (Fin 2)) v
      in if 0 \<le> fst (GetDimId dims ''WH_RATE'') then
           bindE (check_int (h + w)) (\<lambda>hw.
             Inr (add_named dims ''WH_RATE'' (fdiv f64 (Fin (of_int w)) (Fin (of_int hw))) v))
         else Inr v)"

text \<open>One element: its box must be known, and not empty; without children it gives no vector.\<close>

definition box_node ::
  "('n \<Rightarrow> bytes \<Rightarrow> bytes \<Rightarrow> 'n browser \<Rightarrow> 'n browser) \<Rightarrow> (flt \<Rightarrow> flt) \<Rightarrow> 'n \<Rightarrow> int \<Rightarrow> 'n \<Rightarrow>
    'n browser \<Rightarrow> 'n doc_att \<Rightarrow> ('n browser \<times> 'n doc_att) run" where
  "box_node set_attr lg domdoc docArea n b st =
     (if nodeType (page b) n \<noteq> ELEMENT_NODE then Some (Inl NullDeref)
      else
        let b = (if getAttribute (page b) n ''style'' = ''display: none;'' then set_attr n ''style'' [] b else b)
        in case GetEleBox b (Some n) of
             None \<Rightarrow> Some (Inl UninitRead)
           | Some (x, y, w, h) \<Rightarrow>
               bindR (Some (check_int (h * w))) (\<lambda>hw.
                 if 0 < hw \<and> 0 \<le> x \<and> 0 \<le> y then
                   (case childNodes (page b) n of
                      None \<Rightarrow> Some (Inl NullDeref)
                    | Some cs \<Rightarrow>
                        if cs = [] then Some (Inr (b, st))
                        else
                          bindR (CalSibParentDist b (Some n)) (\<lambda>(par, ldist).
                          bindR (CalNodeDepth (page b) (Some n)) (\<lambda>depth.
                          bindR (Some (addref (vdim st))) (\<lambda>dims.
                          bindR (Some (box_vector lg dims domdoc n w h docArea par ldist depth)) (\<lambda>v.
                            Some (Inr (b, st\<lparr>vset := set_AppendVector (Some v) (vset st)\<rparr>)))))))
                 else Some (Inr (b, st))))"

fun box_nodes ::
  "('n \<Rightarrow> bytes \<Rightarrow> bytes \<Rightarrow> 'n browser \<Rightarrow> 'n browser) \<Rightarrow> (flt \<Rightarrow> flt) \<Rightarrow> 'n \<Rightarrow> int \<Rightarrow> 'n list \<Rightarrow>
    'n browser \<Rightarrow> 'n doc_att \<Rightarrow> ('n browser \<times> 'n doc_att) run" where
  "box_nodes set_attr lg domdoc docArea [] b st = Some (Inr (b, st))"
| "box_nodes set_attr lg domdoc docArea (n # ns) b st =
     bindR (box_node set_attr lg domdoc docArea n b st) (\<lambda>(b, st). box_nodes set_attr lg domdoc docArea ns b st)"

text \<open>The area of the document is that of its element, at least 1280 by 1024.\<close>

definition doc_area :: "'n browser \<Rightarrow> 'n \<Rightarrow> int res" where
  "doc_area b domdoc =
     (let (docw, doch) = (case GetEleBox b (documentElement b domdoc) of None \<Rightarrow> (0, 0) | Some (x, y, w, h) \<Rightarrow> (w, h))
      in check_int (max docw 1280 * max doch 1024))"

definition GetBoxAtt ::
  "('n \<Rightarrow> bytes \<Rightarrow> bytes \<Rightarrow> 'n browser \<Rightarrow> 'n browser) \<Rightarrow> (flt \<Rightarrow> flt) \<Rightarrow> 'n \<Rightarrow>
    'n browser \<Rightarrow> 'n doc_att \<Rightarrow> ('n browser \<times> 'n doc_att) run" where
  "GetBoxAtt set_attr lg domdoc b st =
     bindR (Some (doc_area b domdoc)) (\<lambda>docArea.
     bindR (Some (doc_nodes b (Some domdoc) ''//*'')) (\<lambda>nodeArr.
       box_nodes set_attr lg domdoc docArea nodeArr b st))"

definition AddDocument ::
  "('n \<Rightarrow> bytes \<Rightarrow> bytes \<Rightarrow> 'n browser \<Rightarrow> 'n browser) \<Rightarrow> (flt \<Rightarrow> flt) \<Rightarrow> 'n option \<Rightarrow>
    'n browser \<Rightarrow> 'n doc_att \<Rightarrow> ('n browser \<times> 'n doc_att) run" where
  "AddDocument set_attr lg doc b st =
     (case doc of
        None \<Rightarrow> Some (Inr (b, st))
      | Some domdoc \<Rightarrow>
          let docs = (case da_docs st of None \<Rightarrow> [] | Some ds \<Rightarrow> ds)
          in GetBoxAtt set_attr lg domdoc b (st\<lparr>da_docs := Some (set_AddDocument doc docs)\<rparr>))"

section \<open>What the vectors hold\<close>

definition boxed :: "'n browser \<Rightarrow> 'n \<Rightarrow> bool" where
  "boxed b n \<longleftrightarrow>
     (case GetEleBox b (Some n) of
        None \<Rightarrow> False
      | Some (x, y, w, h) \<Rightarrow> 0 < h * w \<and> 0 \<le> x \<and> 0 \<le> y \<and> kids (page b) n \<noteq> [])"

definition box_area :: "'n browser \<Rightarrow> 'n \<Rightarrow> int" where
  "box_area b n = (case GetEleBox b (Some n) of None \<Rightarrow> 0 | Some (x, y, w, h) \<Rightarrow> w * h)"

text \<open>An element that is not hidden, whose box and style and those around it are known.\<close>

definition shown :: "'n browser \<Rightarrow> ('n \<Rightarrow> nat) \<Rightarrow> 'n \<Rightarrow> bool" where
  "shown b up n \<longleftrightarrow>
     nodeType (page b) n = ELEMENT_NODE \<and> getAttribute (page b) n ''style'' \<noteq> ''display: none;'' \<and>
     childNodes (page b) n \<noteq> None \<and> up n < 2 ^ 31 - 1 \<and>
     (case GetEleBox b (Some n) of None \<Rightarrow> False | Some (x, y, w, h) \<Rightarrow> int_ok (h * w) \<and> int_ok (h + w)) \<and>
     (case parentNode (page b) n of None \<Rightarrow> False | Some p \<Rightarrow> list_all (styled b) (p # kids (page b) p))"

lemma add_named_keeps:
  assumes "cmap_ok (vect v)" "GetValueByDim v i = Some a"
  shows "cmap_ok (vect (add_named dims name x v)) \<and> GetValueByDim (add_named dims name x v) i = Some a
    \<and> m_doc (add_named dims name x v) = m_doc v \<and> m_node (add_named dims name x v) = m_node v"
  using assms by (auto simp: add_named_def AddValue_def GetValueByDim_def Let_def)

lemma box_vector_holds:
  assumes "fst (GetDimId dims ''AREA_RATE'') = i" "0 \<le> i" "int_ok (h + w)"
  shows "\<exists>v. box_vector lg dims domdoc n w h docArea par ldist depth = Inr v \<and> m_doc v = Some domdoc \<and> m_node v = Some n
    \<and> GetValueByDim v i = Some (area_rate lg (w * h) docArea)"
proof -
  let ?v = "add_named dims ''AREA_RATE'' (area_rate lg (w * h) docArea) (SetNode (Some n) (SetDoc (Some domdoc) new_att_vec))"
  define holds where "holds v \<longleftrightarrow> cmap_ok (vect v) \<and> GetValueByDim v i = Some (area_rate lg (w * h) docArea)
    \<and> m_doc v = Some domdoc \<and> m_node v = Some n" for v :: "'a node_vec"
  have keep: "holds v \<Longrightarrow> holds (add_named dims name x v)" for name x v
    using add_named_keeps [of v i] by (auto simp: holds_def)
  have "holds ?v"
    using assms(1,2)
    by (simp add: holds_def add_named_def Let_def AddValue_def GetValueByDim_def SetNode_def SetDoc_def new_att_vec_def
        cmap_find_def cmap_ok_def)
  note most = keep [OF keep [OF keep [OF this]]]
  show ?thesis
    using most keep [OF most] assms(3) by (auto simp: box_vector_def Let_def check_int_def holds_def)
qed

lemma box_node_appends:
  assumes "browser_tree b up down" "shown b up n" "vdim st = Some dims" "fst (GetDimId dims ''AREA_RATE'') = i" "0 \<le> i"
  shows "\<exists>vs. box_node set_attr lg domdoc docArea n b st = Some (Inr (b, st\<lparr>vset := vset st @ map Some vs\<rparr>))
    \<and> map (\<lambda>v. (m_doc v, m_node v, GetValueByDim v i)) vs =
        (if boxed b n then [(Some domdoc, Some n, Some (area_rate lg (box_area b n) docArea))] else [])"
proof -
  obtain x y w h where box: "GetEleBox b (Some n) = Some (x, y, w, h)" "int_ok (h * w)" "int_ok (h + w)"
    using assms(2) by (auto simp: shown_def split: option.splits)
  obtain cs where cs: "childNodes (page b) n = Some cs" "kids (page b) n = cs"
    using assms(2) by (auto simp: shown_def kids_def)
  note facts = assms(2) box cs
  show ?thesis
  proof (cases "boxed b n")
    case False
    then have "box_node set_attr lg domdoc docArea n b st = Some (Inr (b, st))"
      using facts by (auto simp: box_node_def boxed_def shown_def check_int_def)
    then show ?thesis using False by (intro exI [of _ "[]"]) simp
  next
    case True
    obtain p where p: "parentNode (page b) n = Some p" "list_all (styled b) (p # kids (page b) p)"
      using assms(2) by (auto simp: shown_def split: option.splits)
    have "n \<in> set (kids (page b) p)"
      using p(1) dom_tree.child_iff [OF browser_tree.axioms(1) [OF assms(1)]] by blast
    then obtain xs ys where k: "kids (page b) p = xs @ n # ys" by (meson split_list)
    obtain u l where s: "CalSibParentDist b (Some n) = Some (Inr (u, l))"
      using sib_parent_unit [OF assms(1) k] p(2) k by auto
    obtain depth where dep: "CalNodeDepth (page b) (Some n) = Some (Inr depth)"
      using node_depth_counts [OF browser_tree.axioms(1) [OF assms(1)]] assms(2) by (auto simp: shown_def)
    from box_vector_holds [OF assms(4,5) box(3), of lg domdoc n docArea u l depth]
    obtain v where v: "box_vector lg dims domdoc n w h docArea u l depth = Inr v" "m_doc v = Some domdoc" "m_node v = Some n"
        "GetValueByDim v i = Some (area_rate lg (w * h) docArea)"
      by blast
    have "box_node set_attr lg domdoc docArea n b st = Some (Inr (b, st\<lparr>vset := vset st @ map Some [v]\<rparr>))"
      using facts True s dep v(1) assms(3)
      by (simp add: box_node_def boxed_def shown_def check_int_def addref_def set_AppendVector_def Let_def)
    then show ?thesis using True v(2-4) box(1) by (intro exI [of _ "[v]"]) (simp add: box_area_def)
  qed
qed

lemma box_nodes_append:
  assumes "browser_tree b up down" "list_all (shown b up) ns" "vdim st = Some dims"
    "fst (GetDimId dims ''AREA_RATE'') = i" "0 \<le> i"
  shows "\<exists>vs. box_nodes set_attr lg domdoc docArea ns b st = Some (Inr (b, st\<lparr>vset := vset st @ map Some vs\<rparr>))
    \<and> map (\<lambda>v. (m_doc v, m_node v, GetValueByDim v i)) vs =
        map (\<lambda>n. (Some domdoc, Some n, Some (area_rate lg (box_area b n) docArea))) (filter (boxed b) ns)"
  using assms(2,3)
proof (induction ns arbitrary: st)
  case (Cons n ns)
  have n: "shown b up n" using Cons.prems(1) by simp
  obtain vs where vs: "box_node set_attr lg domdoc docArea n b st = Some (Inr (b, st\<lparr>vset := vset st @ map Some vs\<rparr>))"
      "map (\<lambda>v. (m_doc v, m_node v, GetValueByDim v i)) vs =
        (if boxed b n then [(Some domdoc, Some n, Some (area_rate lg (box_area b n) docArea))] else [])"
    using box_node_appends [OF assms(1) n Cons.prems(2) assms(4,5), of set_attr lg domdoc docArea] by blast
  obtain ws where ws: "box_nodes set_attr lg domdoc docArea ns b (st\<lparr>vset := vset st @ map Some vs\<rparr>) =
        Some (Inr (b, st\<lparr>vset := (vset st @ map Some vs) @ map Some ws\<rparr>))"
      "map (\<lambda>v. (m_doc v, m_node v, GetValueByDim v i)) ws =
        map (\<lambda>n. (Some domdoc, Some n, Some (area_rate lg (box_area b n) docArea))) (filter (boxed b) ns)"
    using Cons.IH [of "st\<lparr>vset := vset st @ map Some vs\<rparr>"] Cons.prems by auto
  show ?case using vs ws by (intro exI [of _ "vs @ ws"]) simp
qed (auto intro: exI [of _ "[]"])

text \<open>C13.  Adding a document whose elements are shown appends one vector for every element with a visible box
  and children, in document order, with the document, the node and the rate of its area.
\<close>

theorem AddDocument_vectors:
  assumes "browser_tree b up down" "doc_nodes b (Some domdoc) ''//*'' = Inr ns" "doc_area b domdoc = Inr docArea"
    "list_all (shown b up) ns" "vdim st = Some dims" "fst (GetDimId dims ''AREA_RATE'') = i" "0 \<le> i"
  shows "\<exists>vs st'. AddDocument set_attr lg (Some domdoc) b st = Some (Inr (b, st')) \<and> vset st' = vset st @ map Some vs
    \<and> da_docs st' = Some ((case da_docs st of None \<Rightarrow> [] | Some ds \<Rightarrow> ds) @ [Some domdoc])
    \<and> map (\<lambda>v. (m_doc v, m_node v, GetValueByDim v i)) vs =
        map (\<lambda>n. (Some domdoc, Some n, Some (area_rate lg (box_area b n) docArea))) (filter (boxed b) ns)"
proof -
  define s where "s = st\<lparr>da_docs := Some ((case da_docs st of None \<Rightarrow> [] | Some ds \<Rightarrow> ds) @ [Some domdoc])\<rparr>"
  have "vdim s = Some dims" using assms(5) by (simp add: s_def)
  from box_nodes_append [OF assms(1,4) this assms(6,7)] obtain vs where
    vs: "box_nodes set_attr lg domdoc docArea ns b s = Some (Inr (b, s\<lparr>vset := vset s @ map Some vs\<rparr>))"
      "map (\<lambda>v. (m_doc v, m_node v, GetValueByDim v i)) vs =
        map (\<lambda>n. (Some domdoc, Some n, Some (area_rate lg (box_area b n) docArea))) (filter (boxed b) ns)" by blast
  have "AddDocument set_attr lg (Some domdoc) b st = Some (Inr (b, s\<lparr>vset := vset s @ map Some vs\<rparr>))"
    using assms(2,3) vs(1) by (simp add: AddDocument_def GetBoxAtt_def set_AddDocument_def Let_def flip: s_def)
  then show ?thesis using vs(2) by (auto simp: s_def)
qed

text \<open>A page whose nodes all have the same box.\<close>

lemma box_tree:
  assumes "browser_tree b up down"
  shows "browser_tree (b\<lparr>page := (page b)\<lparr>boxOf := f\<rparr>\<rparr>) up down"
proof -
  note d = browser_tree.axioms(1) [OF assms, unfolded dom_tree_def] and s = browser_tree.axioms(2) [OF assms, unfolded browser_tree_axioms_def]
  have "kids ((page b)\<lparr>boxOf := f\<rparr>) = kids (page b)" by (simp add: kids_def fun_eq_iff)
  then show ?thesis
    using d s unfolding browser_tree_def dom_tree_def browser_tree_axioms_def by simp
qed

definition boxed_browser :: "nat list browser" where
  "boxed_browser = (browser_of link_page)\<lparr>page := (page (browser_of link_page))\<lparr>boxOf := (\<lambda>n. Some (0, 0, 100, 20))\<rparr>\<rparr>"

definition area_dims :: "nat list doc_att" where
  "area_dims = new_doc_att\<lparr>vdim := Some [(''AREA_RATE'', 0)]\<rparr>"

lemma AddDocument_vectors_witness:
  "\<exists>vs st'. AddDocument (\<lambda>n a v b. b) (\<lambda>x. x) (Some []) boxed_browser area_dims = Some (Inr (boxed_browser, st'))
    \<and> vset st' = vset area_dims @ map Some vs
    \<and> da_docs st' = Some ((case da_docs area_dims of None \<Rightarrow> [] | Some ds \<Rightarrow> ds) @ [Some []])
    \<and> map (\<lambda>v. (m_doc v, m_node v, GetValueByDim v 0)) vs =
        map (\<lambda>n. (Some [], Some n, Some (area_rate (\<lambda>x. x) (box_area boxed_browser n) (1280 * 1024))))
          (filter (boxed boxed_browser) [[0], [0, 0], [0, 1], [0, 2]])"
proof (rule AddDocument_vectors)
  show "vdim area_dims = Some [(''AREA_RATE'', 0)]" by (simp add: area_dims_def)
  have "c_str ''AREA_RATE'' = ''AREA_RATE''" by (simp add: c_str_def)
  then show "fst (GetDimId [(''AREA_RATE'', 0)] ''AREA_RATE'') = 0" by (simp add: GetDimId_def cmap_find_def)
  show "browser_tree boxed_browser length (node_height link_page)"
    unfolding boxed_browser_def by (rule box_tree [OF markup_browser.browser_tree_axioms])
  show "doc_nodes boxed_browser (Some []) ''//*'' = Inr [[0], [0, 0], [0, 1], [0, 2]]"
    by (simp add: boxed_browser_def doc_nodes_def link_eval)
  show "doc_area boxed_browser [] = Inr (1280 * 1024)"
    by (simp add: boxed_browser_def doc_area_def GetEleBox_def check_int_def int_ok_def link_eval)
  have "styled boxed_browser n" for n
    by (simp add: boxed_browser_def styled_def GetComLayoutInfo_def browser_of_def style_ok_Nil split: option.split)
  moreover have "GetEleBox boxed_browser (Some n) = Some (0, 0, 100, 20)" if "n \<noteq> []" for n
    using that by (simp add: boxed_browser_def GetEleBox_def browser_of_def)
  moreover have "childNodes (dom_of link_page) n \<noteq> None" if "n \<in> {[0], [0, 0], [0, 1], [0, 2]}" for n
    using that by (auto simp: dom_of_def link_page_def)
  ultimately show "list_all (shown boxed_browser length) [[0], [0, 0], [0, 1], [0, 2]]"
    by (simp add: shown_def list_all_iff int_ok_def)
      (simp add: boxed_browser_def getAttribute_def dom_of_simps link_page_def entry_def list_all_iff)
qed simp

end
