(* ===== verification/DimStat.thy ===== *)
theory DimStat
  imports DocAtt
begin

text \<open>
  \<open>DisCrawler/ContentTrain/nsDimStat.cpp\<close>: statistics of the XPaths of a set of documents.  A path is a
  dimension with a number; every document adds one record to each of its dimensions, the length of the
  elements' own texts and how many elements have the path.  \<open>ContentDocAtt.cpp\<close> turns each document into the
  vector of average lengths.
\<close>

section \<open>Walking the elements of a document\<close>

text \<open>Both classes enter only elements: the body is run on an element, then on those below it.\<close>

partial_function (option) walk_elements :: "'n dom \<Rightarrow> ('n \<Rightarrow> 's \<Rightarrow> 's run) \<Rightarrow> 'n list \<Rightarrow> 's \<Rightarrow> 's run" where
  "walk_elements d f ns s =
     (case ns of
        [] \<Rightarrow> Some (Inr s)
      | n # rest \<Rightarrow>
          if nodeType d n = ELEMENT_NODE then
            bindR (f n s) (\<lambda>s. bindR (walk_elements d f (kids d n) s) (walk_elements d f rest))
          else walk_elements d f rest s)"

definition child_elements :: "'n dom \<Rightarrow> 'n \<Rightarrow> 'n list" where
  "child_elements d n = filter (\<lambda>c. nodeType d c = ELEMENT_NODE) (kids d n)"

lemma foldR_append: "foldR f (xs @ ys) = (\<lambda>s. bindR (foldR f xs s) (foldR f ys))"
proof (induction xs)
  case (Cons x xs)
  show ?case unfolding append_Cons foldR.simps(2) [abs_def] Cons.IH by (simp add: bindR_assoc fun_eq_iff)
qed (simp add: fun_eq_iff)

context dom_tree
begin

lemma walk_elements_foldR:
  assumes "\<forall>n \<in> set ns. down n < k"
  shows "walk_elements d f ns s = foldR f (walk (child_elements d) k (filter (\<lambda>n. nodeType d n = ELEMENT_NODE) ns)) s"
  using assms
proof (induction k arbitrary: ns s)
  case 0
  then have "ns = []" by (cases ns) auto
  then show ?case by (simp add: walk_elements.simps)
next
  case (Suc k)
  from Suc.prems show ?case
  proof (induction ns arbitrary: s)
    case Nil
    then show ?case by (simp add: walk_elements.simps)
  next
    case (Cons n ns)
    have "\<forall>c \<in> set (kids d n). down c < k" using Cons.prems down [of _ n] by fastforce
    then have kids: "walk_elements d f (kids d n) s = foldR f (walk (child_elements d) k (child_elements d n)) s" for s
      using Suc.IH unfolding child_elements_def [of d n] by blast
    let ?elements = "filter (\<lambda>n. nodeType d n = ELEMENT_NODE)"
    have "walk_elements d f ns = foldR f (walk (child_elements d) (Suc k) (?elements ns))"
      using Cons.IH Cons.prems by (simp add: fun_eq_iff)
    then have "walk_elements d f (n # ns) s =
        (if nodeType d n = ELEMENT_NODE then
           bindR (f n s) (\<lambda>s. bindR (foldR f (walk (child_elements d) k (child_elements d n)) s)
             (foldR f (walk (child_elements d) (Suc k) (?elements ns))))
         else foldR f (walk (child_elements d) (Suc k) (?elements ns)) s)"
      by (subst walk_elements.simps) (simp only: kids list.case)
    then show ?case by (simp add: foldR_append)
  qed
qed

end

section \<open>Statistics of dimensions\<close>

record dim_stat =
  raw_dim :: "(int, (int \<times> int) list) cmap"
  xpathstat :: "(int, int list) cmap"
  p_attdim :: "att_dim option"

definition new_dim_stat :: dim_stat where
  "new_dim_stat = \<lparr>raw_dim = [], xpathstat = [], p_attdim = None\<rparr>"

definition SetAttDim :: "att_dim option \<Rightarrow> dim_stat \<Rightarrow> dim_stat" where
  "SetAttDim attdim st = st\<lparr>p_attdim := attdim\<rparr>"

text \<open>A sum in an \<open>int\<close>, and the quotient of two of them as \<open>double\<close>.\<close>

definition sum_int :: "int list \<Rightarrow> int res" where
  "sum_int ws = foldE (\<lambda>w total. check_int (total + w)) ws 0"

definition ratio :: "int \<Rightarrow> int \<Rightarrow> flt" where
  "ratio x y = fdiv f64 (Fin (of_int x)) (Fin (of_int y))"

text \<open>
  \<open>retval\<close> is what \<open>*_retval\<close> holds when the method is called: most of them leave it alone when the
  dimension has no records.  The parameter \<open>part\<close> selects the weight or the count of a record.
\<close>

definition GetTotalWeightByDim :: "dim_stat \<Rightarrow> int \<Rightarrow> flt" where
  "GetTotalWeightByDim st i =
     (case cmap_find (raw_dim st) i of
        None \<Rightarrow> Fin 0
      | Some records \<Rightarrow>
          let total_weight = fold (\<lambda>r t. fadd f64 t (Fin (of_int (fst r)))) records (Fin 0)
          in if flt_less (f64 (1 / 1000)) total_weight then total_weight else Fin 0)"

definition avrg_by_dim :: "(int \<times> int \<Rightarrow> int) \<Rightarrow> dim_stat \<Rightarrow> int \<Rightarrow> flt \<Rightarrow> flt res" where
  "avrg_by_dim part st i retval =
     (case cmap_find (raw_dim st) i of
        None \<Rightarrow> Inr retval
      | Some records \<Rightarrow>
          bindE (sum_int (map part records)) (\<lambda>total.
            Inr (if 0 < total then ratio total (int_of_size (length records)) else Fin 0)))"

definition variance_by_dim :: "(int \<times> int \<Rightarrow> int) \<Rightarrow> dim_stat \<Rightarrow> int \<Rightarrow> flt \<Rightarrow> flt res" where
  "variance_by_dim part st i retval =
     bindE (avrg_by_dim part st i (Fin 0)) (\<lambda>avrg.
       Inr (case cmap_find (raw_dim st) i of
              None \<Rightarrow> retval
            | Some records \<Rightarrow>
                let total_deviation = fold (\<lambda>r t. fadd f64 t (fsub f64 (Fin (of_int (part r))) avrg)) records (Fin 0)
                in if flt_less (f64 (1 / 1000)) total_deviation \<or> flt_less total_deviation (f64 (1 / 1000))
                   then fdiv f64 total_deviation (Fin (of_int (int_of_size (length records))))
                   else Fin 0))"

definition GetAvrgWeightByDim :: "dim_stat \<Rightarrow> int \<Rightarrow> flt \<Rightarrow> flt res" where
  "GetAvrgWeightByDim = avrg_by_dim fst"

definition GetWeightVarianceByDim :: "dim_stat \<Rightarrow> int \<Rightarrow> flt \<Rightarrow> flt res" where
  "GetWeightVarianceByDim = variance_by_dim fst"

definition GetAvrgShowCountByDim :: "dim_stat \<Rightarrow> int \<Rightarrow> flt \<Rightarrow> flt res" where
  "GetAvrgShowCountByDim = avrg_by_dim snd"

definition GetShowCountVarianceByDim :: "dim_stat \<Rightarrow> int \<Rightarrow> flt \<Rightarrow> flt res" where
  "GetShowCountVarianceByDim = variance_by_dim snd"

definition GetInverseDocCountByDim :: "dim_stat \<Rightarrow> int \<Rightarrow> flt" where
  "GetInverseDocCountByDim st i =
     (case cmap_find (raw_dim st) i of
        Some records \<Rightarrow> Fin (of_int (int_of_size (length records)))
      | None \<Rightarrow> f64 (1 / 10000))"

text \<open>\<open>doc_count\<close> is never written, and the method returns no value.\<close>

definition stat_GetDocCount :: "dim_stat \<Rightarrow> int res" where
  "stat_GetDocCount st = Inl UninitRead"

section \<open>Taking in a document\<close>

text \<open>The list of a key gets one more element.\<close>

definition append_value :: "'k :: linorder \<Rightarrow> 'v \<Rightarrow> ('k, 'v list) cmap \<Rightarrow> ('k, 'v list) cmap" where
  "append_value k v m =
     (case cmap_find m k of Some vs \<Rightarrow> cmap_set k (vs @ [v]) m | None \<Rightarrow> cmap_insert k [v] m)"

text \<open>The number of a path, which is the next free one when the path is new.\<close>

definition dim_for :: "bytes \<Rightarrow> att_dim \<Rightarrow> int \<times> att_dim" where
  "dim_for xp dims =
     (let i_dimid = fst (GetDimId dims xp)
      in if i_dimid = - 1 then (dim_GetCount dims, AddDim (dim_GetCount dims) xp dims) else (i_dimid, dims))"

definition DoStatistic :: "'n browser \<Rightarrow> 'n \<Rightarrow> dim_stat \<Rightarrow> dim_stat run" where
  "DoStatistic b n st =
     bindR (GetXpath (page b) [] (Some n) 1) (\<lambda>xp.
       if xp = [] then Some (Inr st)
       else
         bindR (Some (addref (p_attdim st))) (\<lambda>dims.
         bindR (Some (GetNodeOwnText b (Some n))) (\<lambda>nodetext.
           let (i_dimid, dims) = dim_for xp dims
           in Some (Inr (st\<lparr>p_attdim := Some dims,
                            xpathstat := append_value i_dimid (int_of_size (length nodetext)) (xpathstat st)\<rparr>)))))"

definition combine_entry :: "int \<times> int list \<Rightarrow> dim_stat \<Rightarrow> dim_stat res" where
  "combine_entry e st =
     bindE (sum_int (snd e)) (\<lambda>total_weight.
       Inr (st\<lparr>raw_dim := append_value (fst e) (total_weight, int_of_size (length (snd e))) (raw_dim st)\<rparr>))"

definition CombineStatisticResults :: "dim_stat \<Rightarrow> dim_stat res" where
  "CombineStatisticResults st = foldE combine_entry (xpathstat st) st"

definition SetDocument :: "'n browser \<Rightarrow> 'n option \<Rightarrow> dim_stat \<Rightarrow> dim_stat run" where
  "SetDocument b doc st =
     (case doc of
        None \<Rightarrow> Some (Inr st)
      | Some dc \<Rightarrow>
          bindR (walk_elements (page b) (DoStatistic b) (kids (page b) dc) (st\<lparr>xpathstat := []\<rparr>))
            (\<lambda>st. Some (CombineStatisticResults st)))"


section \<open>What a document adds\<close>

text \<open>Different paths have different numbers, all below the count.\<close>

definition dims_ok :: "att_dim \<Rightarrow> bool" where
  "dims_ok dims \<longleftrightarrow>
     cmap_ok dims \<and> (\<forall>p q i. cmap_find dims p = Some i \<longrightarrow> cmap_find dims q = Some i \<longrightarrow> p = q) \<and>
     (\<forall>p i. cmap_find dims p = Some i \<longrightarrow> 0 \<le> i \<and> i < int (length dims))"

definition elements_of :: "'n dom \<Rightarrow> ('n \<Rightarrow> nat) \<Rightarrow> 'n \<Rightarrow> 'n list" where
  "elements_of d down dc = walk (child_elements d) (down dc) (child_elements d dc)"

definition path_of :: "'n browser \<Rightarrow> 'n \<Rightarrow> bytes" where
  "path_of b n = (case GetXpath (page b) [] (Some n) 1 of Some (Inr p) \<Rightarrow> c_str p | _ \<Rightarrow> [])"

definition own_length :: "'n browser \<Rightarrow> 'n \<Rightarrow> nat" where
  "own_length b n = (case GetNodeOwnText b (Some n) of Inr t \<Rightarrow> length t | Inl e \<Rightarrow> 0)"

definition records_of :: "dim_stat \<Rightarrow> int \<Rightarrow> (int \<times> int) list" where
  "records_of st i = (case cmap_find (raw_dim st) i of None \<Rightarrow> [] | Some rs \<Rightarrow> rs)"

lemma cmap_find_append_value [simp]:
  "cmap_ok m \<Longrightarrow> cmap_find (append_value k v m) k' =
     (if k' = k then Some ((case cmap_find m k of None \<Rightarrow> [] | Some vs \<Rightarrow> vs) @ [v]) else cmap_find m k')"
  by (auto simp: append_value_def split: option.split)

lemma cmap_ok_append_value [simp]: "cmap_ok m \<Longrightarrow> cmap_ok (append_value k v m)"
  by (simp add: append_value_def split: option.split)

lemma length_cmap_insert: "cmap_ok m \<Longrightarrow> cmap_find m k = None \<Longrightarrow> length (cmap_insert k v m) = Suc (length m)"
proof (induction k v m rule: cmap_insert.induct)
  case (2 k v k' v' m)
  then show ?case by (auto simp: cmap_find_def cmap_ok_def)
qed simp

lemma dim_for_found:
  assumes "cmap_find dims (c_str p) = Some i" "dims_ok dims"
  shows "dim_for p dims = (i, dims)"
proof -
  have "0 \<le> i" using assms by (auto simp: dims_ok_def)
  then show ?thesis using assms(1) by (simp add: dim_for_def GetDimId_def)
qed

lemma dim_for_new:
  assumes "cmap_find dims (c_str p) = None" "dims_ok dims" "length dims < 2 ^ 31 - 1"
  obtains dims' where "dim_for p dims = (int (length dims), dims')" "dims_ok dims'" "length dims' = Suc (length dims)"
    "\<And>q. cmap_find dims' q = (if q = c_str p then Some (int (length dims)) else cmap_find dims q)"
proof
  let ?dims' = "AddDim (int (length dims)) p dims"
  show "dim_for p dims = (int (length dims), ?dims')"
    using assms by (simp add: dim_for_def GetDimId_def Let_def dim_GetCount_def int_of_size_id)
  have ok: "cmap_ok dims" using assms(2) by (simp add: dims_ok_def)
  show find: "cmap_find ?dims' q = (if q = c_str p then Some (int (length dims)) else cmap_find dims q)" for q
    using ok by (simp add: AddDim_def)
  show len: "length ?dims' = Suc (length dims)"
    using ok assms(1) by (simp add: AddDim_def cmap_set_def length_cmap_insert)
  have new: "cmap_find dims q \<noteq> Some (int (length dims))" for q
    using assms(2) by (fastforce simp: dims_ok_def)
  have cm: "cmap_ok ?dims'" using ok by (simp add: AddDim_def)
  have "\<forall>q r i. cmap_find ?dims' q = Some i \<longrightarrow> cmap_find ?dims' r = Some i \<longrightarrow> q = r"
    using assms(2) new unfolding find dims_ok_def by (metis option.inject)
  moreover have "\<forall>q i. cmap_find ?dims' q = Some i \<longrightarrow> 0 \<le> i \<and> i < int (length ?dims')"
    using assms(2) unfolding find len dims_ok_def by (simp split: if_split) (metis less_add_one less_trans add.commute)
  ultimately show "dims_ok ?dims'" using cm by (simp only: dims_ok_def [of ?dims'])
qed


text \<open>The elements \<open>ms\<close> have been counted under the numbers \<open>dims\<close>; \<open>raw\<close> are the records of the other documents.\<close>

definition counted :: "'n browser \<Rightarrow> (int, (int \<times> int) list) cmap \<Rightarrow> 'n list \<Rightarrow> dim_stat \<Rightarrow> att_dim \<Rightarrow> bool" where
  "counted b raw ms st dims \<longleftrightarrow>
     p_attdim st = Some dims \<and> dims_ok dims \<and> raw_dim st = raw \<and> cmap_ok (xpathstat st) \<and>
     (\<forall>m \<in> set ms. cmap_find dims (path_of b m) \<noteq> None) \<and>
     (\<forall>i. let ws = map (\<lambda>m. int (own_length b m)) (filter (\<lambda>m. cmap_find dims (path_of b m) = Some i) ms)
          in cmap_find (xpathstat st) i = (if ws = [] then None else Some ws))"

definition extends :: "att_dim \<Rightarrow> att_dim \<Rightarrow> bool" where
  "extends dims dims' \<longleftrightarrow> (\<forall>p i. cmap_find dims p = Some i \<longrightarrow> cmap_find dims' p = Some i)"

lemma counted_next:
  assumes "counted b raw ms st dims" "dims_ok dims'" "extends dims dims'" "cmap_find dims' (path_of b n) = Some i"
  shows "counted b raw (ms @ [n])
    (st\<lparr>p_attdim := Some dims', xpathstat := append_value i (int (own_length b n)) (xpathstat st)\<rparr>) dims'"
proof -
  have same: "cmap_find dims' (path_of b m) = cmap_find dims (path_of b m)" if "m \<in> set ms" for m
    using assms(1,3) that by (auto simp: counted_def extends_def)
  have "filter (\<lambda>m. cmap_find dims' (path_of b m) = Some j) ms = filter (\<lambda>m. cmap_find dims (path_of b m) = Some j) ms" for j
    using same by (auto intro: filter_cong)
  then show ?thesis
    using assms same by (auto simp: counted_def Let_def)
qed

context dom_tree
begin

lemma xpath_total:
  assumes "nodeType d n = ELEMENT_NODE"
  shows "\<exists>p. GetXpath d [] (Some n) 1 = Some (Inr p) \<and> p \<noteq> []"
proof -
  obtain r ns where ns: "last (r # ns) = n"
    "\<forall>ps. steps_up d [] (Some n) ps
       = Some (Inr (map (tag_step d []) (filter (\<lambda>m. nodeType d m = ELEMENT_NODE) (r # ns)) @ ps))"
    using root_path [OF assms] by blast
  have "n \<in> set (filter (\<lambda>m. nodeType d m = ELEMENT_NODE) (r # ns))"
    unfolding set_filter using last_in_set [of "r # ns"] ns(1) assms by blast
  then have "filter (\<lambda>m. nodeType d m = ELEMENT_NODE) (r # ns) \<noteq> []" by auto
  then show ?thesis using ns(2) assms by (simp add: GetXpath_def CalXpathABS_def)
qed

lemma walk_child_elements: "x \<in> set (walk (child_elements d) k ns) \<Longrightarrow> list_all (\<lambda>n. nodeType d n = ELEMENT_NODE) ns \<Longrightarrow>
    nodeType d x = ELEMENT_NODE"
proof (induction k arbitrary: ns)
  case (Suc k)
  have "list_all (\<lambda>n. nodeType d n = ELEMENT_NODE) (child_elements d n)" for n
    by (simp add: child_elements_def list_all_iff)
  then show ?case using Suc by (auto simp: list_all_iff)
qed simp

end

lemma DoStatistic_counts:
  assumes "dom_tree (page b) up down" "nodeType (page b) n = ELEMENT_NODE" "counted b raw ms st dims"
    "length dims < 2 ^ 31 - 1" "own_length b n < 2 ^ 31"
  shows "\<exists>st' dims'. DoStatistic b n st = Some (Inr st') \<and> counted b raw (ms @ [n]) st' dims'
    \<and> extends dims dims' \<and> length dims' \<le> Suc (length dims)"
proof -
  obtain p where p: "GetXpath (page b) [] (Some n) 1 = Some (Inr p)" "p \<noteq> []"
    using dom_tree.xpath_total [OF assms(1,2)] by blast
  then have path: "path_of b n = c_str p" by (simp add: path_of_def)
  obtain t where t: "GetNodeOwnText b (Some n) = Inr t" "own_length b n = length t"
    by (simp add: GetNodeOwnText_def own_length_def)
  have ok: "dims_ok dims" "p_attdim st = Some dims" using assms(3) by (simp_all add: counted_def)
  obtain i dims' where d: "dim_for p dims = (i, dims')" "dims_ok dims'" "extends dims dims'"
      "length dims' \<le> Suc (length dims)" "cmap_find dims' (path_of b n) = Some i"
  proof (cases "cmap_find dims (c_str p)")
    case (Some i)
    then show ?thesis using dim_for_found [OF Some ok(1)] that [of i dims] ok(1) path by (simp add: extends_def)
  next
    case None
    obtain dims' where *: "dim_for p dims = (int (length dims), dims')" "dims_ok dims'" "length dims' = Suc (length dims)"
      "\<And>q. cmap_find dims' q = (if q = c_str p then Some (int (length dims)) else cmap_find dims q)"
      using dim_for_new [OF None ok(1) assms(4)] by blast
    have "extends dims dims'" using *(4) None by (auto simp: extends_def)
    then show ?thesis using that [OF *(1,2)] *(3,4) path by simp
  qed
  have "DoStatistic b n st =
      Some (Inr (st\<lparr>p_attdim := Some dims', xpathstat := append_value i (int (own_length b n)) (xpathstat st)\<rparr>))"
    using p t d(1) ok(2) assms(5) by (simp add: DoStatistic_def addref_def int_of_size_id)
  then show ?thesis using counted_next [OF assms(3) d(2,3,5)] d(3,4) by blast
qed

lemma extends_trans: "extends a c \<Longrightarrow> extends c e \<Longrightarrow> extends a e"
  by (simp add: extends_def)

lemma DoStatistic_all:
  assumes "dom_tree (page b) up down" "list_all (\<lambda>n. nodeType (page b) n = ELEMENT_NODE \<and> own_length b n < 2 ^ 31) ns"
    "counted b raw ms st dims" "length dims + length ns < 2 ^ 31"
  shows "\<exists>st' dims'. foldR (DoStatistic b) ns st = Some (Inr st') \<and> counted b raw (ms @ ns) st' dims'
    \<and> extends dims dims' \<and> length dims' \<le> length dims + length ns"
  using assms(2-)
proof (induction ns arbitrary: ms st dims)
  case Nil
  then show ?case by (auto simp: extends_def)
next
  case (Cons n ns)
  obtain st1 dims1 where one: "DoStatistic b n st = Some (Inr st1)" "counted b raw (ms @ [n]) st1 dims1"
      "extends dims dims1" "length dims1 \<le> Suc (length dims)"
    using DoStatistic_counts [OF assms(1) _ Cons.prems(2), of n] Cons.prems(1,3) by auto
  then obtain st' dims' where "foldR (DoStatistic b) ns st1 = Some (Inr st')" "counted b raw ((ms @ [n]) @ ns) st' dims'"
      "extends dims1 dims'" "length dims' \<le> length dims1 + length ns"
    using Cons.IH [OF _ one(2)] Cons.prems(1,3) by fastforce
  then show ?case using one extends_trans by fastforce
qed


lemma cmap_find_Cons: "cmap_find ((k, v) # m) k' = (if k' = k then Some v else cmap_find m k')"
  by (simp add: cmap_find_def)

lemma sum_int_from:
  "0 \<le> s \<Longrightarrow> s + int (sum_list ws) < 2 ^ 31 \<Longrightarrow>
     foldE (\<lambda>w total. check_int (total + w)) (map int ws) s = Inr (s + int (sum_list ws))"
  by (induction ws arbitrary: s) (simp_all add: check_int_def int_ok_def add.assoc)

lemma sum_int_total: "sum_list ws < 2 ^ 31 \<Longrightarrow> sum_int (map int ws) = Inr (int (sum_list ws))"
  using sum_int_from [of 0 ws] by (simp add: sum_int_def)

lemma combine_entries:
  assumes "cmap_ok es" "cmap_ok (raw_dim st)"
    "\<forall>(i, ws) \<in> set es. \<exists>ls. ws = map int ls \<and> sum_list ls < 2 ^ 31 \<and> length ls < 2 ^ 31"
  shows "\<exists>raw. foldE combine_entry es st = Inr (st\<lparr>raw_dim := raw\<rparr>) \<and> cmap_ok raw
    \<and> (\<forall>i. cmap_find raw i =
          (case cmap_find es i of
             None \<Rightarrow> cmap_find (raw_dim st) i
           | Some ws \<Rightarrow> Some (records_of st i @ [(sum_list ws, int (length ws))])))"
  using assms
proof (induction es arbitrary: st)
  case Nil
  then show ?case by (intro exI [of _ "raw_dim st"]) simp
next
  case (Cons e es)
  obtain i ls where e: "e = (i, map int ls)" "sum_list ls < 2 ^ 31" "length ls < 2 ^ 31"
    using Cons.prems(3) by fastforce
  let ?st = "st\<lparr>raw_dim := append_value i (int (sum_list ls), int (length ls)) (raw_dim st)\<rparr>"
  have step: "combine_entry e st = Inr ?st"
    using e by (simp add: combine_entry_def sum_int_total int_of_size_id)
  have es: "cmap_ok es" "cmap_ok (raw_dim ?st)"
      "\<forall>(i, ws) \<in> set es. \<exists>ls. ws = map int ls \<and> sum_list ls < 2 ^ 31 \<and> length ls < 2 ^ 31"
    subgoal using Cons.prems(1) by (simp add: cmap_ok_def)
    subgoal using Cons.prems(2) by simp
    subgoal using Cons.prems(3) by simp
    done
  obtain raw where raw: "foldE combine_entry es ?st = Inr (?st\<lparr>raw_dim := raw\<rparr>)" "cmap_ok raw"
    "\<forall>i. cmap_find raw i =
          (case cmap_find es i of
             None \<Rightarrow> cmap_find (raw_dim ?st) i
           | Some ws \<Rightarrow> Some (records_of ?st i @ [(sum_list ws, int (length ws))]))"
    using Cons.IH [of ?st, OF es(1) es(2) es(3)] by blast
  have "cmap_find es i = None"
    using Cons.prems(1) e(1) by (auto simp: cmap_ok_def cmap_find_def map_of_eq_None_iff)
  moreover have "sum_list (map int ls) = int (sum_list ls)" by (induction ls) auto
  ultimately have "\<forall>j. cmap_find raw j =
          (case cmap_find (e # es) j of
             None \<Rightarrow> cmap_find (raw_dim st) j
           | Some ws \<Rightarrow> Some (records_of st j @ [(sum_list ws, int (length ws))]))"
    using raw(3) e(1) Cons.prems(2) by (simp add: cmap_find_Cons records_of_def split: option.split)
  then show ?case using step raw(1,2) by (intro exI [of _ raw]) simp
qed


lemma cmap_find_entry: "cmap_ok m \<Longrightarrow> (k, v) \<in> set m \<Longrightarrow> cmap_find m k = Some v"
  by (simp add: cmap_find_def cmap_ok_def strict_sorted_iff)

context dom_tree
begin

lemma walk_elements_of: "walk_elements d f (kids d dc) s = foldR f (elements_of d down dc) s"
  unfolding elements_of_def child_elements_def [of d dc] by (rule walk_elements_foldR) (simp add: down)

end

text \<open>A document has been recorded: every element's path has a number, and each number gets one record of the
  elements \<open>es\<close> of the document that have it.\<close>

definition recorded :: "'n browser \<Rightarrow> 'n list \<Rightarrow> att_dim \<Rightarrow> dim_stat \<Rightarrow> att_dim \<Rightarrow> dim_stat \<Rightarrow> bool" where
  "recorded b es dims st dims' st' \<longleftrightarrow>
     p_attdim st' = Some dims' \<and> dims_ok dims' \<and> extends dims dims' \<and> cmap_ok (raw_dim st') \<and>
     length dims' \<le> length dims + length es \<and>
     (\<forall>e \<in> set es. cmap_find dims' (path_of b e) \<noteq> None) \<and>
     (\<forall>i. let ms = filter (\<lambda>e. cmap_find dims' (path_of b e) = Some i) es
          in cmap_find (raw_dim st') i =
            (if ms = [] then cmap_find (raw_dim st) i
             else Some (records_of st i @ [(int (sum_list (map (own_length b) ms)), int (length ms))])))"

lemma SetDocument_recorded:
  assumes "dom_tree (page b) up down" "p_attdim st = Some dims" "dims_ok dims" "cmap_ok (raw_dim st)"
    and "es = elements_of (page b) down dc"
    and "length dims + length es < 2 ^ 31" "sum_list (map (own_length b) es) < 2 ^ 31"
  shows "\<exists>st' dims'. SetDocument b (Some dc) st = Some (Inr st') \<and> recorded b es dims st dims' st'"
proof -
  have es: "list_all (\<lambda>n. nodeType (page b) n = ELEMENT_NODE \<and> own_length b n < 2 ^ 31) es"
  proof (unfold list_all_iff, intro ballI conjI)
    fix n
    assume n: "n \<in> set es"
    then show "nodeType (page b) n = ELEMENT_NODE"
      unfolding assms(5) elements_of_def
      by (rule dom_tree.walk_child_elements [OF assms(1)]) (simp add: child_elements_def list_all_iff)
    have "own_length b n \<le> sum_list (map (own_length b) es)" using n by (simp add: member_le_sum_list)
    then show "own_length b n < 2 ^ 31" using assms(7) by simp
  qed
  have "counted b (raw_dim st) [] (st\<lparr>xpathstat := []\<rparr>) dims"
    using assms(2,3) by (simp add: counted_def)
  from DoStatistic_all [OF assms(1) es this assms(6)] obtain s dims' where
    s: "foldR (DoStatistic b) es (st\<lparr>xpathstat := []\<rparr>) = Some (Inr s)" "counted b (raw_dim st) es s dims'"
      "extends dims dims'" "length dims' \<le> length dims + length es" by auto
  have "walk_elements (page b) (DoStatistic b) (kids (page b) dc) (st\<lparr>xpathstat := []\<rparr>) = Some (Inr s)"
    unfolding dom_tree.walk_elements_of [OF assms(1)] assms(5) [symmetric] by (rule s(1))
  then have run: "SetDocument b (Some dc) st = Some (CombineStatisticResults s)" by (simp add: SetDocument_def)
  define has where "has i = filter (\<lambda>e. cmap_find dims' (path_of b e) = Some i) es" for i
  have stat: "cmap_find (xpathstat s) i = (if has i = [] then None else Some (map (\<lambda>m. int (own_length b m)) (has i)))" for i
    using s(2) by (simp add: counted_def has_def Let_def)
  have stat_ok: "cmap_ok (xpathstat s)"
    and facts: "p_attdim s = Some dims'" "dims_ok dims'" "raw_dim s = raw_dim st" "\<forall>e \<in> set es. cmap_find dims' (path_of b e) \<noteq> None"
    using s(2) by (simp_all add: counted_def)
  have sums: "sum_list (map (own_length b) (has i)) < 2 ^ 31 \<and> length (has i) < 2 ^ 31" for i
  proof -
    have "sum_list (map (own_length b) (has i)) \<le> sum_list (map (own_length b) es)"
      unfolding has_def by (rule sum_list_filter_le_nat)
    moreover have "length (has i) \<le> length es" by (simp add: has_def)
    ultimately show ?thesis using assms(6,7) by linarith
  qed
  have "\<forall>(i, ws) \<in> set (xpathstat s). \<exists>ls. ws = map int ls \<and> sum_list ls < 2 ^ 31 \<and> length ls < 2 ^ 31"
  proof (clarify)
    fix i ws
    assume "(i, ws) \<in> set (xpathstat s)"
    then have "cmap_find (xpathstat s) i = Some ws"
      using cmap_find_entry stat_ok by metis
    then have "ws = map int (map (own_length b) (has i))" using stat [of i] by (auto split: if_splits)
    then show "\<exists>ls. ws = map int ls \<and> sum_list ls < 2 ^ 31 \<and> length ls < 2 ^ 31" using sums [of i] by force
  qed
  then obtain raw where raw: "CombineStatisticResults s = Inr (s\<lparr>raw_dim := raw\<rparr>)" "cmap_ok raw"
    "\<forall>i. cmap_find raw i =
          (case cmap_find (xpathstat s) i of
             None \<Rightarrow> cmap_find (raw_dim s) i
           | Some ws \<Rightarrow> Some (records_of s i @ [(sum_list ws, int (length ws))]))"
    using combine_entries [of "xpathstat s" s] s(2) assms(4) by (auto simp: counted_def CombineStatisticResults_def)
  have total: "sum_list (map (\<lambda>m. int (own_length b m)) ms) = int (sum_list (map (own_length b) ms))" for ms
    by (induction ms) auto
  have "recorded b es dims st dims' (s\<lparr>raw_dim := raw\<rparr>)"
    unfolding recorded_def Let_def has_def [symmetric]
    using facts s(3,4) raw(2,3) by (simp add: stat records_of_def total)
  then show ?thesis using run raw(1) by auto
qed


section \<open>Vectors of average lengths (\<open>ContentDocAtt\<close>)\<close>

text \<open>\<open>SetDim\<close> gives the same object to the class and to its statistics, so its dimensions are \<open>p_attdim\<close> there.\<close>

record 'n content_doc_att =
  p_attset :: "'n node_vec att_set"
  p_dimstat :: dim_stat
  p_docset :: "'n doc_set"

definition new_content_doc_att :: "'n content_doc_att" where
  "new_content_doc_att = \<lparr>p_attset = [], p_dimstat = new_dim_stat, p_docset = []\<rparr>"

definition content_GetDim :: "'n content_doc_att \<Rightarrow> att_dim res" where
  "content_GetDim st = addref (p_attdim (p_dimstat st))"

definition content_SetDim :: "att_dim option \<Rightarrow> 'n content_doc_att \<Rightarrow> 'n content_doc_att" where
  "content_SetDim aDim st = st\<lparr>p_dimstat := SetAttDim aDim (p_dimstat st)\<rparr>"

definition content_GetVectorCount :: "'n content_doc_att \<Rightarrow> int" where
  "content_GetVectorCount st = set_GetLength (p_attset st)"

definition content_GetVectorByIndex :: "'n content_doc_att \<Rightarrow> int \<Rightarrow> 'n node_vec option res" where
  "content_GetVectorByIndex st index = GetVectorByIndex (p_attset st) index"

definition content_AddDocument :: "'n option \<Rightarrow> 'n content_doc_att \<Rightarrow> 'n content_doc_att" where
  "content_AddDocument doc st = st\<lparr>p_docset := set_AddDocument doc (p_docset st)\<rparr>"

text \<open>The log of all dimensions reads every average.\<close>

definition PrintStatisticResults :: "dim_stat \<Rightarrow> unit res" where
  "PrintStatisticResults st =
     bindE (addref (p_attdim st)) (\<lambda>dims.
       foldE (\<lambda>i _. bindE (GetAvrgWeightByDim st i (Fin 0)) (\<lambda>_. Inr ())) [0..dim_GetCount dims - 1] ())"

definition content_DoStatistic :: "'n browser \<Rightarrow> 'n doc_set \<Rightarrow> dim_stat \<Rightarrow> dim_stat run" where
  "content_DoStatistic b docs st =
     bindR (foldR (\<lambda>i st. bindR (Some (GetDocByIndex docs i)) (\<lambda>doc. SetDocument b doc st)) [0..GetDocCount docs - 1] st)
       (\<lambda>st. bindR (Some (PrintStatisticResults st)) (\<lambda>_. Some (Inr st)))"

definition add_weight :: "'n browser \<Rightarrow> dim_stat \<Rightarrow> 'n \<Rightarrow> 'n node_vec \<Rightarrow> 'n node_vec run" where
  "add_weight b st n attvec =
     bindR (GetXpath (page b) [] (Some n) 1) (\<lambda>xpath.
     bindR (Some (addref (p_attdim st))) (\<lambda>dims.
       let i = fst (GetDimId dims xpath)
       in if 0 \<le> i
          then Some (bindE (GetAvrgWeightByDim st i (Fin 0)) (\<lambda>weight. Inr (AddValue i weight attvec)))
          else Some (Inr attvec)))"

definition doc_vector :: "'n browser \<Rightarrow> dim_stat \<Rightarrow> 'n \<Rightarrow> 'n node_vec run" where
  "doc_vector b st dc = walk_elements (page b) (add_weight b st) (kids (page b) dc) (SetDoc (Some dc) new_att_vec)"

definition GenerateAttSet :: "'n browser \<Rightarrow> 'n doc_set \<Rightarrow> dim_stat \<Rightarrow> 'n node_vec att_set \<Rightarrow> 'n node_vec att_set run" where
  "GenerateAttSet b docs st attset =
     foldR (\<lambda>i attset. bindR (Some (GetDocByIndex docs i)) (\<lambda>doc.
              case doc of
                None \<Rightarrow> Some (Inr attset)
              | Some dc \<Rightarrow> bindR (doc_vector b st dc) (\<lambda>v. Some (Inr (set_AppendVector (Some v) attset)))))
       [0..GetDocCount docs - 1] attset"

definition content_GetResult :: "'n browser \<Rightarrow> 'n content_doc_att \<Rightarrow> 'n content_doc_att run" where
  "content_GetResult b st =
     bindR (content_DoStatistic b (p_docset st) (p_dimstat st)) (\<lambda>stat.
     bindR (GenerateAttSet b (p_docset st) stat (p_attset st)) (\<lambda>attset.
       Some (Inr (st\<lparr>p_dimstat := stat, p_attset := attset\<rparr>))))"

section \<open>What the vectors of a set of documents hold\<close>

text \<open>The specification: a path's value is the mean length of its text in the documents that have the path.\<close>

definition with_path :: "'n browser \<Rightarrow> ('n \<Rightarrow> nat) \<Rightarrow> bytes \<Rightarrow> 'n \<Rightarrow> 'n list" where
  "with_path b down p dc = filter (\<lambda>e. path_of b e = p) (elements_of (page b) down dc)"

definition docs_with :: "'n browser \<Rightarrow> ('n \<Rightarrow> nat) \<Rightarrow> bytes \<Rightarrow> 'n list \<Rightarrow> 'n list" where
  "docs_with b down p ds = filter (\<lambda>dc. with_path b down p dc \<noteq> []) ds"

definition path_length :: "'n browser \<Rightarrow> ('n \<Rightarrow> nat) \<Rightarrow> bytes \<Rightarrow> 'n \<Rightarrow> nat" where
  "path_length b down p dc = sum_list (map (own_length b) (with_path b down p dc))"

definition mean_length :: "'n browser \<Rightarrow> ('n \<Rightarrow> nat) \<Rightarrow> bytes \<Rightarrow> 'n list \<Rightarrow> flt" where
  "mean_length b down p ds =
     (let dcs = docs_with b down p ds; total = sum_list (map (path_length b down p) dcs)
      in if total = 0 then Fin 0 else ratio (int total) (int (length dcs)))"

definition path_records :: "'n browser \<Rightarrow> ('n \<Rightarrow> nat) \<Rightarrow> bytes \<Rightarrow> 'n list \<Rightarrow> (int \<times> int) list" where
  "path_records b down p dcs = map (\<lambda>dc. (int (path_length b down p dc), int (length (with_path b down p dc)))) dcs"

definition statistics :: "'n browser \<Rightarrow> ('n \<Rightarrow> nat) \<Rightarrow> 'n list \<Rightarrow> att_dim \<Rightarrow> dim_stat \<Rightarrow> bool" where
  "statistics b down ds dims st \<longleftrightarrow>
     p_attdim st = Some dims \<and> dims_ok dims \<and> cmap_ok (raw_dim st) \<and>
     (\<forall>dc \<in> set ds. \<forall>e \<in> set (elements_of (page b) down dc). cmap_find dims (path_of b e) \<noteq> None) \<and>
     (\<forall>i. cmap_find (raw_dim st) i \<noteq> None \<longrightarrow> (\<exists>p. cmap_find dims p = Some i)) \<and>
     (\<forall>p i. cmap_find dims p = Some i \<longrightarrow> cmap_find (raw_dim st) i =
        (let dcs = docs_with b down p ds in if dcs = [] then None else Some (path_records b down p dcs)))"


lemma statistics_next:
  assumes st: "statistics b down ds dims st" and rec: "recorded b (elements_of (page b) down dc) dims st dims' st'"
  shows "statistics b down (ds @ [dc]) dims' st'"
proof -
  let ?es = "elements_of (page b) down dc"
  have ok': "p_attdim st' = Some dims'" "dims_ok dims'" "cmap_ok (raw_dim st')"
    and ext: "\<And>p i. cmap_find dims p = Some i \<Longrightarrow> cmap_find dims' p = Some i"
    and named: "\<And>e. e \<in> set ?es \<Longrightarrow> cmap_find dims' (path_of b e) \<noteq> None"
    using rec by (auto simp: recorded_def extends_def)
  have raw': "cmap_find (raw_dim st') i =
      (let ms = filter (\<lambda>e. cmap_find dims' (path_of b e) = Some i) ?es
       in if ms = [] then cmap_find (raw_dim st) i
          else Some (records_of st i @ [(int (sum_list (map (own_length b) ms)), int (length ms))]))" for i
    using rec unfolding recorded_def Let_def by blast
  have inj: "p = q" if "cmap_find dims' p = Some i" "cmap_find dims' q = Some i" for p q i
    using ok'(2) that by (auto simp: dims_ok_def)
  have old: "\<And>dc e. dc \<in> set ds \<Longrightarrow> e \<in> set (elements_of (page b) down dc) \<Longrightarrow> cmap_find dims (path_of b e) \<noteq> None"
    and used: "\<And>i. cmap_find (raw_dim st) i \<noteq> None \<Longrightarrow> \<exists>p. cmap_find dims p = Some i"
    and raw: "\<And>p i. cmap_find dims p = Some i \<Longrightarrow> cmap_find (raw_dim st) i =
        (if docs_with b down p ds = [] then None else Some (path_records b down p (docs_with b down p ds)))"
    using st by (auto simp: statistics_def Let_def)
  have before: "cmap_find (raw_dim st) i =
      (if docs_with b down p ds = [] then None else Some (path_records b down p (docs_with b down p ds)))" if p: "cmap_find dims' p = Some i" for p i
  proof (cases "cmap_find dims p")
    case (Some j)
    then show ?thesis using raw ext p by fastforce
  next
    case None
    have "docs_with b down p ds = []" using old None by (force simp: docs_with_def with_path_def filter_empty_conv)
    moreover have "cmap_find (raw_dim st) i = None" using used [of i] ext inj [OF p] None by fastforce
    ultimately show ?thesis by simp
  qed
  have same: "filter (\<lambda>e. cmap_find dims' (path_of b e) = Some i) ?es = with_path b down p dc" if "cmap_find dims' p = Some i" for p i
    using inj that by (auto simp: with_path_def intro!: filter_cong)
  show ?thesis
    unfolding statistics_def
  proof (intro conjI allI impI)
    show "\<forall>d \<in> set (ds @ [dc]). \<forall>e \<in> set (elements_of (page b) down d). cmap_find dims' (path_of b e) \<noteq> None"
      using named old ext by fastforce
    show "\<exists>p. cmap_find dims' p = Some i" if "cmap_find (raw_dim st') i \<noteq> None" for i
    proof (cases "filter (\<lambda>e. cmap_find dims' (path_of b e) = Some i) ?es = []")
      case True
      then have "cmap_find (raw_dim st) i \<noteq> None" using that unfolding raw' [of i] Let_def by (simp only: if_True simp_thms)
      then show ?thesis using used ext by metis
    qed (auto simp: filter_empty_conv)
    show "cmap_find (raw_dim st') i =
        (let dcs = docs_with b down p (ds @ [dc]) in if dcs = [] then None else Some (path_records b down p dcs))"
      if p: "cmap_find dims' p = Some i" for p i
      using before [OF p] unfolding raw' [of i] same [OF p] Let_def
      by (auto simp: docs_with_def records_of_def path_length_def path_records_def)
  qed (use ok' in auto)
qed


definition text_size :: "'n browser \<Rightarrow> ('n \<Rightarrow> nat) \<Rightarrow> 'n \<Rightarrow> nat" where
  "text_size b down dc = sum_list (map (own_length b) (elements_of (page b) down dc))"

definition element_count :: "'n browser \<Rightarrow> ('n \<Rightarrow> nat) \<Rightarrow> 'n \<Rightarrow> nat" where
  "element_count b down dc = length (elements_of (page b) down dc)"

lemma statistics_all:
  assumes "dom_tree (page b) up down" "statistics b down ds0 dims st"
    and "length dims + sum_list (map (element_count b down) ds) < 2 ^ 31" "list_all (\<lambda>dc. text_size b down dc < 2 ^ 31) ds"
  shows "\<exists>st' dims'. foldR (\<lambda>dc. SetDocument b (Some dc)) ds st = Some (Inr st') \<and> statistics b down (ds0 @ ds) dims' st'
    \<and> extends dims dims'"
  using assms(2-)
proof (induction ds arbitrary: ds0 dims st)
  case Nil
  then show ?case by (auto simp: extends_def)
next
  case (Cons dc ds)
  have "p_attdim st = Some dims" "dims_ok dims" "cmap_ok (raw_dim st)" using Cons.prems(1) by (simp_all add: statistics_def)
  from SetDocument_recorded [OF assms(1) this refl, of dc] obtain st1 dims1 where
    one: "SetDocument b (Some dc) st = Some (Inr st1)" "recorded b (elements_of (page b) down dc) dims st dims1 st1"
    using Cons.prems(2,3) by (auto simp: element_count_def text_size_def)
  then have len: "length dims1 \<le> length dims + element_count b down dc" and ext: "extends dims dims1"
    by (simp_all add: recorded_def element_count_def)
  from Cons.IH [OF statistics_next [OF Cons.prems(1) one(2)]] obtain st' dims' where
    "foldR (\<lambda>dc. SetDocument b (Some dc)) ds st1 = Some (Inr st')" "statistics b down ((ds0 @ [dc]) @ ds) dims' st'" "extends dims1 dims'"
    using Cons.prems(2,3) len by auto
  then show ?case using one(1) extends_trans [OF ext] by auto
qed

lemma foldR_Cons: "foldR f (x # xs) = (\<lambda>s. bindR (f x s) (foldR f xs))"
  by (simp add: fun_eq_iff)

lemma foldR_Nil: "foldR f [] = (\<lambda>s. Some (Inr s))"
  by (simp add: fun_eq_iff)

lemma foldR_map: "foldR f (map g xs) = foldR (\<lambda>x. f (g x)) xs"
  by (induction xs) (simp_all add: foldR_Cons foldR_Nil)

lemma foldR_cong: "(\<And>x. x \<in> set xs \<Longrightarrow> f x = g x) \<Longrightarrow> foldR f xs s = foldR g xs s"
proof -
  have "(\<And>x. x \<in> set xs \<Longrightarrow> f x = g x) \<Longrightarrow> foldR f xs = foldR g xs"
    by (induction xs) (simp_all add: foldR_Cons foldR_Nil)
  then show "(\<And>x. x \<in> set xs \<Longrightarrow> f x = g x) \<Longrightarrow> foldR f xs s = foldR g xs s" by metis
qed

lemma doc_loop:
  assumes "length ds < 2 ^ 31"
  shows "foldR (\<lambda>i. h (GetDocByIndex (map Some ds) i)) [0..GetDocCount (map Some ds) - 1] s = foldR (\<lambda>dc. h (Inr (Some dc))) ds s"
proof -
  have idx: "[0..int n - 1] = map int [0..<n]" for n
    by (induction n) (simp_all add: upto_rec2 [of 0 "int _"])
  have get: "GetDocByIndex (map Some ds) (int i) = Inr (Some (ds ! i))" if "i < length ds" for i
    using that assms by (simp add: GetDocByIndex_def addref_def int_of_size_id)
  have "foldR (\<lambda>i. h (GetDocByIndex (map Some ds) i)) [0..GetDocCount (map Some ds) - 1] s
      = foldR (\<lambda>i. h (GetDocByIndex (map Some ds) (int i))) [0..<length ds] s"
    using assms by (simp add: GetDocCount_def int_of_size_id idx foldR_map)
  also have "\<dots> = foldR (\<lambda>i. h (Inr (Some (ds ! i)))) [0..<length ds] s"
    by (rule foldR_cong) (simp add: get)
  also have "\<dots> = foldR (\<lambda>dc. h (Inr (Some dc))) (map ((!) ds) [0..<length ds]) s"
    by (simp only: foldR_map)
  finally show ?thesis by (simp add: map_nth)
qed


lemma path_lengths_le: "sum_list (map (path_length b down p) (docs_with b down p ds)) \<le> sum_list (map (text_size b down) ds)"
proof (induction ds)
  case (Cons dc ds)
  have "path_length b down p dc \<le> text_size b down dc"
    by (simp add: path_length_def text_size_def with_path_def sum_list_filter_le_nat)
  then show ?case using Cons by (simp add: docs_with_def)
qed (simp add: docs_with_def)

lemma average_known:
  assumes "statistics b down ds dims st" "cmap_find dims p = Some i"
    and "sum_list (map (text_size b down) ds) < 2 ^ 31" "length ds < 2 ^ 31"
  shows "GetAvrgWeightByDim st i (Fin 0) = Inr (mean_length b down p ds)"
proof -
  let ?dcs = "docs_with b down p ds"
  have raw: "cmap_find (raw_dim st) i = (if ?dcs = [] then None else Some (path_records b down p ?dcs))"
    using assms(1,2) by (simp add: statistics_def Let_def)
  have "map fst (path_records b down p ?dcs) = map int (map (path_length b down p) ?dcs)"
    by (simp add: path_records_def)
  moreover have "sum_list (map (path_length b down p) ?dcs) < 2 ^ 31" "length ?dcs < 2 ^ 31"
    using path_lengths_le [of b down p ds] assms(3,4) length_filter_le [of "\<lambda>dc. with_path b down p dc \<noteq> []" ds]
    unfolding docs_with_def by linarith+
  moreover have "length (path_records b down p ?dcs) = length ?dcs" by (simp add: path_records_def)
  moreover define total where "total = sum_list (map (path_length b down p) ?dcs)"
  ultimately have "sum_int (map fst (path_records b down p ?dcs)) = Inr (int total)"
      "int_of_size (length (path_records b down p ?dcs)) = int (length ?dcs)"
    by (simp_all only: sum_int_total int_of_size_id)
  moreover have "mean_length b down p ds = (if total = 0 then Fin 0 else ratio (int total) (int (length ?dcs)))"
    by (simp only: mean_length_def Let_def total_def)
  moreover have "total = 0" if "?dcs = []" using that by (simp add: total_def)
  ultimately show ?thesis
    using raw by (auto simp: GetAvrgWeightByDim_def avrg_by_dim_def)
qed

lemma average_total:
  assumes "statistics b down ds dims st"
    and "sum_list (map (text_size b down) ds) < 2 ^ 31" "length ds < 2 ^ 31"
  shows "\<exists>w. GetAvrgWeightByDim st i (Fin 0) = Inr w"
proof (cases "cmap_find (raw_dim st) i")
  case None
  then show ?thesis by (simp add: GetAvrgWeightByDim_def avrg_by_dim_def)
next
  case (Some rs)
  then obtain p where "cmap_find dims p = Some i" using assms(1) by (auto simp: statistics_def)
  from average_known [OF assms(1) this assms(2,3)] show ?thesis by blast
qed

lemma PrintStatisticResults_total:
  assumes "statistics b down ds dims st"
    and "sum_list (map (text_size b down) ds) < 2 ^ 31" "length ds < 2 ^ 31"
  shows "PrintStatisticResults st = Inr ()"
proof -
  have "foldE (\<lambda>i _. bindE (GetAvrgWeightByDim st i (Fin 0)) (\<lambda>_. Inr ())) is () = Inr ()" for "is"
  proof (induction "is")
    case (Cons i "is")
    then show ?case using average_total [OF assms, of i] by auto
  qed simp
  then show ?thesis using assms(1) by (simp add: PrintStatisticResults_def addref_def statistics_def)
qed

text \<open>The vector of a document has the mean length of every path its elements have, and nothing else.\<close>

definition holds_means :: "'n browser \<Rightarrow> ('n \<Rightarrow> nat) \<Rightarrow> 'n list \<Rightarrow> att_dim \<Rightarrow> 'n list \<Rightarrow> 'n node_vec \<Rightarrow> bool" where
  "holds_means b down ds dims es v \<longleftrightarrow>
     (\<forall>p i. cmap_find dims p = Some i \<longrightarrow>
        GetValueByDim v i = (if p \<in> path_of b ` set es then Some (mean_length b down p ds) else None))"

lemma add_weights:
  assumes "dom_tree (page b) up down" "statistics b down ds dims st"
    and "sum_list (map (text_size b down) ds) < 2 ^ 31" "length ds < 2 ^ 31"
    and "\<forall>e \<in> set es. nodeType (page b) e = ELEMENT_NODE \<and> cmap_find dims (path_of b e) \<noteq> None"
    and "cmap_ok (vect v)" "holds_means b down ds dims done v"
  shows "\<exists>v'. foldR (add_weight b st) es v = Some (Inr v') \<and> cmap_ok (vect v') \<and> m_doc v' = m_doc v
    \<and> holds_means b down ds dims (done @ es) v'"
  using assms(5-)
proof (induction es arbitrary: v "done")
  case (Cons e es)
  obtain xp where xp: "GetXpath (page b) [] (Some e) 1 = Some (Inr xp)"
    using dom_tree.xpath_total [OF assms(1), of e] Cons.prems(1) by auto
  then have path: "path_of b e = c_str xp" by (simp add: path_of_def)
  obtain i where i: "cmap_find dims (path_of b e) = Some i" using Cons.prems(1) by auto
  have ok: "p_attdim st = Some dims" "0 \<le> i" "\<And>p. cmap_find dims p = Some i \<Longrightarrow> p = path_of b e"
    using assms(2) i by (auto simp: statistics_def dims_ok_def)
  let ?w = "mean_length b down (path_of b e) ds"
  have step: "add_weight b st e v = Some (Inr (AddValue i ?w v))"
    using xp path i ok(1,2) average_known [OF assms(2) i assms(3,4)]
    by (simp add: add_weight_def addref_def GetDimId_def)
  have "holds_means b down ds dims (done @ [e]) (AddValue i ?w v)"
    unfolding holds_means_def
  proof (intro allI impI)
    fix p j
    assume p: "cmap_find dims p = Some j"
    have v: "GetValueByDim v j = (if p \<in> path_of b ` set done then Some (mean_length b down p ds) else None)"
      using Cons.prems(3) p unfolding holds_means_def by blast
    show "GetValueByDim (AddValue i ?w v) j =
        (if p \<in> path_of b ` set (done @ [e]) then Some (mean_length b down p ds) else None)"
    proof (cases "p = path_of b e")
      case True
      then have "j = i" using i p by simp
      then show ?thesis using v True Cons.prems(2) by (simp add: AddValue_def GetValueByDim_def split: if_splits)
    next
      case False
      then have "j \<noteq> i" using ok(3) p by blast
      then show ?thesis using v False Cons.prems(2) by (simp add: AddValue_def GetValueByDim_def)
    qed
  qed
  note done_e = this
  have rest: "\<forall>e \<in> set es. nodeType (page b) e = ELEMENT_NODE \<and> cmap_find dims (path_of b e) \<noteq> None"
    "cmap_ok (vect (AddValue i ?w v))"
    using Cons.prems(1,2) by (simp_all add: AddValue_def)
  obtain v' where "foldR (add_weight b st) es (AddValue i ?w v) = Some (Inr v')" "cmap_ok (vect v')"
      "m_doc v' = m_doc v" "holds_means b down ds dims ((done @ [e]) @ es) v'"
    using Cons.IH [OF rest done_e] by (auto simp: AddValue_def)
  then show ?case using step by (intro exI [of _ v']) simp
qed simp


lemma doc_vector_means:
  assumes "dom_tree (page b) up down" "statistics b down ds dims st"
    and "sum_list (map (text_size b down) ds) < 2 ^ 31" "length ds < 2 ^ 31" "dc \<in> set ds"
  shows "\<exists>v. doc_vector b st dc = Some (Inr v) \<and> m_doc v = Some dc \<and> holds_means b down ds dims (elements_of (page b) down dc) v"
proof -
  let ?es = "elements_of (page b) down dc"
  have "\<forall>e \<in> set ?es. nodeType (page b) e = ELEMENT_NODE \<and> cmap_find dims (path_of b e) \<noteq> None"
  proof (intro ballI conjI)
    fix e
    assume e: "e \<in> set ?es"
    then show "nodeType (page b) e = ELEMENT_NODE"
      unfolding elements_of_def
      by (rule dom_tree.walk_child_elements [OF assms(1)]) (simp add: child_elements_def list_all_iff)
    show "cmap_find dims (path_of b e) \<noteq> None" using e assms(2,5) by (auto simp: statistics_def)
  qed
  moreover have "cmap_ok (vect (SetDoc (Some dc) new_att_vec :: 'a node_vec))"
    "holds_means b down ds dims [] (SetDoc (Some dc) new_att_vec)" "m_doc (SetDoc (Some dc) new_att_vec :: 'a node_vec) = Some dc"
    by (simp_all add: SetDoc_def new_att_vec_def holds_means_def GetValueByDim_def)
  ultimately show ?thesis
    unfolding doc_vector_def dom_tree.walk_elements_of [OF assms(1)]
    using add_weights [OF assms(1-4), of ?es "SetDoc (Some dc) new_att_vec" "[]"] by auto
qed

lemma GenerateAttSet_means:
  assumes "dom_tree (page b) up down" "statistics b down ds dims st"
    and "sum_list (map (text_size b down) ds) < 2 ^ 31" "length ds < 2 ^ 31"
  shows "\<exists>vs. GenerateAttSet b (map Some ds) st attset = Some (Inr (attset @ map Some vs))
    \<and> list_all2 (\<lambda>dc v. m_doc v = Some dc \<and> holds_means b down ds dims (elements_of (page b) down dc) v) ds vs"
proof -
  let ?body = "\<lambda>dc attset. bindR (doc_vector b st dc) (\<lambda>v. Some (Inr (set_AppendVector (Some v) attset)))"
  let ?good = "\<lambda>dc v. m_doc v = Some dc \<and> holds_means b down ds dims (elements_of (page b) down dc) v"
  have "\<exists>vs. foldR ?body ds' attset = Some (Inr (attset @ map Some vs)) \<and> list_all2 ?good ds' vs"
    if "set ds' \<subseteq> set ds" for ds' attset
    using that
  proof (induction ds' arbitrary: attset)
    case (Cons dc ds')
    obtain v where v: "doc_vector b st dc = Some (Inr v)" "?good dc v"
      using doc_vector_means [OF assms, of dc] Cons.prems by auto
    obtain vs where vs: "foldR ?body ds' (attset @ [Some v]) = Some (Inr ((attset @ [Some v]) @ map Some vs))" "list_all2 ?good ds' vs"
      using Cons.IH [of "attset @ [Some v]"] Cons.prems by auto
    show ?case using v vs by (intro exI [of _ "v # vs"]) (simp add: set_AppendVector_def)
  qed simp
  then show ?thesis
    unfolding GenerateAttSet_def doc_loop [OF assms(4), where h = "\<lambda>r attset. bindR (Some r) (\<lambda>doc.
              case doc of
                None \<Rightarrow> Some (Inr attset)
              | Some dc \<Rightarrow> bindR (doc_vector b st dc) (\<lambda>v. Some (Inr (set_AppendVector (Some v) attset))))"]
    by simp
qed

text \<open>C23.  For a set of documents the result has one vector for each, which gives every path of its elements
  the mean length of the path's text over the documents that have the path, and has no other paths.
\<close>

theorem content_GetResult_means:
  assumes "dom_tree (page b) up down" "p_docset st = map Some ds"
    and "p_dimstat st = SetAttDim (Some dims) new_dim_stat" "dims_ok dims" "length ds < 2 ^ 31"
    and "length dims + sum_list (map (element_count b down) ds) < 2 ^ 31" "sum_list (map (text_size b down) ds) < 2 ^ 31"
  shows "\<exists>st' dims' vs. content_GetResult b st = Some (Inr st') \<and> content_GetDim st' = Inr dims' \<and> extends dims dims'
    \<and> p_attset st' = p_attset st @ map Some vs
    \<and> list_all2 (\<lambda>dc v. m_doc v = Some dc \<and> holds_means b down ds dims' (elements_of (page b) down dc) v) ds vs"
proof -
  have none: "statistics b down [] dims (p_dimstat st)"
    using assms(3,4) by (simp add: statistics_def SetAttDim_def new_dim_stat_def docs_with_def)
  have "list_all (\<lambda>dc. text_size b down dc < 2 ^ 31) ds"
    using assms(7) member_le_sum_list [of _ "map (text_size b down) ds"] by (fastforce simp: list_all_iff)
  from statistics_all [OF assms(1) none assms(6) this] obtain stat dims' where s: "foldR (\<lambda>dc. SetDocument b (Some dc)) ds (p_dimstat st) = Some (Inr stat)"
      "statistics b down ds dims' stat" "extends dims dims'"
    by auto
  have "content_DoStatistic b (map Some ds) (p_dimstat st) = Some (Inr stat)"
    unfolding content_DoStatistic_def
      doc_loop [OF assms(5), where h = "\<lambda>r st. bindR (Some r) (\<lambda>doc. SetDocument b doc st)"]
    using s(1) PrintStatisticResults_total [OF s(2) assms(7,5)] by simp
  moreover obtain vs where "GenerateAttSet b (map Some ds) stat (p_attset st) = Some (Inr (p_attset st @ map Some vs))"
      "list_all2 (\<lambda>dc v. m_doc v = Some dc \<and> holds_means b down ds dims' (elements_of (page b) down dc) v) ds vs"
    using GenerateAttSet_means [OF assms(1) s(2) assms(7,5)] by blast
  ultimately show ?thesis
    using assms(2) s(2,3) by (auto simp: content_GetResult_def content_GetDim_def addref_def statistics_def)
qed

lemma link_elements: "elements_of (dom_of link_page) (node_height link_page) [] = [[0], [0, 0], [0, 1], [0, 2]]"
  by (simp add: elements_of_def child_elements_def link_page_def node_height_def dom_of_simps entry_def eval_nat_numeral)

lemma content_GetResult_means_witness:
  "\<exists>st' dims' vs. content_GetResult (browser_of link_page)
        (content_AddDocument (Some []) (content_SetDim (Some []) new_content_doc_att)) = Some (Inr st')
    \<and> content_GetDim st' = Inr dims' \<and> extends [] dims'
    \<and> p_attset st' = p_attset (content_AddDocument (Some []) (content_SetDim (Some []) new_content_doc_att)) @ map Some vs
    \<and> list_all2 (\<lambda>dc v. m_doc v = Some dc \<and> holds_means (browser_of link_page) (node_height link_page) [[]] dims'
          (elements_of (page (browser_of link_page)) (node_height link_page) dc) v) [[]] vs"
proof (rule content_GetResult_means)
  show "dom_tree (page (browser_of link_page)) length (node_height link_page)" by (simp add: markup_dom.dom_tree_axioms)
  show "dims_ok []" by (simp add: dims_ok_def)
  have "own_length (browser_of link_page) [0] \<le> 2" "own_length (browser_of link_page) [0, 0] \<le> 2"
    "own_length (browser_of link_page) [0, 1] \<le> 2" "own_length (browser_of link_page) [0, 2] \<le> 2"
    by (simp_all add: own_length_def GetNodeOwnText_def strip_text_def link_eval)
  then show "sum_list (map (text_size (browser_of link_page) (node_height link_page)) [[]]) < 2 ^ 31"
    by (simp add: text_size_def link_elements)
qed (simp_all add: content_AddDocument_def content_SetDim_def new_content_doc_att_def set_AddDocument_def element_count_def link_elements)

end
