(* ===== verification/BlockNode.thy ===== *)
theory BlockNode
  imports StringUtil CxxMap FloatArith
begin

text \<open>
  \<open>DisCrawler/DOMAttUtil/BlockNode.cpp\<close>: the access list of mark names (\<open>ACLDB\<close>), a node of a page
  (\<open>BlockNode\<close>) and the list of nodes of a page (\<open>BlockList\<close>), with their serialization.  The three
  pairs of \<open>serialize\<close>/\<open>deserialize\<close> are instances of \<open>line_codec\<close>; the access list rests on
  \<open>key_store\<close>.
\<close>

section \<open>\<open>ACLDB\<close>\<close>

record acldb =
  pats :: "(bytes, bool) cmap"
  def :: bool

definition add_allow :: "bytes \<Rightarrow> acldb \<Rightarrow> acldb" where
  "add_allow pat a = a\<lparr>pats := cmap_replace pat True (pats a)\<rparr>"

definition add_deny :: "bytes \<Rightarrow> acldb \<Rightarrow> acldb" where
  "add_deny pat a = a\<lparr>pats := cmap_replace pat False (pats a)\<rparr>"

definition new_ACLDB_def :: "bool \<Rightarrow> acldb" where
  "new_ACLDB_def d = add_deny ''SCRIPT'' (add_deny ''A'' \<lparr>pats = [], def = d\<rparr>)"

definition new_ACLDB :: acldb where
  "new_ACLDB = add_deny ''SCRIPT'' (add_deny ''A'' \<lparr>pats = [], def = True\<rparr>)"

definition allowed :: "acldb \<Rightarrow> bytes \<Rightarrow> bool" where
  "allowed a mark = (case cmap_find (pats a) mark of Some b \<Rightarrow> b | None \<Rightarrow> def a)"

text \<open>One entry of the map, written as two lines.\<close>

definition ser_entry :: "bytes \<times> bool \<Rightarrow> sstream \<Rightarrow> (bytes \<times> bool) \<times> sstream" where
  "ser_entry e ss = (e, put_line (show_bool (snd e)) (put_line (fst e) ss))"

definition deser_entry :: "sstream \<Rightarrow> (bytes \<times> bool) \<times> sstream" where
  "deser_entry ss =
     (let (a, ss) = get_line ss; (b, ss) = get_integer ss in ((a, b \<noteq> 0), ss))"

definition acl_serialize :: "acldb \<Rightarrow> sstream \<Rightarrow> sstream" where
  "acl_serialize a ss =
     snd (ser_all ser_entry (pats a) (put_line (show_int (int_of_size (length (pats a)))) ss))"

definition acl_deserialize :: "acldb \<Rightarrow> sstream \<Rightarrow> acldb \<times> sstream" where
  "acl_deserialize a ss =
     (let (size, ss) = get_integer ss; (entries, ss) = deser_n deser_entry (nat size) ss
      in (a\<lparr>pats := fold (\<lambda>(k, b). cmap_insert k b) entries (pats a)\<rparr>, ss))"

section \<open>\<open>BlockNode\<close>\<close>

record block_node =
  node_name :: bytes
  node_path :: bytes
  node_text :: bytes
  anchor_text :: bytes
  attr :: "(bytes, bytes) cmap"
  node_x :: int
  node_y :: int
  node_w :: int
  node_h :: int

definition new_BlockNode :: block_node where
  "new_BlockNode = \<lparr>node_name = [], node_path = [], node_text = [], anchor_text = [], attr = [],
     node_x = 0, node_y = 0, node_w = 0, node_h = 0\<rparr>"

definition SetAttr :: "bytes \<Rightarrow> bytes \<Rightarrow> block_node \<Rightarrow> block_node" where
  "SetAttr k v bn = bn\<lparr>attr := cmap_insert k v (attr bn)\<rparr>"

text \<open>The accessors that return a field are the selectors of the record.\<close>

definition SetName :: "bytes \<Rightarrow> block_node \<Rightarrow> block_node" where
  "SetName n bn = bn\<lparr>node_name := n\<rparr>"

definition SetPath :: "bytes \<Rightarrow> block_node \<Rightarrow> block_node" where
  "SetPath p bn = bn\<lparr>node_path := p\<rparr>"

definition SetText :: "bytes \<Rightarrow> block_node \<Rightarrow> block_node" where
  "SetText t bn = bn\<lparr>node_text := t\<rparr>"

definition SetAnchorText :: "bytes \<Rightarrow> block_node \<Rightarrow> block_node" where
  "SetAnchorText a bn = bn\<lparr>anchor_text := a\<rparr>"

definition SetX :: "int \<Rightarrow> block_node \<Rightarrow> block_node" where
  "SetX i bn = bn\<lparr>node_x := i\<rparr>"

definition SetY :: "int \<Rightarrow> block_node \<Rightarrow> block_node" where
  "SetY i bn = bn\<lparr>node_y := i\<rparr>"

definition SetW :: "int \<Rightarrow> block_node \<Rightarrow> block_node" where
  "SetW i bn = bn\<lparr>node_w := i\<rparr>"

definition SetH :: "int \<Rightarrow> block_node \<Rightarrow> block_node" where
  "SetH i bn = bn\<lparr>node_h := i\<rparr>"

definition GetAttrString :: "block_node \<Rightarrow> bytes" where
  "GetAttrString bn =
     (if attr bn \<noteq> [] then '':'' else []) @
     concat (map (\<lambda>(k, v). if k = ''href'' then [] else '' '' @ k @ ''='' @ v) (attr bn))"

definition is_anchor_mark :: "block_node \<Rightarrow> bool" where
  "is_anchor_mark bn \<longleftrightarrow>
     node_name bn = ''A'' \<or> contains ''/A/'' (node_path bn) \<or> contains ''/A:'' (node_path bn)"

definition get_weight :: "block_node \<Rightarrow> int" where
  "get_weight bn = int_of_size (length (string_filter (node_text bn)))"

text \<open>\<open>operator==\<close> compares the paths, \<open>operator<\<close> the lengths of the texts.\<close>

definition same_node :: "block_node \<Rightarrow> block_node \<Rightarrow> bool" where
  "same_node a b \<longleftrightarrow> node_path a = node_path b"

definition less_node :: "block_node \<Rightarrow> block_node \<Rightarrow> bool" where
  "less_node a b \<longleftrightarrow> length (node_text a) < length (node_text b)"

definition invalid_characters :: bytes where
  "invalid_characters = [NL, CHR 0x09, CHR 0x0D, CHR ''#'']"

definition node_serialize :: "block_node \<Rightarrow> sstream \<Rightarrow> block_node \<times> sstream" where
  "node_serialize bn ss =
     (let ss = put_line (node_name bn) ss;
          ss = put_line (node_path bn) ss;
          bn = bn\<lparr>node_text := string_filter_chars (node_text bn) invalid_characters\<rparr>;
          ss = put_line (node_text bn) ss;
          ss = put_line (show_int (node_x bn)) ss;
          ss = put_line (show_int (node_y bn)) ss;
          ss = put_line (show_int (node_w bn)) ss;
          ss = put_line (show_int (node_h bn)) ss
      in (bn, ss))"

definition node_deserialize :: "sstream \<Rightarrow> block_node \<times> sstream" where
  "node_deserialize ss =
     (let (n, ss) = get_line ss; (p, ss) = get_line ss; (t, ss) = get_line ss;
          (x, ss) = get_integer ss; (y, ss) = get_integer ss;
          (w, ss) = get_integer ss; (h, ss) = get_integer ss
      in (new_BlockNode\<lparr>node_name := n, node_path := p, node_text := t,
            node_x := x, node_y := y, node_w := w, node_h := h\<rparr>, ss))"

section \<open>\<open>BlockList\<close>\<close>

record block_list =
  blocks :: "block_node list"
  xpath :: bytes
  url :: bytes
  title :: bytes
  links :: "bytes list"
  cluster :: "nat option"

definition new_BlockList :: block_list where
  "new_BlockList = \<lparr>blocks = [], xpath = [], url = [], title = [], links = [], cluster = None\<rparr>"

definition blocks_size :: "block_list \<Rightarrow> int" where
  "blocks_size bl = int_of_size (length (blocks bl))"

text \<open>The loop of \<open>GetBlock\<close> advances the iterator but not \<open>i\<close>.\<close>

fun GetBlock_from :: "block_node list \<Rightarrow> int \<Rightarrow> int \<Rightarrow> block_node" where
  "GetBlock_from [] i index = new_BlockNode"
| "GetBlock_from (bn # it) i index = (if i = index then bn else GetBlock_from it i index)"

definition GetBlock :: "block_list \<Rightarrow> int \<Rightarrow> block_node" where
  "GetBlock bl index = GetBlock_from (blocks bl) 0 index"

definition AddBlock :: "block_node \<Rightarrow> block_list \<Rightarrow> block_list" where
  "AddBlock bn bl = bl\<lparr>blocks := blocks bl @ [bn]\<rparr>"

definition script_or_style :: "block_node \<Rightarrow> bool" where
  "script_or_style bn \<longleftrightarrow> node_name bn = ''SCRIPT'' \<or> node_name bn = ''STYLE''"

definition GetText :: "block_list \<Rightarrow> bytes" where
  "GetText bl = concat (map (\<lambda>bn. if \<not> script_or_style bn then node_text bn else []) (blocks bl))"

definition GetText_ad :: "bytes set \<Rightarrow> block_list \<Rightarrow> bytes" where
  "GetText_ad ad_node bl =
     concat (map (\<lambda>bn. if node_path bn \<in> ad_node then []
                       else if \<not> script_or_style bn then node_text bn else []) (blocks bl))"

definition anchor_path :: "bytes \<Rightarrow> bool" where
  "anchor_path p \<longleftrightarrow> contains ''A:'' p \<or> contains ''A/'' p"

definition GetAnchorText :: "block_list \<Rightarrow> bytes" where
  "GetAnchorText bl =
     concat (map (\<lambda>bn. if script_or_style bn then []
                       else if anchor_path (node_path bn) then node_text bn else []) (blocks bl))"

definition GetAnchorText_ad :: "bytes set \<Rightarrow> block_list \<Rightarrow> bytes" where
  "GetAnchorText_ad ad_node bl =
     concat (map (\<lambda>bn. if script_or_style bn then []
                       else if node_path bn \<in> ad_node then []
                       else if anchor_path (node_path bn) then node_text bn else []) (blocks bl))"

definition GetPathText :: "block_list \<Rightarrow> bytes \<Rightarrow> bytes" where
  "GetPathText bl path =
     concat (map (\<lambda>bn. if node_path bn = path then node_text bn @ [NL] else []) (blocks bl))"

definition GetPathNode :: "block_list \<Rightarrow> bytes \<Rightarrow> block_node" where
  "GetPathNode bl path =
     (case find (\<lambda>bn. node_path bn = path) (blocks bl) of Some bn \<Rightarrow> bn | None \<Rightarrow> new_BlockNode)"

definition GetPathCount :: "block_list \<Rightarrow> bytes \<Rightarrow> nat" where
  "GetPathCount bl path = length (filter (\<lambda>bn. node_path bn = path) (blocks bl))"

text \<open>Both \<open>anchor_density\<close> functions, on the text and the anchor text.\<close>

definition text_density :: "bytes \<Rightarrow> bytes \<Rightarrow> flt" where
  "text_density s1 s2 =
     (let len1 = int_of_size (length (string_filter s1)); len2 = int_of_size (length (string_filter s2))
      in if 0 < len2 then fdiv f32 (f32_of_int len2) (f32_of_int len1)
         else if len1 = 0 then Fin (- 1) else Fin 0)"

definition anchor_density :: "block_list \<Rightarrow> flt" where
  "anchor_density bl = text_density (GetText bl) (GetAnchorText bl)"

definition anchor_density_ad :: "bytes set \<Rightarrow> block_list \<Rightarrow> flt" where
  "anchor_density_ad ad_node bl = text_density (GetText_ad ad_node bl) (GetAnchorText_ad ad_node bl)"

definition SetListPath :: "bytes \<Rightarrow> block_list \<Rightarrow> block_list" where
  "SetListPath p bl = bl\<lparr>xpath := p\<rparr>"

definition SetUrl :: "bytes \<Rightarrow> block_list \<Rightarrow> block_list" where
  "SetUrl u bl = bl\<lparr>url := u\<rparr>"

definition SetTitle :: "bytes \<Rightarrow> block_list \<Rightarrow> block_list" where
  "SetTitle t bl = bl\<lparr>title := t\<rparr>"

definition SetClusterPointer :: "nat option \<Rightarrow> block_list \<Rightarrow> block_list" where
  "SetClusterPointer c bl = bl\<lparr>cluster := c\<rparr>"

definition find_link :: "block_list \<Rightarrow> bytes \<Rightarrow> bytes" where
  "find_link bl link =
     (if contains ''http'' link then link
      else
        let l1 = (case find_last ''./'' link of Some f2 \<Rightarrow> drop (f2 + 2) link | None \<Rightarrow> link)
        in case find (\<lambda>l2. contains l1 l2) (links bl) of Some l2 \<Rightarrow> l2 | None \<Rightarrow> [])"

definition add_link :: "bytes \<Rightarrow> block_list \<Rightarrow> block_list" where
  "add_link link bl = bl\<lparr>links := links bl @ [link]\<rparr>"

definition list_serialize :: "block_list \<Rightarrow> sstream \<Rightarrow> block_list \<times> sstream" where
  "list_serialize bl ss =
     (let ss = put_line (xpath bl) ss;
          ss = put_line (url bl) ss;
          ss = put_line (show_int (int_of_size (length (blocks bl)))) ss;
          (bs, ss) = ser_all node_serialize (blocks bl) ss
      in (bl\<lparr>blocks := bs\<rparr>, ss))"

definition list_deserialize :: "block_list \<Rightarrow> sstream \<Rightarrow> block_list \<times> sstream" where
  "list_deserialize bl ss =
     (let (xp, ss) = get_line ss; (u, ss) = get_line ss; (size, ss) = get_integer ss;
          (bs, ss) = deser_n node_deserialize (nat size) ss
      in (bl\<lparr>xpath := xp, url := u, blocks := blocks bl @ bs\<rparr>, ss))"

section \<open>The access list is a key store\<close>

definition acl_rule :: "bytes \<Rightarrow> bool \<Rightarrow> acldb \<Rightarrow> acldb" where
  "acl_rule k b = (if b then add_allow k else add_deny k)"

definition acl_ok :: "acldb \<Rightarrow> bool" where
  "acl_ok a \<longleftrightarrow> cmap_ok (pats a)"

lemma pats_rule: "pats (acl_rule k b a) = cmap_replace k b (pats a)" "def (acl_rule k b a) = def a"
  by (simp_all add: acl_rule_def add_allow_def add_deny_def)

interpretation acl: key_store acl_rule "\<lambda>a. cmap_find (pats a)" acl_ok
  by unfold_locales (simp_all add: pats_rule acl_ok_def replace.inv_store replace.fetch_store)

lemma new_ACLDB_rules: "new_ACLDB_def d = fold (\<lambda>(k, b). acl_rule k b) [(''A'', False), (''SCRIPT'', False)] \<lparr>pats = [], def = d\<rparr>"
  by (simp add: new_ACLDB_def_def acl_rule_def)

lemma acl_ok_new: "acl_ok \<lparr>pats = [], def = d\<rparr>" "acl_ok (new_ACLDB_def d)"
  unfolding new_ACLDB_rules by (rule_tac [2] acl.inv_store_all) (simp_all add: acl_ok_def)

lemma def_rules: "def (fold (\<lambda>(k, b). acl_rule k b) rs a) = def a"
proof (induction rs arbitrary: a)
  case (Cons r rs)
  then show ?case by (cases r) (simp add: pats_rule)
qed simp

text \<open>Whether a mark is allowed is decided by the last \<open>add_allow\<close> or \<open>add_deny\<close> for it; without one,
  \<open>A\<close> and \<open>SCRIPT\<close> are denied and every other mark has the default of the list.\<close>

theorem allowed_last_rule:
  "allowed (fold (\<lambda>(k, b). acl_rule k b) rs (new_ACLDB_def d)) mark =
     (case map_of (rev rs) mark of
        Some b \<Rightarrow> b
      | None \<Rightarrow> (if mark = ''A'' \<or> mark = ''SCRIPT'' then False else d))"
proof -
  have "cmap_find (pats (new_ACLDB_def d)) mark = (if mark = ''A'' \<or> mark = ''SCRIPT'' then Some False else None)"
    unfolding new_ACLDB_rules acl.fetch_store_all [OF acl_ok_new(1)] by simp
  moreover have "def (new_ACLDB_def d) = d" unfolding new_ACLDB_rules def_rules by simp
  ultimately show ?thesis
    using acl.fetch_store_all [OF acl_ok_new(2), of rs d mark]
    by (auto simp: allowed_def def_rules split: option.splits)
qed

section \<open>Serialization\<close>

lemma get_line_line2 [simp]:
  "line_ok s \<Longrightarrow> get_line \<lparr>unread = s @ NL # r, good = True\<rparr> = (s, \<lparr>unread = r, good = True\<rparr>)"
  by (rule get_line_line)

interpretation entry_codec: line_codec ser_entry deser_entry
  "\<lambda>e. fst e @ NL # show_bool (snd e) @ [NL]" id id "\<lambda>e. line_ok (fst e)"
proof
  fix e :: "bytes \<times> bool" and st r
  show "ser_entry e st = (id e, put (fst e @ NL # show_bool (snd e) @ [NL]) st)"
    by (simp add: ser_entry_def put_line_def)
  show "line_ok (fst e) \<Longrightarrow> deser_entry \<lparr>unread = (fst e @ NL # show_bool (snd e) @ [NL]) @ r, good = True\<rparr> =
      (id e, \<lparr>unread = r, good = True\<rparr>)"
    by (cases e) (simp add: deser_entry_def get_integer_bool)
qed

definition filtered :: "block_node \<Rightarrow> block_node" where
  "filtered bn = bn\<lparr>node_text := string_filter_chars (node_text bn) invalid_characters\<rparr>"

text \<open>What survives the round trip: name, path, filtered text and position.\<close>

definition node_image :: "block_node \<Rightarrow> block_node" where
  "node_image bn = (filtered bn)\<lparr>anchor_text := [], attr := []\<rparr>"

definition node_enc :: "block_node \<Rightarrow> bytes" where
  "node_enc bn = node_name bn @ NL # node_path bn @ NL # node_text (filtered bn) @ NL #
     show_int (node_x bn) @ NL # show_int (node_y bn) @ NL # show_int (node_w bn) @ NL # show_int (node_h bn) @ [NL]"

definition node_ok :: "block_node \<Rightarrow> bool" where
  "node_ok bn \<longleftrightarrow> line_ok (node_name bn) \<and> line_ok (node_path bn) \<and> NUL \<notin> set (node_text bn) \<and>
     int_ok (node_x bn) \<and> int_ok (node_y bn) \<and> int_ok (node_w bn) \<and> int_ok (node_h bn)"

lemma filtered_line: "node_ok bn \<Longrightarrow> line_ok (node_text (filtered bn))"
  by (simp add: node_ok_def filtered_def line_ok_def string_filter_chars_eq invalid_characters_def)

interpretation node_codec: line_codec node_serialize node_deserialize node_enc filtered node_image node_ok
proof
  fix bn st r
  show "node_serialize bn st = (filtered bn, put (node_enc bn) st)"
    by (simp add: node_serialize_def node_enc_def filtered_def put_line_def Let_def)
  assume ok: "node_ok bn"
  show "node_deserialize \<lparr>unread = node_enc bn @ r, good = True\<rparr> = (node_image bn, \<lparr>unread = r, good = True\<rparr>)"
    using ok filtered_line [OF ok]
    by (simp add: node_deserialize_def node_enc_def node_ok_def get_integer_line node_image_def filtered_def new_BlockNode_def)
qed

definition list_image :: "block_list \<Rightarrow> block_list" where
  "list_image bl = new_BlockList\<lparr>xpath := xpath bl, url := url bl, blocks := map node_image (blocks bl)\<rparr>"

definition list_enc :: "block_list \<Rightarrow> bytes" where
  "list_enc bl = xpath bl @ NL # url bl @ NL # show_int (int_of_size (length (blocks bl))) @ NL #
     concat (map node_enc (blocks bl))"

definition list_ok :: "block_list \<Rightarrow> bool" where
  "list_ok bl \<longleftrightarrow> line_ok (xpath bl) \<and> line_ok (url bl) \<and> length (blocks bl) < 2 ^ 31 \<and> (\<forall>bn \<in> set (blocks bl). node_ok bn)"

interpretation list_codec: line_codec list_serialize "list_deserialize new_BlockList" list_enc
  "\<lambda>bl. bl\<lparr>blocks := map filtered (blocks bl)\<rparr>" list_image list_ok
proof
  fix bl st r
  show "list_serialize bl st = (bl\<lparr>blocks := map filtered (blocks bl)\<rparr>, put (list_enc bl) st)"
    by (simp add: list_serialize_def list_enc_def put_line_def node_codec.ser_all_eq Let_def)
  assume ok: "list_ok bl"
  then show "list_deserialize new_BlockList \<lparr>unread = list_enc bl @ r, good = True\<rparr> =
      (list_image bl, \<lparr>unread = r, good = True\<rparr>)"
    by (simp add: list_deserialize_def list_enc_def list_ok_def int_of_size_id get_integer_of_nat
        node_codec.deser_n_eq list_image_def new_BlockList_def)
qed

text \<open>C21.  A page that is written and read back keeps its path, its URL and, for every node in order,
  the name, the path, the position and the text without line feeds, tabs, carriage returns and
  number signs; the stream is consumed exactly.  The title, the links, the attributes and the
  anchor texts are not kept.\<close>

theorem block_list_roundtrip:
  assumes "list_ok bl"
  shows "list_deserialize new_BlockList (snd (list_serialize bl \<lparr>unread = [], good = True\<rparr>)) =
     (list_image bl, \<lparr>unread = [], good = True\<rparr>)"
  using assms by (rule list_codec.roundtrip)

definition sample_list :: block_list where
  "sample_list = new_BlockList\<lparr>url := ''u'', links := [''l''],
     blocks := [new_BlockNode\<lparr>node_name := ''P'', node_path := ''/P/'', node_text := ''a#b'', node_x := - 3\<rparr>]\<rparr>"

lemma block_list_roundtrip_witness:
  "list_deserialize new_BlockList (snd (list_serialize sample_list \<lparr>unread = [], good = True\<rparr>)) =
     (list_image sample_list, \<lparr>unread = [], good = True\<rparr>)"
  by (rule block_list_roundtrip)
    (simp add: sample_list_def new_BlockList_def new_BlockNode_def list_ok_def node_ok_def line_ok_def int_ok_def)

text \<open>Reading an access list into a new one.\<close>

lemma map_of_find: "cmap_find m k = map_of m k"
  by (simp add: cmap_find_def)

lemma cmap_insert_fold_find:
  "cmap_ok m \<Longrightarrow> cmap_find (fold (\<lambda>(k, b). cmap_insert k b) es m) k =
     (case cmap_find m k of Some v \<Rightarrow> Some v | None \<Rightarrow> map_of es k)"
proof (induction es arbitrary: m)
  case (Cons e es)
  then show ?case by (cases e) (auto split: option.splits)
qed (simp split: option.splits)

text \<open>Reading a serialized access list into a new one restores every entry except those for \<open>A\<close> and
  \<open>SCRIPT\<close>, which stay denied even where the list that was written allowed them: \<open>insert\<close> does not
  replace the entries the constructor made.  The default is not written either.\<close>

theorem acl_roundtrip:
  assumes "\<forall>(k, b) \<in> set (pats a). line_ok k" and "length (pats a) < 2 ^ 31"
  shows "\<exists>a'. acl_deserialize (new_ACLDB_def d) (acl_serialize a \<lparr>unread = [], good = True\<rparr>) =
       (a', \<lparr>unread = [], good = True\<rparr>) \<and> def a' = d \<and>
     (\<forall>k. cmap_find (pats a') k = (if k = ''A'' \<or> k = ''SCRIPT'' then Some False else cmap_find (pats a) k))"
proof -
  have ok: "\<forall>e \<in> set (pats a). line_ok (fst e)" using assms(1) by auto
  let ?n = "new_ACLDB_def d"
  let ?p = "fold (\<lambda>(k, b). cmap_insert k b) (pats a) (pats ?n)"
  have "acl_serialize a \<lparr>unread = [], good = True\<rparr> =
      \<lparr>unread = show_int (int (length (pats a))) @ NL # concat (map (\<lambda>e. fst e @ NL # show_bool (snd e) @ [NL]) (pats a)),
       good = True\<rparr>"
    using assms(2) by (simp add: acl_serialize_def entry_codec.ser_all_eq int_of_size_id put_line_def put_def)
  then have "acl_deserialize ?n (acl_serialize a \<lparr>unread = [], good = True\<rparr>) =
      (?n\<lparr>pats := ?p\<rparr>, \<lparr>unread = [], good = True\<rparr>)"
    using assms(2) entry_codec.deser_n_eq [OF ok, of "[]"]
    by (simp add: acl_deserialize_def get_integer_of_nat)
  moreover have "cmap_find (pats ?n) k = (if k = ''A'' \<or> k = ''SCRIPT'' then Some False else None)" for k
    unfolding new_ACLDB_rules acl.fetch_store_all [OF acl_ok_new(1)] by simp
  then have "cmap_find ?p k = (if k = ''A'' \<or> k = ''SCRIPT'' then Some False else cmap_find (pats a) k)" for k
    using cmap_insert_fold_find [of "pats ?n" "pats a" k] acl_ok_new(2) [of d]
    by (auto simp: acl_ok_def map_of_find)
  moreover have "def ?n = d" unfolding new_ACLDB_rules def_rules by simp
  ultimately show ?thesis by simp
qed

lemma acl_roundtrip_witness:
  "\<exists>a'. acl_deserialize (new_ACLDB_def True) (acl_serialize (add_allow ''A'' (new_ACLDB_def False)) \<lparr>unread = [], good = True\<rparr>) =
       (a', \<lparr>unread = [], good = True\<rparr>) \<and> def a' = True \<and>
     (\<forall>k. cmap_find (pats a') k =
        (if k = ''A'' \<or> k = ''SCRIPT'' then Some False else cmap_find (pats (add_allow ''A'' (new_ACLDB_def False))) k))"
  by (rule acl_roundtrip)
    (simp_all add: add_allow_def new_ACLDB_def_def add_deny_def cmap_replace_def cmap_find_def cmap_erase_def line_ok_def)

section \<open>Blocks\<close>

text \<open>\<open>GetBlock\<close> finds the first block and no other: for every index but 0 it returns an empty one.\<close>

theorem GetBlock_only_first:
  "GetBlock bl index = (if index = 0 \<and> blocks bl \<noteq> [] then hd (blocks bl) else new_BlockNode)"
proof -
  have "i \<noteq> index \<Longrightarrow> GetBlock_from bs i index = new_BlockNode" for bs i
    by (induction bs) simp_all
  then show ?thesis by (cases "blocks bl") (auto simp: GetBlock_def)
qed

text \<open>
  The anchor tests: \<open>GetAnchorText\<close> looks for \<open>A/\<close> without the slash before it, so a \<open>TEXTAREA\<close> is an
  anchor for it and not for \<open>is_anchor_mark\<close>.
\<close>

lemma textarea_is_anchor:
  "anchor_path ''/BODY/TEXTAREA/''"
  "\<not> is_anchor_mark (new_BlockNode\<lparr>node_name := ''#text'', node_path := ''/BODY/TEXTAREA/''\<rparr>)"
  by (simp_all add: anchor_path_def is_anchor_mark_def contains_def new_BlockNode_def)

text \<open>ASCII text: \<open>string_filter\<close> removes the separators byte by byte.\<close>

definition separators :: "char list" where
  "separators = [CHR ''#'', NL] @ white_space @ [CHR 0x2C, CHR 0x2E, CHR 0x3A, CHR 0x22, CHR 0x7C]"

definition ascii :: "bytes \<Rightarrow> bool" where
  "ascii s \<longleftrightarrow> list_all (\<lambda>c. c \<noteq> NUL \<and> (of_char c :: nat) < 128) s"

fun chars_of :: "regex \<Rightarrow> char list" where
  "chars_of (OneOf cs) = cs"
| "chars_of (Alt r1 r2) = chars_of r1 @ chars_of r2"
| "chars_of (Seq r1 r2) = chars_of r1 @ chars_of r2"
| "chars_of (Star r) = chars_of r"
| "chars_of _ = []"

lemma lang_chars: "w \<in> lang r \<Longrightarrow> set w \<subseteq> set (chars_of r)"
proof (induction r arbitrary: w)
  case (Star r)
  then obtain us where us: "w = concat us" "set us \<subseteq> lang r" by auto
  then have "\<forall>u \<in> set us. set u \<subseteq> set (chars_of r)" using Star.IH by blast
  then show ?case by (auto simp: us(1))
next
  case (Seq r1 r2)
  then obtain u v where "w = u @ v" "u \<in> lang r1" "v \<in> lang r2" by auto
  then show ?case using Seq.IH by fastforce
qed auto

lemma filter_pat_chars: "w \<in> lang filter_pat \<Longrightarrow> c \<in> set w \<Longrightarrow> c \<in> set separators \<or> 128 \<le> (of_char c :: nat)"
proof -
  assume "w \<in> lang filter_pat" "c \<in> set w"
  then have "c \<in> set (chars_of filter_pat)" using lang_chars by blast
  moreover have "list_all (\<lambda>c. c \<in> set separators \<or> 128 \<le> (of_char c :: nat)) (chars_of filter_pat)"
    by (simp add: filter_pat_def Plus_def filter_token_def wide_space_def separators_def white_space_def)
  ultimately show ?thesis by (simp only: list_all_iff)
qed

lemma separator_pat: "c \<in> set separators \<Longrightarrow> [c] \<in> lang filter_pat"
proof -
  have "list_all (\<lambda>c. nullable (deriv c filter_token)) separators"
    by (simp add: filter_token_def wide_space_def separators_def white_space_def)
  moreover assume "c \<in> set separators"
  ultimately have "[c] \<in> lang filter_token" by (simp only: list_all_iff nullable_lang deriv_lang)
  then show ?thesis by (rule filter_token_in_pat)
qed

lemma ascii_c_str: "ascii s \<Longrightarrow> c_str s = s"
  by (rule c_str_id) (auto simp: ascii_def list_all_iff)

lemma string_filter_ascii: "ascii s \<Longrightarrow> string_filter s = filter (\<lambda>c. c \<notin> set separators) s"
  unfolding string_filter_def
proof (induction s rule: string_filter2.induct)
  case (1 s)
  note c = ascii_c_str [OF 1(2)]
  show ?case
  proof (cases "regexec filter_pat (c_str s)")
    case None
    have "c \<notin> set separators" if "c \<in> set s" for c
    proof
      assume "c \<in> set separators"
      then have p: "[c] \<in> lang filter_pat" by (rule separator_pat)
      obtain u v where "s = u @ [c] @ v" using \<open>c \<in> set s\<close> by (auto dest: split_list)
      moreover have "regexec filter_pat s = None" using None by (simp only: c)
      ultimately show False using p unfolding regexec_None_iff by blast
    qed
    then have "filter (\<lambda>c. c \<notin> set separators) s = s" by (simp add: filter_id_conv)
    then show ?thesis using None by (simp add: string_filter2.simps [of s])
  next
    case (Some p)
    then obtain so eo where r: "regexec filter_pat (c_str s) = Some (so, eo)" by (cases p) auto
    let ?w = "take (eo - so) (drop so s)"
    have eo: "so \<le> eo" "eo \<le> length s" and w: "?w \<in> lang filter_pat"
      using regexec_Some [OF r] by (simp_all add: c)
    have s: "s = take so s @ ?w @ drop eo s"
      using eo(1) by (metis append_take_drop_id drop_drop le_add_diff_inverse2)
    have "filter (\<lambda>c. c \<notin> set separators) ?w = []"
    proof (simp add: filter_empty_conv, intro ballI)
      fix x
    assume x: "x \<in> set ?w"
      then have "x \<in> set s" by (meson in_set_dropD in_set_takeD)
      then have "(of_char x :: nat) < 128" using 1(2) by (simp add: ascii_def list_all_iff)
      then show "x \<in> set separators" using filter_pat_chars [OF w x] by simp
    qed
    then have f: "filter (\<lambda>c. c \<notin> set separators) (take so s @ drop eo s) = filter (\<lambda>c. c \<notin> set separators) s"
      by (subst (2) s) simp
    have "ascii (take so s @ drop eo s)"
      using 1(2) by (auto simp: ascii_def list_all_iff dest: in_set_takeD in_set_dropD)
    from 1(1) [OF r refl this] f r show ?thesis by (simp add: string_filter2.simps [of s])
  qed
qed

lemma ascii_concat: "(\<forall>s \<in> set ss. ascii s) \<Longrightarrow> ascii (concat ss)"
  by (induction ss) (auto simp: ascii_def)

lemma filtered_subtext:
  "(\<forall>bn \<in> set bs. f bn = [] \<or> f bn = g bn) \<Longrightarrow>
     length (filter P (concat (map f bs))) \<le> length (filter P (concat (map g bs)))"
  by (induction bs) auto

text \<open>On ASCII text without NUL bytes (shorter than 16 MB) the anchor density of a page is -1 when
  the page has no text but separators, and otherwise a number between 0 and 1.\<close>

theorem anchor_density_unit:
  assumes "\<forall>bn \<in> set (blocks bl). ascii (node_text bn)" and "length (GetText bl) < 2 ^ 24"
  shows "if string_filter (GetText bl) = [] then anchor_density bl = Fin (- 1) else in_unit (anchor_density bl)"
proof -
  have a: "ascii (GetText bl)" "ascii (GetAnchorText bl)"
    unfolding GetText_def GetAnchorText_def using assms(1) by (intro ascii_concat; auto simp: ascii_def)+
  define n m where "n = length (string_filter (GetText bl))" and "m = length (string_filter (GetAnchorText bl))"
  have "m \<le> n"
    unfolding n_def m_def a [THEN string_filter_ascii] unfolding GetText_def GetAnchorText_def
    by (rule filtered_subtext) simp
  moreover have "n < 2 ^ 24" using assms(2) length_string_filter [of "GetText bl"] by (simp add: n_def)
  moreover have "int_of_size n = int n" "int_of_size m = int m"
    using calculation by (simp_all add: int_of_size_id)
  moreover have "f32_of_int (int n) = Fin (of_nat n)" "f32_of_int (int m) = Fin (of_nat m)"
    using calculation by (simp_all add: f32_of_int_exact)
  moreover have "0 < m \<Longrightarrow> \<exists>r. fdiv f32 (Fin (of_nat m)) (Fin (of_nat n)) = Fin r \<and> 0 \<le> r \<and> r \<le> 1"
    using calculation(1) by (intro fdiv_ratio) simp_all
  moreover have "string_filter (GetText bl) = [] \<longleftrightarrow> n = 0" by (simp add: n_def)
  ultimately show ?thesis
    by (auto simp: anchor_density_def text_density_def Let_def simp flip: n_def m_def)
qed

lemma anchor_density_unit_witness:
  "if string_filter (GetText sample_list) = [] then anchor_density sample_list = Fin (- 1)
   else in_unit (anchor_density sample_list)"
  by (rule anchor_density_unit)
    (simp_all add: sample_list_def new_BlockList_def new_BlockNode_def ascii_def GetText_def script_or_style_def)

text \<open>\<open>find_link\<close> gives a link that contains \<open>http\<close> back unchanged; for another it gives a stored link
  that contains what follows the last \<open>./\<close>, and the empty string when there is none.\<close>

theorem find_link_spec:
  "find_link bl link = link \<and> contains ''http'' link \<or>
   (\<exists>l1. (link = l1 \<or> (\<exists>u. link = u @ ''./'' @ l1 \<and> \<not> contains ''./'' l1)) \<and>
      (find_link bl link \<in> set (links bl) \<and> contains l1 (find_link bl link) \<or>
       find_link bl link = [] \<and> list_all (\<lambda>l2. \<not> contains l1 l2) (links bl)))"
proof (cases "contains ''http'' link")
  case False
  have last: "find_last ''./'' s = Some i \<Longrightarrow> s = take i s @ ''./'' @ drop (i + 2) s \<and> \<not> contains ''./'' (drop (i + 2) s)" for s i
  proof (induction s arbitrary: i)
    case (Cons c cs)
    show ?case
    proof (cases "find_last ''./'' cs")
      case None
      have no: "find_last pat xs = None \<Longrightarrow> \<not> contains pat xs" for pat xs
        by (induction xs) (auto simp: contains_def split: if_splits option.splits)
      have "\<not> contains ''./'' (drop 1 cs)"
        using no [OF None] by (auto simp: contains_iff) (metis append.assoc append_take_drop_id)
      then show ?thesis using Cons.prems None by (auto simp: prefix_def split: if_splits)
    next
      case (Some k)
      then show ?thesis using Cons.IH [OF Some] Cons.prems by auto
    qed
  qed simp
  define l1 where "l1 = (case find_last ''./'' link of Some f2 \<Rightarrow> drop (f2 + 2) link | None \<Rightarrow> link)"
  have "link = l1 \<or> (\<exists>u. link = u @ ''./'' @ l1 \<and> \<not> contains ''./'' l1)"
    using last [of link] by (auto simp: l1_def split: option.splits)
  moreover have "find_link bl link = (case find (\<lambda>l2. contains l1 l2) (links bl) of Some l2 \<Rightarrow> l2 | None \<Rightarrow> [])"
    using False by (simp add: find_link_def l1_def Let_def)
  ultimately show ?thesis
    by (cases "find (\<lambda>l2. contains l1 l2) (links bl)") (auto simp: find_None_iff find_Some_iff list_all_iff)
qed (simp add: find_link_def)

end
