(* ===== verification/BlockUtils.thy ===== *)
theory BlockUtils
  imports Distance BlockNode
begin

text \<open>
  \<open>DisCrawler/DOMAttUtil/BlockUtils.cpp\<close> and the keyword tests of \<open>analysis.cpp\<close>: the similarity of
  two texts, the structural similarity of two pages, the extraction of the content of a page by
  node paths, and string helpers.  The text similarity rests on \<open>string_distance\<close>, the contract of
  \<open>LD\<close>.
\<close>

section \<open>Similarity of texts\<close>

text \<open>
  \<open>same_score\<close>: when \<open>s1\<close> is longer than 900 bytes its prefix is stored in \<open>str2\<close>, which the next
  statement overwrites, and \<open>str1\<close> stays empty.
\<close>

definition max_len :: nat where
  "max_len = 900"

definition same_score :: "bytes \<Rightarrow> bytes \<Rightarrow> flt res" where
  "same_score s1 s2 =
     (let len = int_of_size (max (length s1) (length s2))
      in if s1 = [] \<or> s2 = [] then Inr (f32_of_int (len - len))
         else
           let (str1, str2) = (if length s1 \<le> max_len then (s1, []) else ([], take max_len s1));
               str2 = (if length s2 \<le> max_len then s2 else take max_len s2);
               len = int_of_size (max (length str1) (length str2))
           in bindE (LD_cstr str1 str2) (\<lambda>d. Inr (f32_of_int (len - d))))"

definition sim_score :: "bytes \<Rightarrow> bytes \<Rightarrow> flt res" where
  "sim_score s1 s2 =
     (if s1 = [] \<and> s2 = [] then Inr (Fin 0)
      else if s1 = s2 then Inr (Fin 1)
      else bindE (same_score s1 s2) (\<lambda>same_count.
             Inr (fdiv f32 (fmul f32 (Fin 2) same_count) (f32_of_int (int (length s1 + length s2))))))"

definition sim_blocks2 :: "block_list \<Rightarrow> block_list \<Rightarrow> flt res" where
  "sim_blocks2 bn1 bn2 = sim_score (GetText bn1) (GetText bn2)"

text \<open>The loops over the pairs; the state is \<open>(score, n)\<close>.\<close>

fun sim_pairs :: "block_list list \<Rightarrow> flt \<times> nat \<Rightarrow> (flt \<times> nat) res" where
  "sim_pairs [] s = Inr s"
| "sim_pairs (bl1 # rest) s =
     bindE (foldE (\<lambda>bl2 (score, n). bindE (sim_blocks2 bl1 bl2) (\<lambda>v. Inr (fadd f32 score v, n + 1))) rest s)
       (sim_pairs rest)"

definition sim_blocks :: "block_list list \<Rightarrow> flt res" where
  "sim_blocks bls =
     (if length bls < 2 then Inr (Fin 0)
      else bindE (sim_pairs bls (Fin 0, 0)) (\<lambda>(score, n). Inr (fdiv f32 score (f32_of_int (int n)))))"

section \<open>Similarity of page structures\<close>

definition add_len :: "bytes \<Rightarrow> flt \<Rightarrow> flt" where
  "add_len s w = fadd f32 w (f32_of_int (int_of_size (length s)))"

definition total_weight :: "block_node list \<Rightarrow> flt" where
  "total_weight lst = fold (\<lambda>bn w. add_len (node_text bn) w) lst (Fin 0)"

definition path_text :: "block_list \<Rightarrow> block_node \<Rightarrow> bytes" where
  "path_text bl bn = string_filter (GetPathText bl (node_path bn))"

definition total_weight1 :: "block_node list \<Rightarrow> block_list \<Rightarrow> flt" where
  "total_weight1 lst bl1 = fold (\<lambda>bn w. add_len (path_text bl1 bn) w) lst (Fin 0)"

definition total_weight2 :: "block_node list \<Rightarrow> block_list \<Rightarrow> block_list \<Rightarrow> flt" where
  "total_weight2 lst bl1 bl2 =
     (let (w, w1) = fold (\<lambda>bn (w, w1). (add_len (path_text bl1 bn) w, add_len (path_text bl2 bn) w1)) lst (Fin 0, Fin 0)
      in fadd f32 w w1)"

text \<open>The global access list of \<open>filter\<close>, after its initialisation.\<close>

definition filter_acl :: acldb where
  "filter_acl = add_deny ''STYLE'' (add_deny ''IMG'' new_ACLDB)"

definition filter_nodes :: "block_node list \<Rightarrow> block_node list" where
  "filter_nodes lst =
     filter (\<lambda>bn. allowed filter_acl (node_name bn) \<and> string_filter (node_text bn) \<noteq> []) lst"

text \<open>\<open>uniq\<close> erases a node when a later one has the same path.\<close>

fun uniq :: "block_node list \<Rightarrow> block_node list" where
  "uniq [] = []"
| "uniq (bn1 # lst) = (if \<exists>bn2 \<in> set lst. same_node bn1 bn2 then uniq lst else bn1 # uniq lst)"

text \<open>
  \<open>find_common2\<close>: each node of the shorter list is looked for in the other, starting four places
  before the point after the last match.  When the last search ran to the end (\<open>k >= len2\<close>) \<open>k\<close> goes
  back to \<open>j\<close>, otherwise \<open>j\<close> is set to \<open>k\<close>: both then hold \<open>resume len2 j k\<close>.
\<close>

definition resume :: "nat \<Rightarrow> nat \<Rightarrow> nat \<Rightarrow> nat" where
  "resume len2 j k = (if len2 \<le> k then j else k)"

definition rewind :: "nat \<Rightarrow> nat" where
  "rewind k = (if 4 < k then k - 4 else 0)"

fun common_loop :: "bool \<Rightarrow> block_node list \<Rightarrow> block_node list \<Rightarrow> nat \<Rightarrow> nat \<Rightarrow> block_node list" where
  "common_loop b [] list2 j k = []"
| "common_loop b (bn1 # list1) list2 j k =
     (case find (\<lambda>m. same_node bn1 (list2 ! m)) [rewind (resume (length list2) j k)..<length list2] of
        Some m \<Rightarrow>
          (if \<not> b then bn1 else list2 ! m) # common_loop b list1 list2 (resume (length list2) j k) (m + 1)
      | None \<Rightarrow>
          common_loop b list1 list2 (resume (length list2) j k)
            (max (rewind (resume (length list2) j k)) (length list2)))"

definition find_common2 :: "block_node list \<Rightarrow> block_node list \<Rightarrow> block_node list" where
  "find_common2 l1 l2 =
     (let b = length l1 < length l2; (list1, list2) = (if b then (l1, l2) else (l2, l1))
      in common_loop b list1 list2 0 0)"

definition structure_nodes :: "block_list \<Rightarrow> block_node list" where
  "structure_nodes bl = uniq (filter_nodes (blocks bl))"

definition compare_structure :: "block_list \<Rightarrow> block_list \<Rightarrow> flt" where
  "compare_structure b1 b2 =
     (let l1 = structure_nodes b1; l2 = structure_nodes b2;
          common = find_common2 l1 l2;
          w0 = total_weight2 common b1 b2; w1 = total_weight1 l1 b1; w2 = total_weight1 l2 b2
      in fdiv f32 w0 (fadd f32 w1 w2))"

section \<open>Content by node paths\<close>

definition has_element :: "bytes set \<Rightarrow> bytes \<Rightarrow> bool" where
  "has_element s path \<longleftrightarrow> path \<in> s"

definition tool_wrap_content :: "block_list \<Rightarrow> bytes set \<Rightarrow> bytes" where
  "tool_wrap_content bl mn =
     concat (map (\<lambda>bn. if has_element mn (node_path bn) then node_text bn else []) (blocks bl))"

definition tool_wrap_content2 :: "block_list \<Rightarrow> bytes set \<Rightarrow> bytes" where
  "tool_wrap_content2 bl ad =
     concat (map (\<lambda>bn.
       if \<not> has_element ad (node_path bn) \<and> 0 < get_weight bn \<and>
          node_name bn \<noteq> ''SCRIPT'' \<and> node_name bn \<noteq> ''STYLE'' \<and> node_name bn \<noteq> ''TITLE''
       then node_text bn else []) (blocks bl))"

section \<open>Strings\<close>

definition string_ext_name :: "bytes \<Rightarrow> bytes" where
  "string_ext_name u =
     (let p = find_last ''/'' u
      in if u = [] \<or> p = Some (length u - 1) then []
         else case find_last ''.'' u of
                None \<Rightarrow> []
              | Some dot \<Rightarrow>
                  (case p of
                     None \<Rightarrow> []
                   | Some slash \<Rightarrow>
                       (if slash < dot then
                          (let type = string_filter (drop (dot + 1) u)
                           in if length type < 5 then type else [])
                        else [])))"

text \<open>\<open>std::hex\<close> of an \<open>int\<close> prints it as an unsigned number, without leading zeros.\<close>

definition hex_digit :: "nat \<Rightarrow> char" where
  "hex_digit d = (if d < 10 then digit d else char_of (55 + d))"

fun show_hex :: "nat \<Rightarrow> bytes" where
  "show_hex n = (if n < 16 then [hex_digit n] else show_hex (n div 16) @ [hex_digit (n mod 16)])"

declare show_hex.simps [simp del]

definition is_alnum :: "char \<Rightarrow> bool" where
  "is_alnum ch \<longleftrightarrow> is_digit ch \<or> 97 \<le> (of_char ch :: nat) \<and> (of_char ch :: nat) \<le> 122 \<or>
     65 \<le> (of_char ch :: nat) \<and> (of_char ch :: nat) \<le> 90"

definition escape_char :: "char \<Rightarrow> bytes" where
  "escape_char ch =
     (if is_alnum ch then [ch]
      else let n = (of_char ch :: nat)
           in CHR ''%'' # show_hex (if n < 128 then n else n + 2 ^ 32 - 256))"

definition escape :: "bytes \<Rightarrow> bytes" where
  "escape str = concat (map escape_char str)"

text \<open>\<open>split\<close> inserts the pieces into a set; with an empty separator it does not end.\<close>

partial_function (option) split_loop :: "bytes \<Rightarrow> bytes \<Rightarrow> nat \<Rightarrow> nat option \<Rightarrow> bytes list \<Rightarrow> bytes list option" where
  "split_loop str sep sp ep col =
     (case ep of
        None \<Rightarrow> Some col
      | Some e \<Rightarrow>
          split_loop str sep (e + length sep) (find_from sep str (e + length sep)) (col @ [take (e - sp) (drop sp str)]))"

definition split_set :: "bytes \<Rightarrow> bytes \<Rightarrow> bytes set \<Rightarrow> bytes set option" where
  "split_set str sep collection =
     (let ep = find_from sep str 0
      in map_option (\<lambda>col. collection \<union> (if ep = None then {str} else {}) \<union> set col) (split_loop str sep 0 ep []))"

text \<open>\<open>p_date\<close>: the score of a date from the six tests of \<open>is_date_format2\<close>.\<close>

definition p_date :: "int list \<Rightarrow> flt" where
  "p_date S =
     (if S ! 0 \<noteq> 0 then
        (if S ! 1 \<noteq> 0 \<and> S ! 2 \<noteq> 0 \<and> S ! 3 \<noteq> 0 then Fin 1
         else if S ! 1 \<noteq> 0 \<and> S ! 4 \<noteq> 0 then to_f32 (f64 (85 / 100))
         else if S ! 1 \<noteq> 0 \<and> S ! 5 \<noteq> 0 then to_f32 (f64 (8 / 10))
         else if S ! 1 \<noteq> 0 then to_f32 (f64 (6 / 10))
         else Fin 0)
      else Fin 0)"

definition embed_word_year :: "bytes \<Rightarrow> bool" where
  "embed_word_year d \<longleftrightarrow>
     contains [CHR 0xE5, CHR 0xB9, CHR 0xB4] d \<or> contains [CHR 0xE6, CHR 0x9C, CHR 0x88] d \<or>
     contains [CHR 0xE6, CHR 0x97, CHR 0xA5] d"

section \<open>Keywords (\<open>analysis.cpp\<close>)\<close>

definition has_word_author :: "bytes \<Rightarrow> bool" where
  "has_word_author text \<longleftrightarrow>
     contains [CHR 0xE4, CHR 0xBD, CHR 0x9C, CHR 0xE8, CHR 0x80, CHR 0x85] text \<or>
     contains [CHR 0xE8, CHR 0xAE, CHR 0xB0, CHR 0xE8, CHR 0x80, CHR 0x85] text \<or>
     contains [CHR 0xE6, CHR 0x96, CHR 0x87, CHR 0x2F] text \<or>
     contains [CHR 0xE6, CHR 0x96, CHR 0x87, CHR 0xEF, CHR 0xBC, CHR 0x8F] text"

definition has_word_source :: "bytes \<Rightarrow> bool" where
  "has_word_source text \<longleftrightarrow>
     contains [CHR 0xE6, CHR 0x9D, CHR 0xA5, CHR 0xE6, CHR 0xBA, CHR 0x90] text \<or>
     contains [CHR 0xE8, CHR 0xBD, CHR 0xAC, CHR 0xE8, CHR 0xBD, CHR 0xBD] text"

text \<open>\<open>href.at(href.size() - 1)\<close> throws on an empty \<open>href\<close>.\<close>

definition has_link_to_main_page :: "(bytes, bytes) cmap \<Rightarrow> bool res" where
  "has_link_to_main_page attrs =
     (case cmap_find attrs ''href'' of
        Some href \<Rightarrow> (if href = [] then Inl OutOfRange else Inr (last href = CHR ''/''))
      | None \<Rightarrow> Inr False)"

section \<open>The score of two texts\<close>

text \<open>A first text longer than 900 bytes has nothing in common with any other text: its prefix goes
  to the wrong variable and the empty string is compared instead, so the similarity is 0.\<close>

theorem sim_score_long:
  assumes "max_len < length s1" and "s1 \<noteq> s2" and "NUL \<notin> set s2" and "length s1 + length s2 < 2 ^ 24"
  shows "sim_score s1 s2 = Inr (Fin 0)"
proof -
  define t where "t = take max_len s2"
  have t: "(if length s2 \<le> max_len then s2 else take max_len s2) = t" by (simp add: t_def)
  have c: "c_str t = t" "c_str [] = []" unfolding c_str_def [of "[]"] using assms(3) by (auto intro!: c_str_id simp: t_def dest: in_set_takeD)
  have "length t < 2 ^ 31" by (simp add: t_def max_len_def)
  then have "LD_cstr [] t = Inr (int_of_size (length t))"
    by (simp add: LD_cstr_def c int_of_size_id)
  then have "same_score s1 s2 = Inr (Fin 0)"
    using assms(1) by (auto simp: same_score_def Let_def t f32_of_int_def)
  moreover have "f32_of_int (int (length s1 + length s2)) = Fin (of_nat (length s1 + length s2))"
    using assms(4) f32_of_int_exact [of "int (length s1 + length s2)"] by simp
  moreover have "(of_nat (length s1 + length s2) :: rat) \<noteq> 0" using assms(1) by (metis add_is_0 less_zeroE of_nat_eq_0_iff)
  moreover have "s1 \<noteq> []" using assms(1) by auto
  ultimately show ?thesis using assms(2) by (simp add: sim_score_def del: of_nat_add)
qed

lemma sim_score_long_witness: "sim_score (replicate 901 CHR ''a'') (replicate 902 CHR ''a'') = Inr (Fin 0)"
proof (rule sim_score_long)
  show "replicate 901 CHR ''a'' \<noteq> replicate 902 CHR ''a''" by (metis length_replicate numeral_eq_iff semiring_norm(88) num.inject(2) num.distinct(3))
qed (simp_all add: max_len_def)

lemma same_score_equal_length:
  assumes "length s1 = length s2" and "length s1 \<le> max_len" and "NUL \<notin> set s1" and "NUL \<notin> set s2" and "s1 \<noteq> []"
  shows "same_score s1 s2 = Inr (Fin (of_nat (length s1 - edit_distance s1 s2)))"
proof -
  have sz: "(length s1 + 1) * (length s1 + 1) * 4 < 2 ^ 31"
  proof -
    have "(length s1 + 1) * (length s1 + 1) \<le> 901 * 901"
      using assms(2) by (intro mult_mono) (simp_all add: max_len_def)
    then show ?thesis by simp
  qed
  have "edit_distance s1 s2 \<le> length s1" using edit_distance_le_max [of s1 s2] assms(1) by simp
  then have "int (length s1) - int (edit_distance s1 s2) = int (length s1 - edit_distance s1 s2)" by simp
  moreover have "f32_of_int (int (length s1 - edit_distance s1 s2)) = Fin (of_nat (length s1 - edit_distance s1 s2))"
    using assms(2) f32_of_int_exact [of "int (length s1 - edit_distance s1 s2)"] by (simp add: max_len_def)
  moreover have "int_of_size (length s1) = int (length s1)" using assms(2) by (simp add: int_of_size_id max_len_def)
  moreover have "length s2 = length s1" "s2 \<noteq> []" using assms(1,5) by auto
  ultimately show ?thesis
    using assms(2,5) LD_equal_length [OF assms(1,3,4) sz] by (simp add: same_score_def Let_def del: of_nat_diff)
qed

text \<open>Two texts of the same length (up to 900 bytes) are compared without error, and the score is the
  share of the bytes their edit distance leaves: between 0 and 1, and 1 for equal texts.\<close>

theorem sim_score_equal_length:
  assumes "length s1 = length s2" and "length s1 \<le> max_len" and "NUL \<notin> set s1" and "NUL \<notin> set s2" and "s1 \<noteq> []"
  shows "sim_score s1 s2 = Inr (fdiv f32 (Fin (of_nat (2 * (length s1 - edit_distance s1 s2)))) (Fin (of_nat (2 * length s1))))
     \<and> (\<exists>v. sim_score s1 s2 = Inr v \<and> in_unit v)"
proof -
  let ?n = "length s1 - edit_distance s1 s2"
  have n: "2 * ?n \<le> 2 * length s1" "2 * length s1 < 2 ^ 24" "0 < length s1"
    using assms(2,5) by (simp_all add: max_len_def)
  have f: "f32 (of_nat k) = Fin (of_nat k)" if "k < 2 ^ 24" for k
    using f32_of_int_exact [of "int k"] that by (simp add: f32_of_int_def)
  have f2: "f32 (2 * of_nat ?n) = Fin (of_nat (2 * ?n))" "f32 (2 * of_nat (length s1)) = Fin (of_nat (2 * length s1))"
    using f [of "2 * ?n"] f [of "2 * length s1"] n by simp_all
  have eq: "sim_score s1 s2 = Inr (fdiv f32 (Fin (of_nat (2 * ?n))) (Fin (of_nat (2 * length s1))))"
  proof (cases "s1 = s2")
    case True
    then show ?thesis using assms(5) by (simp add: sim_score_def edit_distance_self)
  next
    case False
    have "int (length s1 + length s2) = 2 * int (length s1)" using assms(1) by simp
    then show ?thesis
      using False assms same_score_equal_length [OF assms] f2
      by (simp add: sim_score_def f32_of_int_def)
  qed
  moreover obtain r where "fdiv f32 (Fin (of_nat (2 * ?n))) (Fin (of_nat (2 * length s1))) = Fin r" "0 \<le> r" "r \<le> 1"
  proof -
    have "(of_nat (2 * ?n) :: rat) \<le> of_nat (2 * length s1)" using n(1) by (simp only: of_nat_le_iff)
    then show ?thesis using fdiv_ratio [of "of_nat (2 * ?n)" "of_nat (2 * length s1)"] n(3) that by auto
  qed
  ultimately show ?thesis by simp
qed

lemma sim_score_equal_length_witness:
  "\<exists>v. sim_score ''cat'' ''cut'' = Inr v \<and> in_unit v"
proof -
  have "length ''cat'' = length ''cut''" "length ''cat'' \<le> max_len" "NUL \<notin> set ''cat''" "NUL \<notin> set ''cut''" "''cat'' \<noteq> []"
    by (simp_all add: max_len_def)
  from sim_score_equal_length [OF this] show ?thesis by blast
qed

text \<open>Two non-empty texts of different lengths, both of at most 900 bytes, make \<open>LD\<close> leave its matrix:
  the score of such texts is not defined.\<close>

theorem sim_score_different_lengths:
  assumes "s1 \<noteq> []" "s2 \<noteq> []" "length s1 \<noteq> length s2" "NUL \<notin> set s1" "NUL \<notin> set s2"
    and "length s1 \<le> max_len" "length s2 \<le> max_len"
  shows "sim_score s1 s2 = Inl (if length s1 < length s2 then OutOfBounds else UninitRead)"
proof -
  have "(length s1 + 1) * (length s2 + 1) \<le> 901 * 901"
    using assms(6,7) by (intro mult_mono) (simp_all add: max_len_def)
  then have "(length s1 + 1) * (length s2 + 1) * 4 < 2 ^ 31" by simp
  from LD_different_lengths [OF assms(1-5) this] show ?thesis
    using assms by (auto simp: sim_score_def same_score_def Let_def)
qed

lemma sim_score_different_lengths_witness: "sim_score ''ab'' ''abc'' = Inl OutOfBounds"
  using sim_score_different_lengths [of "''ab''" "''abc''"] by (simp add: max_len_def)

section \<open>The structure of two pages\<close>

lemma uniq_paths: "node_path ` set (uniq l) = node_path ` set l"
  by (induction l) (auto simp: same_node_def)

lemma uniq_distinct: "distinct (map node_path (uniq l))"
proof (induction l)
  case (Cons bn l)
  have "\<not> (\<exists>x \<in> set l. same_node bn x) \<Longrightarrow> node_path bn \<notin> node_path ` set (uniq l)"
    unfolding uniq_paths by (auto simp: same_node_def)
  then show ?case using Cons by simp
qed simp

text \<open>The paths of the common nodes are paths of both lists, in the order of the first.\<close>

lemma common_loop_subseq:
  "subseq (map node_path (common_loop b list1 list2 j k)) (map node_path list1) \<and>
   set (map node_path (common_loop b list1 list2 j k)) \<subseteq> set (map node_path list2)"
proof (induction b list1 list2 j k rule: common_loop.induct)
  case (2 b bn1 list1 list2 j k)
  show ?case
  proof (cases "find (\<lambda>m. same_node bn1 (list2 ! m)) [rewind (resume (length list2) j k)..<length list2]")
    case None
    then show ?thesis using 2(1) [OF None] by (auto intro: list_emb_Cons)
  next
    case (Some m)
    then have "m \<in> set [rewind (resume (length list2) j k)..<length list2]" "same_node bn1 (list2 ! m)"
      by (metis find_Some_iff nth_mem)+
    then show ?thesis using 2(2) [OF Some] Some by (auto simp: same_node_def)
  qed
qed simp

lemma subseq_set: "subseq xs ys \<Longrightarrow> set xs \<subseteq> set ys"
  by (induction rule: list_emb.induct) auto

lemma subseq_distinct: "subseq xs ys \<Longrightarrow> distinct ys \<Longrightarrow> distinct xs"
  by (induction rule: list_emb.induct) (auto dest: subseq_set)

lemma find_common2_paths:
  "set (map node_path (find_common2 l1 l2)) \<subseteq> set (map node_path l1)"
  "set (map node_path (find_common2 l1 l2)) \<subseteq> set (map node_path l2)"
  "distinct (map node_path l1) \<Longrightarrow> distinct (map node_path l2) \<Longrightarrow> distinct (map node_path (find_common2 l1 l2))"
proof -
  note t = common_loop_subseq [of True l1 l2 0 0] and f = common_loop_subseq [of False l2 l1 0 0]
  show "set (map node_path (find_common2 l1 l2)) \<subseteq> set (map node_path l1)"
    using subseq_set t f by (cases "length l1 < length l2") (simp_all only: find_common2_def Let_def if_True if_False split, blast+)
  show "set (map node_path (find_common2 l1 l2)) \<subseteq> set (map node_path l2)"
    using subseq_set t f by (cases "length l1 < length l2") (simp_all only: find_common2_def Let_def if_True if_False split, blast+)
  show "distinct (map node_path l1) \<Longrightarrow> distinct (map node_path l2) \<Longrightarrow> distinct (map node_path (find_common2 l1 l2))"
    using subseq_distinct t f by (cases "length l1 < length l2") (simp_all only: find_common2_def Let_def if_True if_False split, blast+)
qed

text \<open>Sums of lengths below \<open>2^24\<close> are exact.\<close>

definition weight :: "block_list \<Rightarrow> block_node list \<Rightarrow> nat" where
  "weight bl lst = sum_list (map (\<lambda>bn. length (path_text bl bn)) lst)"

lemma f32_of_nat: "n < 2 ^ 24 \<Longrightarrow> f32 (of_nat n) = Fin (of_nat n)"
  using f32_of_int_exact [of "int n"] by (simp add: f32_of_int_def)

lemma add_len_exact: "n + length s < 2 ^ 24 \<Longrightarrow> add_len s (Fin (of_nat n)) = Fin (of_nat (n + length s))"
  using f32_of_nat [of "length s"] f32_of_nat [of "n + length s"]
  by (simp add: add_len_def f32_of_int_def int_of_size_id)

lemma total_weight1_exact:
  "n + weight bl lst < 2 ^ 24 \<Longrightarrow> fold (\<lambda>bn w. add_len (path_text bl bn) w) lst (Fin (of_nat n)) = Fin (of_nat (n + weight bl lst))"
proof (induction lst arbitrary: n)
  case (Cons bn lst)
  then have "add_len (path_text bl bn) (Fin (of_nat n)) = Fin (of_nat (n + length (path_text bl bn)))"
    by (intro add_len_exact) (simp add: weight_def)
  then show ?case using Cons.IH [of "n + length (path_text bl bn)"] Cons.prems by (simp add: weight_def add.assoc)
qed (simp add: weight_def)

lemma total_weight2_split:
  "fold (\<lambda>bn (w, w1). (add_len (path_text bl1 bn) w, add_len (path_text bl2 bn) w1)) lst (x, y) =
     (fold (\<lambda>bn w. add_len (path_text bl1 bn) w) lst x, fold (\<lambda>bn w. add_len (path_text bl2 bn) w) lst y)"
  by (induction lst arbitrary: x y) simp_all

lemma weight_distinct:
  "distinct (map node_path lst) \<Longrightarrow>
     weight bl lst = (\<Sum>p \<in> set (map node_path lst). length (string_filter (GetPathText bl p)))"
proof -
  assume "distinct (map node_path lst)"
  then have "(\<Sum>p \<in> set (map node_path lst). length (string_filter (GetPathText bl p))) =
      sum_list (map (\<lambda>p. length (string_filter (GetPathText bl p))) (map node_path lst))"
    by (simp only: sum_list_distinct_conv_sum_set)
  then show ?thesis by (simp add: weight_def path_text_def comp_def)
qed

lemma weight_common:
  assumes "distinct (map node_path l1)" and "distinct (map node_path l2)"
  shows "weight bl (find_common2 l1 l2) \<le> weight bl l1" "weight bl (find_common2 l1 l2) \<le> weight bl l2"
  using find_common2_paths [of l1 l2] assms
  by (simp_all only: weight_distinct) (intro sum_mono2; simp)+

lemma compare_structure_weights:
  fixes b1 b2 :: block_list
  defines "l1 \<equiv> structure_nodes b1" and "l2 \<equiv> structure_nodes b2"
  assumes "weight b1 l1 + weight b2 l2 < 2 ^ 24"
  shows "compare_structure b1 b2 =
      fdiv f32 (Fin (of_nat (weight b1 (find_common2 l1 l2) + weight b2 (find_common2 l1 l2))))
        (Fin (of_nat (weight b1 l1 + weight b2 l2)))"
    and "weight b1 (find_common2 l1 l2) + weight b2 (find_common2 l1 l2) \<le> weight b1 l1 + weight b2 l2"
proof -
  let ?c = "find_common2 l1 l2"
  have d: "distinct (map node_path l1)" "distinct (map node_path l2)"
    unfolding l1_def l2_def structure_nodes_def by (rule uniq_distinct)+
  note c = weight_common(1) [OF d, of b1] weight_common(2) [OF d, of b2]
  then show le: "weight b1 ?c + weight b2 ?c \<le> weight b1 l1 + weight b2 l2" by simp
  have t: "total_weight1 l1 b1 = Fin (of_nat (weight b1 l1))" "total_weight1 l2 b2 = Fin (of_nat (weight b2 l2))"
    using total_weight1_exact [of 0 b1 l1] total_weight1_exact [of 0 b2 l2] assms(3)
    by (simp_all add: total_weight1_def)
  have "total_weight2 ?c b1 b2 = f32 (of_nat (weight b1 ?c + weight b2 ?c))"
    using total_weight1_exact [of 0 b1 ?c] total_weight1_exact [of 0 b2 ?c] c assms(3)
    by (simp add: total_weight2_def total_weight2_split)
  also have "\<dots> = Fin (of_nat (weight b1 ?c + weight b2 ?c))"
    using le assms(3) by (intro f32_of_nat) linarith
  finally have w0: "total_weight2 ?c b1 b2 = Fin (of_nat (weight b1 ?c + weight b2 ?c))" .
  have "fadd f32 (Fin (of_nat (weight b1 l1))) (Fin (of_nat (weight b2 l2))) = Fin (of_nat (weight b1 l1 + weight b2 l2))"
    using f32_of_nat [OF assms(3)] by simp
  then show "compare_structure b1 b2 =
      fdiv f32 (Fin (of_nat (weight b1 ?c + weight b2 ?c))) (Fin (of_nat (weight b1 l1 + weight b2 l2)))"
    by (simp only: compare_structure_def Let_def t w0 flip: l1_def l2_def)
qed

text \<open>C16.  The structural similarity of two pages with less than 16 MB of usable text is a number between 0
  and 1, unless neither has any: then it is the quotient 0/0, NaN.\<close>

theorem compare_structure_unit:
  assumes "weight b1 (structure_nodes b1) + weight b2 (structure_nodes b2) < 2 ^ 24"
  shows "if weight b1 (structure_nodes b1) + weight b2 (structure_nodes b2) = 0
     then compare_structure b1 b2 = NaN else in_unit (compare_structure b1 b2)"
proof -
  define c where "c = weight b1 (find_common2 (structure_nodes b1) (structure_nodes b2)) +
      weight b2 (find_common2 (structure_nodes b1) (structure_nodes b2))"
  define w where "w = weight b1 (structure_nodes b1) + weight b2 (structure_nodes b2)"
  have eq: "compare_structure b1 b2 = fdiv f32 (Fin (of_nat c)) (Fin (of_nat w))" and le: "c \<le> w"
    unfolding c_def w_def using compare_structure_weights [OF assms] by blast+
  show ?thesis
  proof (cases "w = 0")
    case True
    then have "compare_structure b1 b2 = NaN" using eq le by simp
    then show ?thesis using True by (simp flip: w_def)
  next
    case False
    then obtain r where "fdiv f32 (Fin (of_nat c)) (Fin (of_nat w)) = Fin r" "0 \<le> r" "r \<le> 1"
      using fdiv_ratio [of "of_nat c" "of_nat w"] le by auto
    then have "in_unit (compare_structure b1 b2)" by (simp only: eq in_unit_Fin)
    then show ?thesis using False by (simp flip: w_def)
  qed
qed

lemma weight_sample: "weight sample_list (structure_nodes sample_list) + weight sample_list (structure_nodes sample_list) < 2 ^ 24"
proof -
  have "length (string_filter s) \<le> length s" for s by (rule length_string_filter)
  then have "length (path_text sample_list bn) \<le> 4" for bn
    unfolding path_text_def
    by (rule order_trans) (simp add: GetPathText_def sample_list_def new_BlockList_def new_BlockNode_def)
  moreover have "structure_nodes sample_list = [] \<or> (\<exists>bn. structure_nodes sample_list = [bn])"
    by (simp add: structure_nodes_def filter_nodes_def sample_list_def new_BlockList_def)
  ultimately have "weight sample_list (structure_nodes sample_list) \<le> 4" by (auto simp: weight_def)
  then show ?thesis by simp
qed

lemma compare_structure_unit_witness:
  "if weight sample_list (structure_nodes sample_list) + weight sample_list (structure_nodes sample_list) = 0
   then compare_structure sample_list sample_list = NaN
   else in_unit (compare_structure sample_list sample_list)"
  by (rule compare_structure_unit) (rule weight_sample)

lemma common_loop_self:
  "distinct (map node_path l) \<Longrightarrow> i \<le> length l \<Longrightarrow> common_loop False (drop i l) l j i = drop i l"
proof (induction "length l - i" arbitrary: i j)
  case (Suc n)
  then have i: "i < length l" by simp
  have "find (\<lambda>m. same_node (l ! i) (l ! m)) [a..<length l] = Some i" if "a \<le> i" for a
  proof -
    have "[a..<length l] = [a..<i] @ i # [Suc i..<length l]"
      using that i upt_add_eq_append [of a i "length l - i"] by (simp add: upt_conv_Cons)
    moreover have "find (\<lambda>m. same_node (l ! i) (l ! m)) [a..<i] = None"
      using Suc.prems(1) i by (auto simp: find_None_iff same_node_def distinct_conv_nth)
    moreover have "find P (xs @ y # ys) = Some y" if "find P xs = None" "P y" for P and xs ys :: "nat list" and y
      using that by (induction xs) (auto split: if_splits)
    ultimately show ?thesis by (simp add: same_node_def)
  qed
  moreover have "drop i l = l ! i # drop (Suc i) l" using i by (simp add: Cons_nth_drop_Suc)
  moreover have "common_loop False (drop (Suc i) l) l i (Suc i) = drop (Suc i) l"
    using Suc.hyps(2) i Suc.prems(1) by (intro Suc.hyps(1)) simp_all
  moreover have "resume (length l) j i = i" "rewind i \<le> i" using i by (simp_all add: resume_def rewind_def)
  ultimately show ?case by simp
qed simp

text \<open>A page compared with itself scores 1 when it has usable text, and NaN when it has none.\<close>

theorem compare_structure_self:
  assumes "weight b (structure_nodes b) + weight b (structure_nodes b) < 2 ^ 24"
  shows "compare_structure b b = (if weight b (structure_nodes b) = 0 then NaN else Fin 1)"
proof -
  have "find_common2 (structure_nodes b) (structure_nodes b) = structure_nodes b"
    using common_loop_self [of "structure_nodes b" 0 0] uniq_distinct
    by (simp add: find_common2_def structure_nodes_def)
  then show ?thesis using compare_structure_weights(1) [OF assms] by simp
qed

lemma compare_structure_self_witness:
  "compare_structure sample_list sample_list =
     (if weight sample_list (structure_nodes sample_list) = 0 then NaN else Fin 1)"
  by (rule compare_structure_self) (rule weight_sample)

section \<open>\<open>split\<close>\<close>

lemma find_first_split:
  assumes "find_first sep s = Some i" and "sep \<noteq> []"
  shows "s = take i s @ sep @ drop (i + length sep) s" "\<not> contains sep (take i s)"
    "i + length sep \<le> length s"
proof -
  have i: "i \<le> length s" "prefix sep (drop i s)" "\<forall>j < i. \<not> prefix sep (drop j s)"
    using find_first_SomeD [OF assms(1)] by auto
  then obtain z where z: "drop i s = sep @ z" by (auto simp: prefix_def)
  have "length (drop i s) = length sep + length z" by (simp only: z length_append)
  then show "i + length sep \<le> length s" using i(1) by simp
  have "drop (length sep) (drop i s) = z" using z by simp
  then have "drop (i + length sep) s = z" by (simp add: add.commute)
  then show s: "s = take i s @ sep @ drop (i + length sep) s" using z by (metis append_take_drop_id)
  show "\<not> contains sep (take i s)"
  proof
    assume "contains sep (take i s)"
    then obtain u v where uv: "take i s = u @ sep @ v" by (auto simp: contains_iff)
    have "length (take i s) = length u + length sep + length v" by (simp add: uv)
    then have "length u < i" using assms(2) i(1) by (cases sep) auto
    moreover have "s = u @ sep @ v @ sep @ z" using s uv z \<open>drop (i + length sep) s = z\<close> by (metis append.assoc)
    then have "prefix sep (drop (length u) s)" by simp
    ultimately show False using i(3) by blast
  qed
qed

lemma split_loop_pieces:
  assumes "sep \<noteq> []" and "sp \<le> length str"
  shows "\<exists>ps rest. drop sp str = concat (map (\<lambda>p. p @ sep) ps) @ rest \<and> \<not> contains sep rest \<and>
     list_all (\<lambda>p. \<not> contains sep p) ps \<and> split_loop str sep sp (find_from sep str sp) col = Some (col @ ps) \<and>
     (ps = [] \<longleftrightarrow> find_from sep str sp = None)"
  using assms(2)
proof (induction "length str - sp" arbitrary: sp col rule: less_induct)
  case less
  show ?case
  proof (cases "find_first sep (drop sp str)")
    case None
    then have "find_from sep str sp = None" using less.prems by (simp add: find_from_def)
    moreover have "\<not> contains sep (drop sp str)" using None by (simp add: contains_def)
    ultimately show ?thesis
      by (intro exI [of _ "[]"] exI [of _ "drop sp str"]) (simp add: split_loop.simps)
  next
    case (Some i)
    let ?p = "take i (drop sp str)" and ?sp = "sp + i + length sep"
    note f = find_first_split [OF Some assms(1)]
    have ep: "find_from sep str sp = Some (sp + i)" using Some less.prems by (simp add: find_from_def)
    have le: "?sp \<le> length str" using f(3) less.prems by simp
    have "length str - ?sp < length str - sp" using le assms(1) by (cases sep) auto
    from less.hyps [OF this le, of "col @ [?p]"] obtain ps rest where ps:
        "drop ?sp str = concat (map (\<lambda>p. p @ sep) ps) @ rest" "\<not> contains sep rest"
        "list_all (\<lambda>p. \<not> contains sep p) ps"
        "split_loop str sep ?sp (find_from sep str ?sp) (col @ [?p]) = Some ((col @ [?p]) @ ps)"
      by blast
    have d: "drop (i + length sep) (drop sp str) = drop ?sp str" by (simp add: add.commute add.left_commute)
    have "drop sp str = ?p @ sep @ drop ?sp str" using f(1) unfolding d .
    then have "drop sp str = concat (map (\<lambda>p. p @ sep) (?p # ps)) @ rest" unfolding ps(1) by simp
    moreover have "split_loop str sep sp (find_from sep str sp) col = Some (col @ ?p # ps)"
      using ps(4) by (simp add: split_loop.simps [of str sep sp] ep)
    ultimately show ?thesis
      using ps(2,3) f(2) ep by (intro exI [of _ "?p # ps"] exI [of _ rest]) simp
  qed
qed

text \<open>With a non-empty separator \<open>split\<close> ends; the string is cut at the separators into pieces that do
  not contain it, and what follows the last separator is left out of the set (a string without
  any separator goes in whole).\<close>

theorem split_drops_last:
  assumes "sep \<noteq> []"
  shows "\<exists>ps rest. str = concat (map (\<lambda>p. p @ sep) ps) @ rest \<and> \<not> contains sep rest \<and>
     list_all (\<lambda>p. \<not> contains sep p) ps \<and>
     split_set str sep collection = Some (collection \<union> (if ps = [] then {str} else set ps))"
proof -
  obtain ps rest where p: "drop 0 str = concat (map (\<lambda>p. p @ sep) ps) @ rest" "\<not> contains sep rest"
      "list_all (\<lambda>p. \<not> contains sep p) ps" "split_loop str sep 0 (find_from sep str 0) [] = Some ([] @ ps)"
      "ps = [] \<longleftrightarrow> find_from sep str 0 = None"
    using split_loop_pieces [OF assms le0, of str "[]"] by (elim exE conjE) (rule that; assumption)
  have "split_set str sep collection = Some (collection \<union> (if ps = [] then {str} else set ps))"
    using p(5) by (auto simp: split_set_def Let_def p(4))
  then show ?thesis using p(1-3) unfolding drop_0 by blast
qed

lemma split_drops_last_witness:
  "\<exists>ps rest. ''a,b,c'' = concat (map (\<lambda>p. p @ '','') ps) @ rest \<and> \<not> contains '','' rest \<and>
     list_all (\<lambda>p. \<not> contains '','' p) ps \<and>
     split_set ''a,b,c'' '','' {} = Some ({} \<union> (if ps = [] then {''a,b,c''} else set ps))"
  by (rule split_drops_last) simp

section \<open>\<open>escape\<close>\<close>

text \<open>What the crawler escapes, as the server's \<open>url_decode\<close> sees it, is in the root theory.\<close>

lemma show_hex_two: "16 \<le> n \<Longrightarrow> n < 256 \<Longrightarrow> show_hex n = [hex_digit (n div 16), hex_digit (n mod 16)]"
  by (simp add: show_hex.simps [of n] show_hex.simps [of "n div 16"])

lemma show_hex_one: "n < 16 \<Longrightarrow> show_hex n = [hex_digit n]"
  by (simp add: show_hex.simps)

end
