(* ===== verification/BlockCluster.thy ===== *)
theory BlockCluster
  imports BlockUtils
begin

text \<open>
  \<open>DisCrawler/DOMAttUtil/BlockCluster.cpp\<close>: a cluster of pages of one layout.  Pages are inserted while
  there is room; the nodes the pages have in common are weighed against each other to find the
  main section, the advertisements and the title, which are stored as wrapper rules; the rules
  extract the parts of a page, and a cluster is written to a stream and read back.
\<close>

section \<open>The cluster\<close>

definition CONTENT_BLOCK :: int where "CONTENT_BLOCK = 1"
definition INVALID_BLOCK :: int where "INVALID_BLOCK = 0"
definition BLOCK_NUMBER_IN_A_CLUSTER :: nat where "BLOCK_NUMBER_IN_A_CLUSTER = 10"
definition AVERAGE_TITLE_LENGTH :: int where "AVERAGE_TITLE_LENGTH = 54"
definition SIMILAR_THRESHOLD :: flt where "SIMILAR_THRESHOLD = f64 (97 / 100)"
definition SIMILAR_NODE_THRESHOLD :: flt where "SIMILAR_NODE_THRESHOLD = f64 (6 / 10)"

abbreviation RULE_TITLE :: bytes where "RULE_TITLE \<equiv> ''title''"
abbreviation RULE_MAIN_NODE :: bytes where "RULE_MAIN_NODE \<equiv> ''mn''"
abbreviation RULE_AD_NODE :: bytes where "RULE_AD_NODE \<equiv> ''ad''"

text \<open>\<open>RULE_LINE_SEPARATOR\<close> is a backslash and an \<open>n\<close>, not a line feed.\<close>

definition line_sep :: bytes where
  "line_sep = [CHR 0x5C, CHR ''n'']"

text \<open>\<open>all_ad_node\<close> is a set that is iterated in order: a map to \<open>unit\<close>.\<close>

record block_cluster =
  is_important :: bool
  is_need_train :: bool
  important :: int
  cluster_type :: int
  cluster_name :: int
  main_section_path :: bytes
  pages :: "block_list list"
  common_node_path :: "bytes list"
  wrap_rule :: "(bytes, bytes) cmap"
  main_node :: "block_node list"
  all_valid_node :: "(bytes, int) cmap"
  all_ad_node :: "(bytes, unit) cmap"
  content_acl :: acldb
  title_acl :: acldb
  links_acl :: acldb
  file_acl :: acldb

definition new_BlockCluster_name :: "int \<Rightarrow> block_cluster" where
  "new_BlockCluster_name t =
     \<lparr>is_important = False, is_need_train = False, important = 0, cluster_type = INVALID_BLOCK,
      cluster_name = t, main_section_path = [], pages = [], common_node_path = [], wrap_rule = [],
      main_node = [], all_valid_node = [], all_ad_node = [],
      content_acl = add_allow ''A'' (add_deny ''TITLE'' (add_deny ''STYLE'' (add_deny ''SCRIPT'' new_ACLDB))),
      title_acl = add_deny ''SCRIPT'' (add_deny ''SPAN'' new_ACLDB),
      links_acl = add_allow ''EM'' (add_allow ''A'' (new_ACLDB_def False)),
      file_acl = add_allow ''shtml'' (add_allow ''jsp'' (add_allow ''htm'' (add_allow ''html'' (new_ACLDB_def False))))\<rparr>"

definition new_BlockCluster :: block_cluster where
  "new_BlockCluster = new_BlockCluster_name 0"

section \<open>Inserting pages\<close>

text \<open>One node of the statistics: allowed nodes with text are counted by path; a page
  has fewer than \<open>2 ^ 31\<close> nodes, so that the \<open>int\<close> of the code does not overflow.\<close>

definition counts :: "acldb \<Rightarrow> block_node \<Rightarrow> bool" where
  "counts acl bn \<longleftrightarrow> allowed acl (node_name bn) \<and> 0 < get_weight bn"

definition count_node :: "acldb \<Rightarrow> block_node \<Rightarrow> (bytes, int) cmap \<Rightarrow> (bytes, int) cmap" where
  "count_node acl bn m =
     (if counts acl bn
      then let count = (case cmap_find m (node_path bn) of Some n \<Rightarrow> n | None \<Rightarrow> 0)
           in cmap_set (node_path bn) (count + 1) m
      else m)"

definition insert_page :: "block_list \<Rightarrow> block_cluster \<Rightarrow> int \<times> block_cluster" where
  "insert_page node c =
     (let max_block_num = (if cluster_type c \<noteq> CONTENT_BLOCK then 2 else BLOCK_NUMBER_IN_A_CLUSTER)
      in if max_block_num \<le> length (pages c) then (int max_block_num, c)
         else if \<exists>bl \<in> set (pages c). url node = url bl then (int_of_size (length (pages c)), c)
         else
           let c = c\<lparr>pages := node # pages c, is_need_train := True,
                     all_valid_node := fold (count_node (content_acl c)) (blocks node) (all_valid_node c)\<rparr>
           in (int_of_size (length (pages c)), c))"

definition statistic_node_occ :: "block_cluster \<Rightarrow> block_cluster" where
  "statistic_node_occ c =
     c\<lparr>all_valid_node :=
        fold (\<lambda>bl m. fold (count_node (content_acl c)) (blocks bl) m) (pages c) (all_valid_node c)\<rparr>"

definition training_completed :: "block_cluster \<Rightarrow> block_cluster" where
  "training_completed c = c\<lparr>is_need_train := False\<rparr>"

definition SetType :: "int \<Rightarrow> block_cluster \<Rightarrow> block_cluster" where
  "SetType t c = c\<lparr>cluster_type := t\<rparr>"

definition SetClusterName :: "int \<Rightarrow> block_cluster \<Rightarrow> block_cluster" where
  "SetClusterName n c = c\<lparr>cluster_name := n\<rparr>"

definition SetImportant :: "int \<Rightarrow> block_cluster \<Rightarrow> block_cluster" where
  "SetImportant i c = c\<lparr>important := i\<rparr>"

definition SetIsImportant :: "bool \<Rightarrow> block_cluster \<Rightarrow> block_cluster" where
  "SetIsImportant b c = c\<lparr>is_important := b\<rparr>"

definition GetBlockSize :: "block_cluster \<Rightarrow> int" where
  "GetBlockSize c = int_of_size (length (pages c))"

definition less_cluster :: "block_cluster \<Rightarrow> block_cluster \<Rightarrow> bool" where
  "less_cluster a b \<longleftrightarrow> important a < important b"

section \<open>Similarity, size, density\<close>

fun similar_loop :: "block_list list \<Rightarrow> block_list \<Rightarrow> nat \<Rightarrow> flt \<Rightarrow> flt" where
  "similar_loop [] node num total_sim = fdiv f32 total_sim (f32_of_int (int num))"
| "similar_loop (bn # it) node num total_sim =
     (let sim = compare_structure bn node
      in if flt_less sim SIMILAR_THRESHOLD then sim
         else similar_loop it node (num + 1) (fadd f32 total_sim sim))"

definition IsSimilar :: "block_cluster \<Rightarrow> block_list \<Rightarrow> flt" where
  "IsSimilar c node = similar_loop (pages c) node 0 (Fin 0)"

fun best_loop :: "block_list list \<Rightarrow> block_list \<Rightarrow> int \<Rightarrow> block_list" where
  "best_loop [] it mx = it"
| "best_loop (it1 # rest) it mx =
     (if mx < blocks_size it1 then best_loop rest it1 (blocks_size it1) else best_loop rest it mx)"

definition GetBestBlockList :: "block_cluster \<Rightarrow> block_list res" where
  "GetBestBlockList c =
     (case pages c of
        [] \<Rightarrow> Inl BadIterator
      | b # bs \<Rightarrow> Inr (if length (pages c) < 2 then b else best_loop (pages c) b 0))"

definition sim_clusters :: "block_cluster \<Rightarrow> block_cluster \<Rightarrow> flt res" where
  "sim_clusters bc1 bc2 =
     bindE (GetBestBlockList bc1) (\<lambda>bl1. bindE (GetBestBlockList bc2) (\<lambda>bl2.
       Inr (compare_structure bl1 bl2)))"

definition ad_paths :: "block_cluster \<Rightarrow> bytes set" where
  "ad_paths c = set (map fst (all_ad_node c))"

definition cluster_density :: "block_cluster \<Rightarrow> flt" where
  "cluster_density c =
     (let (den, n) = fold (\<lambda>bl (den, n).
            let d = anchor_density_ad (ad_paths c) bl
            in if flt_le (Fin 0) d then (fadd f32 den d, n + 1) else (den, n)) (pages c) (Fin 0, 0 :: nat)
      in if 0 < n then fdiv f32 den (f32_of_int (int n)) else Fin (- 1))"

text \<open>\<open>total_len / n\<close> divides an \<open>int\<close> by zero when the cluster is empty.\<close>

definition int_div :: "int \<Rightarrow> int \<Rightarrow> int res" where
  "int_div a b = (if b = 0 then Inl DivByZero else Inr (sgn a * sgn b * (\<bar>a\<bar> div \<bar>b\<bar>)))"

definition avrg_text_length :: "block_cluster \<Rightarrow> (flt \<times> block_cluster) res" where
  "avrg_text_length c =
     (let n = int (length (pages c));
          total_len = fold (\<lambda>bl t. wrap_int (t + int (length (string_filter (GetText_ad (ad_paths c) bl))))) (pages c) 0
      in bindE (int_div total_len n) (\<lambda>i.
           Inr (fdiv f32 (f32_of_int total_len) (f32_of_int n), c\<lparr>important := i\<rparr>)))"

section \<open>Rules\<close>

definition SetRule :: "bytes \<Rightarrow> bytes \<Rightarrow> block_cluster \<Rightarrow> block_cluster" where
  "SetRule k v c = c\<lparr>wrap_rule := cmap_replace k v (wrap_rule c)\<rparr>"

definition GetRuleString :: "block_cluster \<Rightarrow> bytes" where
  "GetRuleString c = concat (map (\<lambda>(k, v). k @ ''->'' @ v @ [NL]) (wrap_rule c))"

definition rule_or_empty :: "block_cluster \<Rightarrow> bytes list \<Rightarrow> bytes" where
  "rule_or_empty c ks = (case List.map_filter (cmap_find (wrap_rule c)) ks of p # _ \<Rightarrow> p | [] \<Rightarrow> [])"

definition GetTitlePath :: "block_cluster \<Rightarrow> bytes" where
  "GetTitlePath c = rule_or_empty c [''title'']"

definition GetDatePath :: "block_cluster \<Rightarrow> bytes" where
  "GetDatePath c = rule_or_empty c [''date'']"

definition GetAuthorPath :: "block_cluster \<Rightarrow> bytes" where
  "GetAuthorPath c = rule_or_empty c [''a&s'', ''author'']"

definition GetSourcePath :: "block_cluster \<Rightarrow> bytes" where
  "GetSourcePath c = rule_or_empty c [''a&s'', ''source'']"

section \<open>Analysis\<close>

definition common_of :: "block_list list \<Rightarrow> block_node list res" where
  "common_of bls =
     (case bls of
        [] \<Rightarrow> Inl BadIterator
      | bl # rest \<Rightarrow> Inr (fold (\<lambda>bl common. find_common2 common (blocks bl)) rest (blocks bl)))"

text \<open>\<open>find\<close>, \<open>erase\<close> the first occurrence, \<open>push_back\<close>.\<close>

definition move_back :: "bytes \<Rightarrow> bytes list \<Rightarrow> bytes list" where
  "move_back p ps = remove1 p ps @ [p]"

definition analyze_common :: "block_cluster \<Rightarrow> block_cluster res" where
  "analyze_common c =
     bindE (common_of (pages c)) (\<lambda>common.
       Inr (c\<lparr>common_node_path := fold (\<lambda>bn. move_back (node_path bn)) common (common_node_path c)\<rparr>))"

definition ClusterGetPathText :: "block_cluster \<Rightarrow> bytes \<Rightarrow> bytes" where
  "ClusterGetPathText c path = concat (map (\<lambda>bl. GetPathText bl path) (pages c))"

definition ClusterGetPathCount :: "block_cluster \<Rightarrow> bytes \<Rightarrow> flt" where
  "ClusterGetPathCount c path =
     fdiv f32 (fold (\<lambda>bl count. fadd f32 count (f32_of_int (int (GetPathCount bl path)))) (pages c) (Fin 0))
       (f32_of_int (int (length (pages c))))"

text \<open>The weight of a candidate title: how much of it the main text repeats, times a bell around the
  average title length.\<close>

definition title_step :: "bytes \<Rightarrow> bytes \<Rightarrow> block_list \<Rightarrow> flt \<times> flt \<Rightarrow> (flt \<times> flt) res" where
  "title_step path main_path bl s =
     (let (w, avg_w) = s;
          text = string_filter (GetPathText bl path);
          main_text = string_filter (GetPathText bl main_path);
          len = f32_of_int (int (length text))
      in bindE (same_score text main_text) (\<lambda>same.
           Inr (if 0 < length text then fadd f32 w (fdiv f32 same len) else w, fadd f32 avg_w len)))"

definition title_weight :: "block_cluster \<Rightarrow> bytes \<Rightarrow> flt res" where
  "title_weight c path =
     bindE (foldE (title_step path (main_section_path c)) (pages c) (Fin 0, Fin 0)) (\<lambda>(w, avg_w).
       let n = f32_of_int (int_of_size (length (pages c)));
           l = f32_of_int AVERAGE_TITLE_LENGTH;
           a = fdiv f32 (f32_of_int (- 1)) l;
           avg_w = fsub f32 (fdiv f32 avg_w n) l;
           avg_w = fadd f32 (fmul f32 (fmul f32 a avg_w) avg_w) l;
           w = fdiv f32 w n
       in Inr (fmul f32 w avg_w))"

fun title_loop :: "block_node list \<Rightarrow> flt \<Rightarrow> block_cluster \<Rightarrow> block_cluster res" where
  "title_loop [] max_w c = Inr c"
| "title_loop (bn # it) max_w c =
     (let path = node_path bn
      in if \<not> allowed (title_acl c) (node_name bn) then title_loop it max_w c
         else if path = main_section_path c then Inr c
         else if flt_less (Fin 1) (ClusterGetPathCount c path) then title_loop it max_w c
         else
           bindE (title_weight c path) (\<lambda>w.
             if flt_less max_w w then title_loop it w (SetRule RULE_TITLE path c)
             else title_loop it max_w c))"

definition analyze_title :: "block_cluster \<Rightarrow> block_cluster res" where
  "analyze_title c =
     (if main_node c = [] then
        Inr (if cluster_type c = CONTENT_BLOCK then SetType INVALID_BLOCK c else c)
      else title_loop (main_node c) (Fin 0) c)"

text \<open>The loops over the pairs of pages: \<open>(score, w, c, n)\<close>.\<close>

definition pair_step :: "bytes \<Rightarrow> bytes \<Rightarrow> block_list \<Rightarrow> flt \<times> nat \<Rightarrow> (flt \<times> nat) res" where
  "pair_step path s1 bl2 s =
     (let (score, n) = s; s2 = string_filter (GetPathText bl2 path)
      in bindE (sim_score s1 s2) (\<lambda>v. Inr (fadd f32 score v, n + 1)))"

fun section_pairs :: "bytes \<Rightarrow> block_list list \<Rightarrow> flt \<times> int \<times> nat \<times> nat \<Rightarrow> (flt \<times> int \<times> nat \<times> nat) res" where
  "section_pairs path [] s = Inr s"
| "section_pairs path (bl # rest) (score, w, c, n) =
     (let s1 = string_filter (GetPathText bl path)
      in bindE (foldE (pair_step path s1) rest (score, n)) (\<lambda>(score', n').
           section_pairs path rest (score', wrap_int (w + int (length s1)), c + 1, n')))"

record section_state =
  max_weight :: int
  section_path :: bytes
  section_nodes :: "block_node list"
  section_ads :: "(bytes, unit) cmap"

definition classify :: "block_list \<Rightarrow> bytes \<Rightarrow> block_node \<Rightarrow> flt \<Rightarrow> int \<Rightarrow> section_state \<Rightarrow> section_state" where
  "classify first path bn score w s =
     (if flt_less score SIMILAR_NODE_THRESHOLD \<and> 5 < w then
        let is_single = GetPathCount first path \<le> 1;
            s = (if \<not> is_anchor_mark bn \<or> is_anchor_mark bn \<and> is_single
                 then s\<lparr>section_nodes := section_nodes s @ [bn]\<rparr>
                 else s\<lparr>section_ads := cmap_insert path () (section_ads s)\<rparr>)
        in if max_weight s < w then s\<lparr>max_weight := w, section_path := path\<rparr> else s
      else if 0 < w then s\<lparr>section_ads := cmap_insert path () (section_ads s)\<rparr> else s)"

text \<open>The flag tells that the function returned from the loop (fewer than two pages).\<close>

fun section_loop :: "acldb \<Rightarrow> block_list list \<Rightarrow> bytes list \<Rightarrow> section_state \<Rightarrow> (bool \<times> section_state) res" where
  "section_loop acl bls [] s = Inr (False, s)"
| "section_loop acl bls (path # comm) s =
     (case bls of
        [] \<Rightarrow> Inl BadIterator
      | first # _ \<Rightarrow>
          (let bn = GetPathNode first path
           in if \<not> allowed acl (node_name bn) then section_loop acl bls comm s
              else
                bindE (section_pairs path bls (Fin 0, 0, 0, 0)) (\<lambda>(score, w, c, n).
                  if n \<noteq> 0 then
                    bindE (int_div w (int c)) (\<lambda>w.
                      section_loop acl bls comm (classify first path bn (fdiv f32 score (f32_of_int (int n))) w s))
                  else Inr (True, s))))"

definition join_paths :: "bytes list \<Rightarrow> bytes" where
  "join_paths ps = concat (map (\<lambda>p. p @ line_sep) ps)"

definition analyze_main_section :: "block_cluster \<Rightarrow> block_cluster res" where
  "analyze_main_section c =
     bindE (if common_node_path c = [] then analyze_common c else Inr c) (\<lambda>c.
     bindE (section_loop (content_acl c) (pages c) (common_node_path c)
              \<lparr>max_weight = 0, section_path = main_section_path c, section_nodes = [], section_ads = all_ad_node c\<rparr>)
       (\<lambda>(returned, s).
          let c = c\<lparr>main_section_path := section_path s, main_node := section_nodes s, all_ad_node := section_ads s\<rparr>
          in Inr (if returned then c
                  else SetRule RULE_AD_NODE (join_paths (map fst (all_ad_node c)))
                         (SetRule RULE_MAIN_NODE (join_paths (map node_path (main_node c))) c))))"

definition is_author_node :: "bytes \<Rightarrow> bool" where
  "is_author_node text \<longleftrightarrow> has_word_author text \<and> length (string_filter text) < 100"

definition is_source_node :: "bytes \<Rightarrow> bool" where
  "is_source_node text \<longleftrightarrow> has_word_source text \<and> length (string_filter text) < 100"

section \<open>Extraction\<close>

text \<open>\<open>wrap_rule[RULE_MAIN_NODE]\<close> makes an empty rule when there is none.\<close>

definition is_main_node :: "bytes \<Rightarrow> block_cluster \<Rightarrow> bool \<times> block_cluster" where
  "is_main_node path c =
     (let c = c\<lparr>wrap_rule := cmap_insert RULE_MAIN_NODE [] (wrap_rule c)\<rparr>;
          main = (case cmap_find (wrap_rule c) RULE_MAIN_NODE of Some v \<Rightarrow> v | None \<Rightarrow> [])
      in (contains (path @ line_sep) main, c))"

definition wrap_title :: "block_cluster \<Rightarrow> block_list \<Rightarrow> bytes" where
  "wrap_title c bl = (let path = GetTitlePath c in if 0 < length path then GetPathText bl path else [])"

definition wrap_content :: "block_list \<Rightarrow> block_cluster \<Rightarrow> bytes \<times> block_cluster" where
  "wrap_content bl c =
     fold (\<lambda>bn (cont, c). let (b, c) = is_main_node (node_path bn) c
                          in (if b then cont @ node_text bn else cont, c)) (blocks bl) ([], c)"

section \<open>Serialization\<close>

definition ser_rule :: "bytes \<times> bytes \<Rightarrow> sstream \<Rightarrow> (bytes \<times> bytes) \<times> sstream" where
  "ser_rule r ss = (r, put_line (snd r) (put_line (fst r) ss))"

definition deser_rule :: "sstream \<Rightarrow> (bytes \<times> bytes) \<times> sstream" where
  "deser_rule ss = (let (a, ss) = get_line ss; (b, ss) = get_line ss in ((a, b), ss))"

definition cluster_serialize :: "block_cluster \<Rightarrow> sstream \<Rightarrow> block_cluster \<times> sstream" where
  "cluster_serialize c ss =
     (let ss = put_line (show_bool (is_important c)) ss;
          ss = put_line (show_int (important c)) ss;
          ss = put_line (show_int (cluster_type c)) ss;
          ss = put_line (show_int (cluster_name c)) ss;
          ss = put_line (main_section_path c) ss;
          size = int_of_size (length (pages c));
          size = (if 5 < size then 5 else size);
          ss = put_line (show_int size) ss;
          (bls, ss) = ser_all list_serialize (take (nat size) (pages c)) ss;
          ss = put_line (show_int (int_of_size (length (wrap_rule c)))) ss;
          (rules, ss) = ser_all ser_rule (wrap_rule c) ss;
          ss = put_line (show_int (int_of_size (length (main_node c)))) ss;
          (nodes, ss) = ser_all node_serialize (main_node c) ss
      in (c\<lparr>pages := bls @ drop (nat size) (pages c), main_node := nodes\<rparr>, ss))"

definition cluster_deserialize :: "block_cluster \<Rightarrow> sstream \<Rightarrow> block_cluster \<times> sstream" where
  "cluster_deserialize c ss =
     (let (i, ss) = get_integer ss;
          (imp, ss) = get_integer ss;
          (t, ss) = get_integer ss;
          (n, ss) = get_integer ss;
          (p, ss) = get_line ss;
          (size, ss) = get_integer ss;
          (bls, ss) = deser_n (list_deserialize new_BlockList) (nat size) ss;
          (size, ss) = get_integer ss;
          (rules, ss) = deser_n deser_rule (nat size) ss;
          (size, ss) = get_integer ss;
          (nodes, ss) = deser_n node_deserialize (nat size) ss
      in (c\<lparr>is_important := i \<noteq> 0, important := imp, cluster_type := t, cluster_name := n,
            main_section_path := p, pages := pages c @ bls,
            wrap_rule := fold (\<lambda>(k, v). cmap_insert k v) rules (wrap_rule c),
            main_node := main_node c @ nodes\<rparr>, ss))"

section \<open>What insertion keeps\<close>

definition occurrences :: "acldb \<Rightarrow> block_list list \<Rightarrow> bytes \<Rightarrow> nat" where
  "occurrences acl bls p = length (filter (\<lambda>bn. counts acl bn \<and> node_path bn = p) (concat (map blocks bls)))"

definition counted :: "(bytes, int) cmap \<Rightarrow> (bytes \<Rightarrow> nat) \<Rightarrow> bool" where
  "counted m N \<longleftrightarrow> cmap_ok m \<and> (\<forall>p. cmap_find m p = (if N p = 0 then None else Some (int (N p))))"

lemma count_node_counted:
  "counted m N \<Longrightarrow> counted (count_node acl bn m) (\<lambda>p. N p + (if counts acl bn \<and> node_path bn = p then 1 else 0))"
  by (auto simp: counted_def count_node_def Let_def split: option.splits)

lemma count_nodes_counted:
  "counted m N \<Longrightarrow>
     counted (fold (count_node acl) bns m) (\<lambda>p. N p + length (filter (\<lambda>bn. counts acl bn \<and> node_path bn = p) bns))"
proof (induction bns arbitrary: m N)
  case (Cons bn bns)
  from Cons.IH [OF count_node_counted [OF Cons.prems, of acl bn]] show ?case
    by (simp add: fun_eq_iff if_distrib add.assoc cong: if_cong) (auto elim!: back_subst [where P = "counted _"])
qed simp

text \<open>The clusters that are built by inserting pages, the type being set at will.\<close>

inductive built :: "block_cluster \<Rightarrow> bool" where
  built_new: "built (new_BlockCluster_name t)"
| built_insert: "built c \<Longrightarrow> built (snd (insert_page bl c))"
| built_type: "built c \<Longrightarrow> built (SetType t c)"

definition cluster_inv :: "block_cluster \<Rightarrow> bool" where
  "cluster_inv c \<longleftrightarrow> length (pages c) \<le> BLOCK_NUMBER_IN_A_CLUSTER \<and> distinct (map url (pages c)) \<and>
     counted (all_valid_node c) (occurrences (content_acl c) (pages c))"

lemma insert_page_cases:
  "snd (insert_page bl c) = c \<or>
   (length (pages c) < BLOCK_NUMBER_IN_A_CLUSTER \<and> url bl \<notin> set (map url (pages c)) \<and>
    snd (insert_page bl c) = c\<lparr>pages := bl # pages c, is_need_train := True,
      all_valid_node := fold (count_node (content_acl c)) (blocks bl) (all_valid_node c)\<rparr>)"
  by (auto simp: insert_page_def Let_def BLOCK_NUMBER_IN_A_CLUSTER_def)

lemma insert_page_inv: "cluster_inv c \<Longrightarrow> cluster_inv (snd (insert_page bl c))"
proof -
  assume inv: "cluster_inv c"
  have "counted (fold (count_node (content_acl c)) (blocks bl) (all_valid_node c))
      (\<lambda>p. occurrences (content_acl c) (pages c) p +
         length (filter (\<lambda>bn. counts (content_acl c) bn \<and> node_path bn = p) (blocks bl)))"
    using inv by (intro count_nodes_counted) (simp add: cluster_inv_def)
  moreover have "(\<lambda>p. occurrences (content_acl c) (pages c) p +
         length (filter (\<lambda>bn. counts (content_acl c) bn \<and> node_path bn = p) (blocks bl))) =
      occurrences (content_acl c) (bl # pages c)"
    by (simp add: fun_eq_iff occurrences_def)
  ultimately have "counted (fold (count_node (content_acl c)) (blocks bl) (all_valid_node c))
      (occurrences (content_acl c) (bl # pages c))"
    by simp
  then show ?thesis
    using inv insert_page_cases [of bl c] by (elim disjE) (simp_all add: cluster_inv_def)
qed

lemma built_inv: "built c \<Longrightarrow> cluster_inv c"
proof (induction rule: built.induct)
  case (built_new t)
  show ?case by (simp add: cluster_inv_def new_BlockCluster_name_def counted_def occurrences_def)
next
  case (built_insert c bl)
  then show ?case by (simp add: insert_page_inv)
next
  case (built_type c t)
  then show ?case by (simp add: cluster_inv_def SetType_def)
qed

text \<open>C3.  However pages are inserted and the type is set, a cluster never holds more than ten pages, no
  two of them have the same URL, and the statistics count, for every path, the allowed nodes with
  text that the pages have on it (and hold no entry for other paths).\<close>

theorem built_cluster:
  assumes "built c"
  shows "length (pages c) \<le> 10 \<and> distinct (map url (pages c)) \<and>
     cmap_find (all_valid_node c) p =
       (let n = occurrences (content_acl c) (pages c) p in if n = 0 then None else Some (int n))"
  using built_inv [OF assms] by (simp add: cluster_inv_def counted_def BLOCK_NUMBER_IN_A_CLUSTER_def)

lemma built_cluster_witness:
  "length (pages (snd (insert_page sample_list new_BlockCluster))) \<le> 10 \<and>
   distinct (map url (pages (snd (insert_page sample_list new_BlockCluster)))) \<and>
   cmap_find (all_valid_node (snd (insert_page sample_list new_BlockCluster))) ''/P/'' =
     (let n = occurrences (content_acl (snd (insert_page sample_list new_BlockCluster)))
                (pages (snd (insert_page sample_list new_BlockCluster))) ''/P/''
      in if n = 0 then None else Some (int n))"
  by (rule built_cluster) (auto simp: new_BlockCluster_def intro: built.intros)

section \<open>Common paths\<close>

lemma common_fold_paths:
  "set (map node_path (fold (\<lambda>bl common. find_common2 common (blocks bl)) bls nodes)) \<subseteq> set (map node_path nodes) \<and>
   (\<forall>bl \<in> set bls. set (map node_path (fold (\<lambda>bl common. find_common2 common (blocks bl)) bls nodes)) \<subseteq>
      set (map node_path (blocks bl)))"
proof (induction bls arbitrary: nodes)
  case (Cons bl bls)
  note IH = Cons.IH [of "find_common2 nodes (blocks bl)"] and p = find_common2_paths(1,2) [of nodes "blocks bl"]
  show ?case using IH p by (simp del: set_map) blast
qed simp

lemma move_back_fold:
  "set (fold (\<lambda>bn. move_back (node_path bn)) nodes ps) \<subseteq> set ps \<union> set (map node_path nodes) \<and>
   (distinct ps \<longrightarrow> distinct (fold (\<lambda>bn. move_back (node_path bn)) nodes ps))"
proof (induction nodes arbitrary: ps)
  case (Cons bn nodes)
  have "set (move_back (node_path bn) ps) \<subseteq> insert (node_path bn) (set ps)"
    "distinct ps \<longrightarrow> distinct (move_back (node_path bn) ps)"
    using set_remove1_subset [of "node_path bn" ps] by (auto simp: move_back_def)
  then show ?case using Cons [of "move_back (node_path bn) ps"] by auto
qed simp

text \<open>\<open>analyze_common\<close> only adds paths that every page of the cluster has, and keeps the list free
  of duplicates.\<close>

theorem analyze_common_paths:
  assumes "analyze_common c = Inr c'"
  shows "set (common_node_path c') \<subseteq> set (common_node_path c) \<union> {p. list_all (\<lambda>bl. p \<in> node_path ` set (blocks bl)) (pages c)} \<and>
     (distinct (common_node_path c) \<longrightarrow> distinct (common_node_path c'))"
proof -
  obtain bl bls where b: "pages c = bl # bls"
    using assms by (cases "pages c") (auto simp: analyze_common_def common_of_def)
  define common where "common = fold (\<lambda>bl common. find_common2 common (blocks bl)) bls (blocks bl)"
  have c': "common_node_path c' = fold (\<lambda>bn. move_back (node_path bn)) common (common_node_path c)"
    using assms b by (auto simp: analyze_common_def common_of_def common_def)
  have "set (map node_path common) \<subseteq> {p. list_all (\<lambda>bl. p \<in> node_path ` set (blocks bl)) (pages c)}"
  proof
    fix p
    assume p: "p \<in> set (map node_path common)"
    have "p \<in> set (map node_path (blocks bl))" "\<forall>x \<in> set bls. p \<in> set (map node_path (blocks x))"
      using common_fold_paths [of bls "blocks bl"] p unfolding common_def by blast+
    then show "p \<in> {p. list_all (\<lambda>bl. p \<in> node_path ` set (blocks bl)) (pages c)}"
      by (simp add: b list_all_iff)
  qed
  then show ?thesis using move_back_fold [of common "common_node_path c"] unfolding c' by blast
qed

lemma analyze_common_paths_witness:
  "set [''/P/''] \<subseteq> set (common_node_path new_BlockCluster) \<union>
     {p. list_all (\<lambda>bl. p \<in> node_path ` set (blocks bl)) [sample_list]}"
proof -
  have "analyze_common (new_BlockCluster\<lparr>pages := [sample_list]\<rparr>) =
      Inr (new_BlockCluster\<lparr>pages := [sample_list], common_node_path := [''/P/'']\<rparr>)"
    by (simp add: analyze_common_def common_of_def sample_list_def new_BlockList_def new_BlockNode_def
        new_BlockCluster_def new_BlockCluster_name_def move_back_def)
  from analyze_common_paths [OF this] show ?thesis by simp
qed

section \<open>Pages without text\<close>

lemma similar_loop_NaN:
  "(\<forall>bl \<in> set bls. compare_structure bl node = NaN) \<Longrightarrow> similar_loop bls node num NaN = NaN"
  by (induction bls arbitrary: num) (simp_all add: SIMILAR_THRESHOLD_def)

text \<open>A page without usable text and a cluster of such pages (or an empty one) have the similarity
  NaN, which no threshold is above: the page is never rejected.\<close>

theorem IsSimilar_no_text:
  assumes "\<forall>bl \<in> set (pages c). weight bl (structure_nodes bl) = 0" and "weight node (structure_nodes node) = 0"
  shows "IsSimilar c node = NaN \<and> \<not> flt_less (IsSimilar c node) SIMILAR_THRESHOLD"
proof -
  have nan: "\<forall>bl \<in> set (pages c). compare_structure bl node = NaN"
  proof
    fix bl
    assume "bl \<in> set (pages c)"
    then have w: "weight bl (structure_nodes bl) = 0" "weight node (structure_nodes node) = 0" using assms by simp_all
    then have "weight bl (structure_nodes bl) + weight node (structure_nodes node) < 2 ^ 24" by simp
    from compare_structure_weights [OF this] show "compare_structure bl node = NaN" by (simp add: w)
  qed
  have "IsSimilar c node = NaN"
  proof (cases "pages c")
    case Nil
    then show ?thesis by (simp add: IsSimilar_def f32_of_int_def)
  next
    case (Cons bl bls)
    then show ?thesis using nan similar_loop_NaN [of bls node] by (simp add: IsSimilar_def SIMILAR_THRESHOLD_def)
  qed
  then show ?thesis by (simp add: SIMILAR_THRESHOLD_def)
qed

lemma IsSimilar_no_text_witness:
  "IsSimilar (new_BlockCluster\<lparr>pages := [new_BlockList]\<rparr>) new_BlockList = NaN \<and>
   \<not> flt_less (IsSimilar (new_BlockCluster\<lparr>pages := [new_BlockList]\<rparr>) new_BlockList) SIMILAR_THRESHOLD"
  by (rule IsSimilar_no_text)
    (simp_all add: new_BlockCluster_def new_BlockCluster_name_def new_BlockList_def structure_nodes_def
      filter_nodes_def weight_def)

section \<open>The main node rule\<close>

text \<open>
  Searching for \<open>path\\n\<close> in the joined rule.  Paths have no backslash, and none starts with the
  letter n (they are made of upper case element names).
\<close>

lemma join_paths_Cons: "join_paths (q # qs) = q @ line_sep @ join_paths qs"
  by (simp add: join_paths_def)

lemma takeWhile_before: "c \<notin> set x \<Longrightarrow> takeWhile (\<lambda>d. d \<noteq> c) (x @ c # y) = x"
  by (induction x) auto

lemma suffix_before_sep:
  assumes "CHR 0x5C \<notin> set p" and "CHR 0x5C \<notin> set q" and "p = [] \<or> hd p \<noteq> CHR ''n''"
    and "q @ line_sep @ r = u @ p @ line_sep @ v"
  shows "suffix p q \<or> (\<exists>u'. r = u' @ p @ line_sep @ v)"
proof (cases "CHR 0x5C \<in> set u")
  case False
  then have "CHR 0x5C \<notin> set (u @ p)" using assms(1) by simp
  moreover have "takeWhile (\<lambda>c. c \<noteq> CHR 0x5C) (x @ line_sep @ y) = x" if "CHR 0x5C \<notin> set x" for x y
    using takeWhile_before [OF that] by (simp add: line_sep_def)
  ultimately have "q = u @ p" using assms(2,4) by (metis append.assoc)
  then show ?thesis by (simp add: suffix_def)
next
  case True
  then obtain u1 u2 where u: "u = u1 @ CHR 0x5C # u2" "CHR 0x5C \<notin> set u1" by (metis split_list_first)
  have "takeWhile (\<lambda>c. c \<noteq> CHR 0x5C) (q @ line_sep @ r) = q"
    using takeWhile_before [OF assms(2)] by (simp add: line_sep_def)
  moreover have "takeWhile (\<lambda>c. c \<noteq> CHR 0x5C) (u @ p @ line_sep @ v) = u1"
    using takeWhile_before [OF u(2)] by (simp add: u(1))
  ultimately have "q = u1" using assms(4) by simp
  then have r: "CHR ''n'' # r = u2 @ p @ line_sep @ v" using assms(4) u(1) by (simp add: line_sep_def)
  show ?thesis
  proof (cases u2)
    case Nil
    then have "CHR ''n'' # r = p @ line_sep @ v" using r by simp
    then show ?thesis using assms(3) by (cases p) (auto simp: line_sep_def)
  next
    case (Cons x u3)
    then show ?thesis using r by auto
  qed
qed

lemma contains_join:
  assumes "CHR 0x5C \<notin> set p" and "p = [] \<or> hd p \<noteq> CHR ''n''"
  shows "(\<forall>q \<in> set qs. CHR 0x5C \<notin> set q) \<Longrightarrow> contains (p @ line_sep) (join_paths qs) \<longleftrightarrow> (\<exists>q \<in> set qs. suffix p q)"
proof (induction qs)
  case Nil
  show ?case by (simp add: join_paths_def contains_iff line_sep_def)
next
  case (Cons q qs)
  have q: "CHR 0x5C \<notin> set q" using Cons.prems by simp
  have "contains (p @ line_sep) (join_paths (q # qs)) \<longleftrightarrow> suffix p q \<or> contains (p @ line_sep) (join_paths qs)"
  proof
    assume "contains (p @ line_sep) (join_paths (q # qs))"
    then obtain u v where "q @ line_sep @ join_paths qs = u @ p @ line_sep @ v"
      by (auto simp: contains_iff join_paths_Cons)
    from suffix_before_sep [OF assms(1) q assms(2) this]
    show "suffix p q \<or> contains (p @ line_sep) (join_paths qs)" by (auto simp: contains_iff)
  next
    assume "suffix p q \<or> contains (p @ line_sep) (join_paths qs)"
    then show "contains (p @ line_sep) (join_paths (q # qs))"
    proof
      assume "suffix p q"
      then obtain u where "q = u @ p" by (auto simp: suffix_def)
      then have "join_paths (q # qs) = u @ (p @ line_sep) @ join_paths qs" by (simp add: join_paths_Cons)
      then show ?thesis unfolding contains_iff by blast
    next
      assume "contains (p @ line_sep) (join_paths qs)"
      then obtain u v where "join_paths qs = u @ (p @ line_sep) @ v" by (auto simp: contains_iff)
      then have "join_paths (q # qs) = (q @ line_sep @ u) @ (p @ line_sep) @ v" by (simp add: join_paths_Cons)
      then show ?thesis unfolding contains_iff by blast
    qed
  qed
  then show ?case using Cons.IH Cons.prems by auto
qed

text \<open>With the rule \<open>analyze_main_section\<close> writes for the main nodes \<open>qs\<close>, a node is a main node not
  only when its path is one of \<open>qs\<close> but when its path is a suffix of one: paths lead from the node
  to the root, so every ancestor of a main node is taken for a main node too.\<close>

theorem is_main_node_suffix:
  assumes "cmap_ok (wrap_rule c)" and "CHR 0x5C \<notin> set p" and "p = [] \<or> hd p \<noteq> CHR ''n''"
    and "list_all (\<lambda>q. CHR 0x5C \<notin> set q) qs"
  shows "fst (is_main_node p (SetRule RULE_MAIN_NODE (join_paths qs) c)) = list_ex (suffix p) qs"
proof -
  have "cmap_ok (cmap_replace RULE_MAIN_NODE (join_paths qs) (wrap_rule c))"
    using assms(1) by (rule replace.inv_store)
  then have "cmap_find (cmap_insert RULE_MAIN_NODE [] (cmap_replace RULE_MAIN_NODE (join_paths qs) (wrap_rule c))) RULE_MAIN_NODE =
      Some (join_paths qs)"
    using replace.fetch_store [OF assms(1)] by simp
  then show ?thesis
    using contains_join [OF assms(2,3), of qs] assms(4)
    by (simp add: is_main_node_def SetRule_def Let_def list_all_iff list_ex_iff)
qed

lemma is_main_node_suffix_witness:
  "fst (is_main_node ''DIV/BODY/'' (SetRule RULE_MAIN_NODE (join_paths [''P/DIV/BODY/'']) new_BlockCluster)) =
     list_ex (suffix ''DIV/BODY/'') [''P/DIV/BODY/'']"
  by (rule is_main_node_suffix) (simp_all add: new_BlockCluster_def new_BlockCluster_name_def)

section \<open>The main nodes\<close>

lemma pair_step_counts:
  "pair_step path s1 bl2 (score, n) = Inr (score', n') \<Longrightarrow> n' = n + 1"
  by (cases "sim_score s1 (string_filter (GetPathText bl2 path))") (auto simp: pair_step_def Let_def)

lemma pairs_count:
  "foldE (pair_step path s1) bls (score, n) = Inr (score', n') \<Longrightarrow> n' = n + length bls"
proof (induction bls arbitrary: score n)
  case (Cons bl bls)
  then obtain s m where s: "pair_step path s1 bl (score, n) = Inr (s, m)"
    by (cases "pair_step path s1 bl (score, n)") auto
  with Cons show ?case using pair_step_counts [OF s] by fastforce
qed simp

lemma section_pairs_count:
  "section_pairs path bls (score, w, c, n) = Inr (score', w', c', n') \<Longrightarrow>
     c' = c + length bls \<and> (1 < length bls \<longrightarrow> n < n') \<and> n \<le> n'"
proof (induction path bls "(score, w, c, n)" arbitrary: score w c n rule: section_pairs.induct)
  case (2 path bl rest score w c n)
  define s1 where "s1 = string_filter (GetPathText bl path)"
  obtain s m where m: "foldE (pair_step path s1) rest (score, n) = Inr (s, m)"
    using 2(2) by (cases "foldE (pair_step path s1) rest (score, n)") (auto simp: s1_def Let_def)
  then have "section_pairs path rest (s, wrap_int (w + int (length s1)), c + 1, m) = Inr (score', w', c', n')"
    using 2(2) by (simp add: s1_def Let_def)
  from 2(1) [OF s1_def m refl this] pairs_count [OF m] show ?case by (cases rest) auto
qed simp

lemma section_loop_nodes:
  assumes "1 < length bls"
  shows "section_loop acl bls comm s = Inr (returned, s') \<Longrightarrow> list_all (\<lambda>bn. allowed acl (node_name bn)) (section_nodes s) \<Longrightarrow>
     \<not> returned \<and> list_all (\<lambda>bn. allowed acl (node_name bn)) (section_nodes s')"
proof (induction comm arbitrary: s)
  case (Cons path comm)
  obtain first rest where bls: "bls = first # rest" using assms by (cases bls) auto
  define bn where "bn = GetPathNode first path"
  show ?case
  proof (cases "allowed acl (node_name bn)")
    case False
    then have "section_loop acl bls comm s = Inr (returned, s')"
      using Cons.prems(1) by (simp add: bls bn_def Let_def)
    then show ?thesis using Cons.prems(2) by (rule Cons.IH)
  next
    case True
    obtain score w c n where p: "section_pairs path bls (Fin 0, 0, 0, 0) = Inr (score, w, c, n)"
      using Cons.prems(1) True by (cases "section_pairs path bls (Fin 0, 0, 0, 0)") (auto simp: bls bn_def Let_def)
    from section_pairs_count [OF p] assms have n: "n \<noteq> 0" by simp
    obtain w' where w: "int_div w (int c) = Inr w'"
      using Cons.prems(1) True n p by (cases "int_div w (int c)") (auto simp: bls bn_def Let_def)
    define t where "t = classify first path bn (fdiv f32 score (f32_of_int (int n))) w' s"
    have "section_loop acl bls comm t = Inr (returned, s')"
      using Cons.prems(1) True n p w by (simp add: bls bn_def t_def Let_def)
    moreover have "list_all (\<lambda>bn. allowed acl (node_name bn)) (section_nodes t)"
      using Cons.prems(2) True by (simp add: t_def classify_def Let_def)
    ultimately show ?thesis by (rule Cons.IH)
  qed
qed simp

lemma contains_own_path: "p \<in> set ps \<Longrightarrow> contains (p @ line_sep) (join_paths ps)"
proof -
  assume "p \<in> set ps"
  then obtain u v where "ps = u @ p # v" by (auto dest: split_list)
  then have "join_paths ps = join_paths u @ (p @ line_sep) @ join_paths v" by (simp add: join_paths_def)
  then show ?thesis unfolding contains_iff by blast
qed

text \<open>C39.  After \<open>analyze_main_section\<close> on at least two pages, every main node it found has a name the
  content rules allow and is recognised by \<open>is_main_node\<close>, so that \<open>wrap_content\<close> extracts it.\<close>

theorem analyze_main_section_recognised:
  assumes "analyze_main_section c = Inr c'" and "1 < length (pages c)" and "cmap_ok (wrap_rule c)"
  shows "list_all (\<lambda>bn. allowed (content_acl c) (node_name bn) \<and> fst (is_main_node (node_path bn) c')) (main_node c')"
proof -
  obtain c1 where c1: "(if common_node_path c = [] then analyze_common c else Inr c) = Inr c1"
    using assms(1) by (cases "if common_node_path c = [] then analyze_common c else Inr c")
      (auto simp: analyze_main_section_def)
  have keep: "content_acl c1 = content_acl c" "pages c1 = pages c" "wrap_rule c1 = wrap_rule c"
    using c1 by (cases "common_of (pages c)"; auto simp: analyze_common_def split: if_splits)+
  let ?s = "\<lparr>max_weight = 0, section_path = main_section_path c1, section_nodes = [], section_ads = all_ad_node c1\<rparr>"
  obtain ret s where l: "section_loop (content_acl c1) (pages c1) (common_node_path c1) ?s = Inr (ret, s)"
    using assms(1) c1 by (cases "section_loop (content_acl c1) (pages c1) (common_node_path c1) ?s")
      (auto simp: analyze_main_section_def)
  have s: "\<not> ret" "list_all (\<lambda>bn. allowed (content_acl c) (node_name bn)) (section_nodes s)"
    using section_loop_nodes [OF _ l] assms(2) by (simp_all add: keep)
  define r where "r = cmap_replace RULE_MAIN_NODE (join_paths (map node_path (section_nodes s))) (wrap_rule c)"
  have ok: "cmap_ok r" unfolding r_def using assms(3) by (rule replace.inv_store)
  have c': "main_node c' = section_nodes s"
    "wrap_rule c' = cmap_replace RULE_AD_NODE (join_paths (map fst (section_ads s))) r"
    using assms(1) c1 l s(1) by (auto simp: analyze_main_section_def SetRule_def keep r_def Let_def)
  have "cmap_find (cmap_insert RULE_MAIN_NODE [] (wrap_rule c')) RULE_MAIN_NODE =
      Some (join_paths (map node_path (section_nodes s)))"
    using replace.fetch_store [OF ok] replace.fetch_store [OF assms(3)] replace.inv_store [OF ok]
    by (simp add: c' r_def)
  then show ?thesis
    using s(2) by (auto simp: list_all_iff c' is_main_node_def Let_def intro!: contains_own_path)
qed

definition two_pages :: block_cluster where
  "two_pages = new_BlockCluster\<lparr>pages :=
     [new_BlockList\<lparr>blocks := [new_BlockNode\<lparr>node_name := ''P'', node_path := ''/P/''\<rparr>]\<rparr>,
      new_BlockList\<lparr>blocks := [new_BlockNode\<lparr>node_name := ''P'', node_path := ''/P/'', node_text := ''abcdefghijklm''\<rparr>]\<rparr>]\<rparr>"

lemma filter_letters: "string_filter [NL] = []" "string_filter (''abcdefghijklm'' @ [NL]) = ''abcdefghijklm''"
  by code_simp+

lemma sim_score_Nil: "t \<noteq> [] \<Longrightarrow> length t < 2 ^ 24 \<Longrightarrow> sim_score [] t = Inr (Fin 0)"
  using f32_of_int_exact [of "int (length t)"]
  by (simp add: sim_score_def same_score_def Let_def f32_of_int_def)

lemma two_pages_analyzed:
  "\<exists>c'. analyze_main_section two_pages = Inr c' \<and> map node_path (main_node c') = [''/P/'']"
proof -
  note filt = filter_letters [simplified]
  have sim: "sim_score [] ''abcdefghijklm'' = Inr (Fin 0)" by (rule sim_score_Nil) simp_all
  have p: "\<not> contains ''/A/'' ''/P/''" "\<not> contains ''/A:'' ''/P/''" "flt_less (Fin 0) (f64 (3 / 5))"
    "allowed (add_allow ''A'' (add_deny ''TITLE'' (add_deny ''STYLE'' (add_deny ''SCRIPT'' new_ACLDB)))) ''P''"
    by code_simp+
  show ?thesis
    by (simp add: analyze_main_section_def two_pages_def new_BlockCluster_def new_BlockCluster_name_def
      analyze_common_def common_of_def find_common2_def new_BlockList_def new_BlockNode_def move_back_def
      GetPathNode_def GetPathText_def filt sim pair_step_def Let_def same_node_def wrap_int_def int_div_def
      classify_def SIMILAR_NODE_THRESHOLD_def rewind_def resume_def GetPathCount_def is_anchor_mark_def
      f32_of_int_exact SetRule_def p)
qed

lemma analyze_main_section_recognised_witness:
  "\<exists>c'. analyze_main_section two_pages = Inr c' \<and> map node_path (main_node c') = [''/P/''] \<and>
     list_all (\<lambda>bn. allowed (content_acl two_pages) (node_name bn) \<and> fst (is_main_node (node_path bn) c')) (main_node c')"
proof -
  obtain c' where c': "analyze_main_section two_pages = Inr c'" "map node_path (main_node c') = [''/P/'']"
    using two_pages_analyzed by (elim exE conjE) (rule that)
  have "length (pages two_pages) = 2" "cmap_ok (wrap_rule two_pages)"
    unfolding two_pages_def new_BlockCluster_def new_BlockCluster_name_def by simp_all
  then have "1 < length (pages two_pages)" "cmap_ok (wrap_rule two_pages)" by simp_all
  note r = analyze_main_section_recognised [OF c'(1) this]
  show ?thesis by (intro exI [of _ c'] conjI c' r)
qed
section \<open>Writing and reading a cluster\<close>

interpretation rule_codec: line_codec ser_rule deser_rule
  "\<lambda>r. fst r @ NL # snd r @ [NL]" id id "\<lambda>r. line_ok (fst r) \<and> line_ok (snd r)"
proof
  fix e :: "bytes \<times> bytes" and st r
  show "ser_rule e st = (id e, put (fst e @ NL # snd e @ [NL]) st)"
    by (simp add: ser_rule_def put_line_def)
  show "line_ok (fst e) \<and> line_ok (snd e) \<Longrightarrow> deser_rule \<lparr>unread = (fst e @ NL # snd e @ [NL]) @ r, good = True\<rparr> =
      (id e, \<lparr>unread = r, good = True\<rparr>)"
    by (cases e) (simp add: deser_rule_def)
qed

definition cluster_ok :: "block_cluster \<Rightarrow> bool" where
  "cluster_ok c \<longleftrightarrow> int_ok (important c) \<and> int_ok (cluster_type c) \<and> int_ok (cluster_name c) \<and>
     line_ok (main_section_path c) \<and> length (pages c) < 2 ^ 31 \<and> (\<forall>bl \<in> set (pages c). list_ok bl) \<and>
     cmap_ok (wrap_rule c) \<and> length (wrap_rule c) < 2 ^ 31 \<and>
     (\<forall>r \<in> set (wrap_rule c). line_ok (fst r) \<and> line_ok (snd r)) \<and>
     length (main_node c) < 2 ^ 31 \<and> (\<forall>bn \<in> set (main_node c). node_ok bn)"

definition cluster_image :: "block_cluster \<Rightarrow> block_cluster \<Rightarrow> block_cluster" where
  "cluster_image c0 c =
     c0\<lparr>is_important := is_important c, important := important c, cluster_type := cluster_type c,
        cluster_name := cluster_name c, main_section_path := main_section_path c,
        pages := map list_image (take 5 (pages c)), wrap_rule := wrap_rule c,
        main_node := map node_image (main_node c)\<rparr>"

definition cluster_enc :: "block_cluster \<Rightarrow> bytes" where
  "cluster_enc c =
     show_bool (is_important c) @ NL # show_int (important c) @ NL # show_int (cluster_type c) @ NL #
     show_int (cluster_name c) @ NL # main_section_path c @ NL #
     show_int (int (length (take 5 (pages c)))) @ NL # concat (map list_enc (take 5 (pages c))) @
     show_int (int (length (wrap_rule c))) @ NL # concat (map (\<lambda>r. fst r @ NL # snd r @ [NL]) (wrap_rule c)) @
     show_int (int (length (main_node c))) @ NL # concat (map node_enc (main_node c))"

lemma cluster_serialize_enc:
  assumes "cluster_ok c"
  shows "snd (cluster_serialize c \<lparr>unread = [], good = True\<rparr>) = \<lparr>unread = cluster_enc c, good = True\<rparr>"
proof -
  obtain k where k: "(if 5 < int_of_size (length (pages c)) then 5 else int_of_size (length (pages c))) = int k"
      "length (take 5 (pages c)) = k" "take k (pages c) = take 5 (pages c)"
  proof (rule that [of "min (length (pages c)) 5"])
    show "(if 5 < int_of_size (length (pages c)) then 5 else int_of_size (length (pages c))) = int (min (length (pages c)) 5)"
      using assms by (simp add: cluster_ok_def int_of_size_id)
  qed (simp_all add: min_def)
  show ?thesis
    unfolding cluster_serialize_def cluster_enc_def Let_def k(1) k(2) nat_int k(3)
    using assms
    by (simp add: list_codec.ser_all_eq rule_codec.ser_all_eq node_codec.ser_all_eq
        put_line_def cluster_ok_def int_of_size_id put_def)
qed

lemma cluster_deserialize_enc:
  assumes "cluster_ok c" and "pages c0 = []" "wrap_rule c0 = []" "main_node c0 = []"
  shows "cluster_deserialize c0 \<lparr>unread = cluster_enc c @ r, good = True\<rparr> = (cluster_image c0 c, \<lparr>unread = r, good = True\<rparr>)"
proof -
  have bls: "\<forall>bl \<in> set (take 5 (pages c)). list_ok bl" "length (take 5 (pages c)) < 2 ^ 31"
    using assms(1) by (auto simp: cluster_ok_def dest: in_set_takeD)
  have rules: "fold (\<lambda>(k, v). cmap_insert k v) (wrap_rule c) [] = wrap_rule c"
    using cmap_insert_fold [of "[]" "wrap_rule c"] assms(1) by (simp add: cluster_ok_def)
  show ?thesis
    using assms bls
    by (simp add: cluster_deserialize_def cluster_enc_def cluster_ok_def get_integer_bool get_integer_line
        get_integer_of_nat list_codec.deser_n_eq rule_codec.deser_n_eq node_codec.deser_n_eq rules
        cluster_image_def del: length_take)
qed

text \<open>C17.  A cluster that is written and read into a new one keeps its flags, numbers, main section, rules
  and main nodes, and its first five pages; the other pages, the statistics and the common and
  advertisement paths are not kept.\<close>

theorem cluster_roundtrip:
  assumes "cluster_ok c"
  shows "cluster_deserialize (new_BlockCluster_name t) (snd (cluster_serialize c \<lparr>unread = [], good = True\<rparr>)) =
     (cluster_image (new_BlockCluster_name t) c, \<lparr>unread = [], good = True\<rparr>)"
  using cluster_deserialize_enc [OF assms, of "new_BlockCluster_name t" "[]"] cluster_serialize_enc [OF assms]
  by (simp add: new_BlockCluster_name_def)

lemma cluster_roundtrip_witness:
  "cluster_deserialize (new_BlockCluster_name 3)
     (snd (cluster_serialize (new_BlockCluster\<lparr>pages := [sample_list], wrap_rule := [(''mn'', ''P'')]\<rparr>) \<lparr>unread = [], good = True\<rparr>)) =
   (cluster_image (new_BlockCluster_name 3) (new_BlockCluster\<lparr>pages := [sample_list], wrap_rule := [(''mn'', ''P'')]\<rparr>),
    \<lparr>unread = [], good = True\<rparr>)"
  by (rule cluster_roundtrip)
    (simp add: cluster_ok_def new_BlockCluster_def new_BlockCluster_name_def sample_list_def new_BlockList_def
      new_BlockNode_def list_ok_def node_ok_def line_ok_def int_ok_def INVALID_BLOCK_def cmap_ok_def)

end
