(* ===== verification/DateFormat.thy ===== *)
theory DateFormat
  imports StringUtil
begin

text \<open>
  \<open>DisCrawler/DOMAttUtil/date.cpp\<close>: the date in a text, found by a format such as
  \<open>YYYY-MM-DD HH:mm:SS\<close> and printed with \<open>strftime\<close>.  A format is split into fields (one letter
  and the number of digits it may have) and separators; the fields are read one after the other,
  and the search starts again behind the point where a separator is missed before the day is known.
  A \<open>char *\<close> is the rest of its block, the terminating \<open>'\0'\<close> included.
\<close>

section \<open>The format\<close>

definition date_letters :: bytes where
  "date_letters = ''YMDHmS''"

text \<open>
  The loop of \<open>get_date_format\<close>: \<open>sep\<close> is the separator read so far, the second argument what \<open>c\<close>
  points to.  A letter closes the separator and is taken with its repetitions; a \<open>+\<close> behind them
  makes the length 2.  A separator at the end is dropped.
\<close>

function date_format_loop :: "bytes \<Rightarrow> bytes \<Rightarrow> (bytes \<times> nat) list" where
  "date_format_loop sep [] = []"
| "date_format_loop sep (c # cs) =
     (if c \<in> set date_letters then
        (if sep \<noteq> [] then [(sep, length sep)] else []) @
        (let run = takeWhile (\<lambda>x. x = c) cs; rest = dropWhile (\<lambda>x. x = c) cs
         in if rest \<noteq> [] \<and> hd rest = CHR ''+'' then ([c], 2) # date_format_loop [] (tl rest)
            else ([c], Suc (length run)) # date_format_loop [] rest)
      else date_format_loop (sep @ [c]) cs)"
  by pat_completeness auto
termination
proof (relation "measure (\<lambda>(sep, cs). length cs)", goal_cases)
  case (2 sep c cs x xa)
  then show ?case using length_dropWhile_le [of "\<lambda>x. x = c" cs] by simp
qed (auto simp: le_imp_less_Suc length_dropWhile_le)

definition get_date_format :: "bytes \<Rightarrow> (bytes \<times> nat) list" where
  "get_date_format format = date_format_loop [] (c_str format)"

section \<open>One field or separator\<close>

text \<open>
  \<open>for (; i < len; i++)\<close> with a \<open>break\<close>: the first index from \<open>i\<close> on, below \<open>len\<close>, at which \<open>P\<close> fails.
  The block is read as far as the loop goes.
\<close>

function scan_while :: "(char \<Rightarrow> bool) \<Rightarrow> bytes \<Rightarrow> nat \<Rightarrow> nat \<Rightarrow> nat res" where
  "scan_while P d i len =
     (if i < len then
        if i < length d then if P (d ! i) then scan_while P d (Suc i) len else Inr i
        else Inl OutOfBounds
      else Inr i)"
  by pat_completeness auto
termination by (relation "measure (\<lambda>(P, d, i, len). len - i)") auto

declare scan_while.simps [simp del]

text \<open>The buffer is zero where nothing was stored, and \<open>string(buf)\<close> ends at the first zero.\<close>

definition scan_date :: "bytes \<Rightarrow> bytes \<Rightarrow> nat \<Rightarrow> bytes res" where
  "scan_date d format len =
     (if contains format date_letters then
        bindE (scan_while (\<lambda>c. \<not> is_digit c) d 0 len) (\<lambda>i.
        bindE (scan_while is_digit d i len) (\<lambda>j.
        Inr (c_str (replicate i NUL @ take (j - i) (drop i d)))))
      else
        bindE (scan_while (\<lambda>c. \<not> is_digit c) d 0 len) (\<lambda>j. Inr (c_str (take j d))))"

section \<open>Clean-up of the text\<close>

function remove_invalid_chars :: "bytes \<Rightarrow> nat \<Rightarrow> bytes" where
  "remove_invalid_chars s s_pos =
     (if length s \<le> s_pos then s
      else if s ! s_pos \<in> {CHR 0x0D, NL} then remove_invalid_chars (take s_pos s @ drop (Suc s_pos) s) s_pos
      else remove_invalid_chars s (Suc s_pos))"
  by pat_completeness auto
termination by (relation "measure (\<lambda>(s, p). length s - p)") auto

declare remove_invalid_chars.simps [simp del]

lemma remove_invalid_chars_eq:
  "remove_invalid_chars s p = take p s @ filter (\<lambda>c. c \<notin> {CHR 0x0D, NL}) (drop p s)"
proof (induction s p rule: remove_invalid_chars.induct)
  case (1 s p)
  show ?case
  proof (cases "length s \<le> p")
    case True
    then show ?thesis by (simp add: remove_invalid_chars.simps [of s p])
  next
    case False
    then have "drop p s = s ! p # drop (Suc p) s" "take (Suc p) s = take p s @ [s ! p]"
      by (simp_all add: Cons_nth_drop_Suc take_Suc_conv_app_nth)
    with 1 False show ?thesis
      by (auto simp: remove_invalid_chars.simps [of s p] min_def)
  qed
qed

section \<open>The date\<close>

record tm =
  tm_year :: int
  tm_mon :: int
  tm_mday :: int
  tm_hour :: int
  tm_min :: int
  tm_sec :: int

definition no_date :: tm where
  "no_date = \<lparr>tm_year = - 1, tm_mon = - 1, tm_mday = - 1, tm_hour = 0, tm_min = 0, tm_sec = 0\<rparr>"

definition day_known :: "tm \<Rightarrow> bool" where
  "day_known t \<longleftrightarrow> tm_mon t \<noteq> - 1 \<and> tm_mday t \<noteq> - 1"

text \<open>What a field sets; \<open>None\<close> is the return of an empty string.\<close>

definition set_field :: "bytes \<Rightarrow> bytes \<Rightarrow> tm \<Rightarrow> tm option res" where
  "set_field f a t =
     (if f = ''Y'' then bindE (check_int (atoi a - 1900)) (\<lambda>y. Inr (Some (t\<lparr>tm_year := y\<rparr>)))
      else if f = ''M'' then
        bindE (check_int (atoi a - 1)) (\<lambda>m. Inr (if m < 0 then None else Some (t\<lparr>tm_mon := m\<rparr>)))
      else if f = ''D'' then Inr (if atoi a < 1 then None else Some (t\<lparr>tm_mday := atoi a\<rparr>))
      else if f = ''H'' then Inr (if atoi a > 24 then None else Some (t\<lparr>tm_hour := atoi a\<rparr>))
      else if f = ''m'' then Inr (if atoi a > 60 then None else Some (t\<lparr>tm_min := atoi a\<rparr>))
      else if f = ''S'' then Inr (if atoi a > 60 then None else Some (t\<lparr>tm_sec := atoi a\<rparr>))
      else Inr (Some t))"

definition is_field :: "bytes \<Rightarrow> bool" where
  "is_field f \<longleftrightarrow> f \<in> {''Y'', ''M'', ''D'', ''H'', ''m'', ''S''}"

text \<open>How the loop over the format ends: with all parts read, with an empty result, or with a
  separator missed, when the rest of the text is searched.\<close>

datatype date_end = Filled tm | Rejected | Retry bytes

fun date_loop :: "bytes \<Rightarrow> (bytes \<times> nat) list \<Rightarrow> tm \<Rightarrow> date_end res" where
  "date_loop d [] t = Inr (Filled t)"
| "date_loop d ((f, len) # ps) t =
     bindE (scan_date d f len) (\<lambda>a.
     bindE (set_field f a t) (\<lambda>r.
     case r of
       None \<Rightarrow> Inr Rejected
     | Some t' \<Rightarrow>
         if \<not> is_field f \<and> a \<noteq> f \<and> \<not> day_known t' then Inr (Retry (c_str d))
         else if 6 < length a \<and> \<not> day_known t' then Inr Rejected
         else date_loop (drop (length a) d) ps t'))"

text \<open>
  \<open>strftime\<close>.  A field outside the range the C standard names for it prints unspecified characters;
  these, and the conversions the sources do not use, come from the argument \<open>unspec\<close>.
\<close>

definition two :: "int \<Rightarrow> bytes" where
  "two i = (if i < 10 then CHR ''0'' # show_int i else show_int i)"

definition in_range :: "char \<Rightarrow> tm \<Rightarrow> bool" where
  "in_range k t =
     (if k = CHR ''Y'' then True
      else if k = CHR ''m'' then 0 \<le> tm_mon t \<and> tm_mon t \<le> 11
      else if k = CHR ''d'' then 1 \<le> tm_mday t \<and> tm_mday t \<le> 31
      else if k = CHR ''H'' then 0 \<le> tm_hour t \<and> tm_hour t \<le> 23
      else if k = CHR ''M'' then 0 \<le> tm_min t \<and> tm_min t \<le> 59
      else if k = CHR ''S'' then 0 \<le> tm_sec t \<and> tm_sec t \<le> 60
      else False)"

definition conversion :: "(char \<Rightarrow> tm \<Rightarrow> bytes) \<Rightarrow> char \<Rightarrow> tm \<Rightarrow> bytes" where
  "conversion unspec k t =
     (if \<not> in_range k t then unspec k t
      else if k = CHR ''Y'' then show_int (tm_year t + 1900)
      else two (if k = CHR ''m'' then tm_mon t + 1
                else if k = CHR ''d'' then tm_mday t
                else if k = CHR ''H'' then tm_hour t
                else if k = CHR ''M'' then tm_min t else tm_sec t))"

fun strftime :: "(char \<Rightarrow> tm \<Rightarrow> bytes) \<Rightarrow> bytes \<Rightarrow> tm \<Rightarrow> bytes" where
  "strftime unspec [] t = []"
| "strftime unspec [c] t = [c]"
| "strftime unspec (c # k # cs) t =
     (if c \<noteq> CHR ''%'' then c # strftime unspec (k # cs) t
      else if k = CHR ''T'' then
        conversion unspec (CHR ''H'') t @ '':'' @ conversion unspec (CHR ''M'') t @ '':'' @
        conversion unspec (CHR ''S'') t @ strftime unspec cs t
      else conversion unspec k t @ strftime unspec cs t)"

text \<open>The result goes through a buffer of 80 bytes, which is not written when it is too small.\<close>

definition print_date :: "(char \<Rightarrow> tm \<Rightarrow> bytes) \<Rightarrow> bytes \<Rightarrow> tm \<Rightarrow> bytes res" where
  "print_date unspec output_format t =
     (let r = strftime unspec (c_str output_format) t
      in if length r < 80 then Inr (c_str r) else Inl UninitRead)"

text \<open>
  The loop to the first digit compares the pointer itself with \<open>'\0'\<close>, so it does not stop at the
  end of the text.  A recursion that never ends is \<open>None\<close>.
\<close>

partial_function (option) extract_date ::
  "(char \<Rightarrow> tm \<Rightarrow> bytes) \<Rightarrow> bytes \<Rightarrow> bytes \<Rightarrow> bytes \<Rightarrow> bytes res option"
where
  "extract_date unspec date format output_format =
     (if 900 < length date \<or> date = [] then Some (Inr [])
      else if get_date_format format = [] then Some (Inr [])
      else
        let d = dropWhile (\<lambda>c. \<not> is_digit c) (date @ [NUL])
        in if d = [] then Some (Inl OutOfBounds)
           else case date_loop d (get_date_format format) no_date of
                  Inl e \<Rightarrow> Some (Inl e)
                | Inr (Filled t) \<Rightarrow> Some (print_date unspec output_format t)
                | Inr Rejected \<Rightarrow> Some (Inr [])
                | Inr (Retry str) \<Rightarrow> extract_date unspec str format output_format)"

text \<open>The result and the text, which is changed in place.\<close>

definition get_date_as ::
  "(char \<Rightarrow> tm \<Rightarrow> bytes) \<Rightarrow> bytes \<Rightarrow> bytes \<Rightarrow> bytes \<Rightarrow> (bytes res \<times> bytes) option"
where
  "get_date_as unspec date format output_format =
     (case string_replace (remove_invalid_chars date 0) spaces_pat '' '' of
        None \<Rightarrow> None
      | Some date' \<Rightarrow>
          map_option (\<lambda>r. (r, date')) (extract_date unspec date' format output_format))"

definition get_date :: "(char \<Rightarrow> tm \<Rightarrow> bytes) \<Rightarrow> bytes \<Rightarrow> bytes \<Rightarrow> (bytes res \<times> bytes) option" where
  "get_date unspec date format = get_date_as unspec date format ''%Y-%m-%d %T''"


section \<open>Lemmas\<close>

lemma scan_while_stop:
  assumes "i \<le> j" and "\<forall>k. i \<le> k \<and> k < j \<longrightarrow> P (d ! k)" and "j \<le> len" and "j \<le> length d"
    and "j = len \<or> j < length d \<and> \<not> P (d ! j)"
  shows "scan_while P d i len = Inr j"
  using assms
proof (induction P d i len rule: scan_while.induct)
  case (1 P d i len)
  show ?case
  proof (cases "i = j")
    case True
    then show ?thesis using "1.prems" by (subst scan_while.simps) auto
  next
    case False
    then have "scan_while P d (Suc i) len = Inr j" and "P (d ! i)" using "1.prems" "1.IH" by auto
    then show ?thesis using "1.prems" False by (simp add: scan_while.simps [of P d i len])
  qed
qed

lemma scan_while_ge: "scan_while P d i len = Inr j \<Longrightarrow> i \<le> j"
proof (induction P d i len rule: scan_while.induct)
  case (1 P d i len)
  from "1.prems" show ?case
    using "1.IH" by (subst (asm) scan_while.simps) (fastforce split: if_splits)
qed

lemma is_field_letters: "is_field f \<Longrightarrow> contains f date_letters"
  by (auto simp: is_field_def date_letters_def contains_def)

text \<open>A number field reads the digits there are, up to its length.\<close>

lemma scan_field:
  assumes "is_field f" "list_all is_digit ds" "ds \<noteq> []" "length ds = len \<or> length ds < len \<and> \<not> is_digit r"
  shows "scan_date (ds @ r # rs) f len = Inr ds"
proof -
  have hd: "is_digit (ds ! 0)" using assms(2,3) by (cases ds) auto
  have z: "NUL \<notin> set ds" using assms(2) by (auto simp: list_all_iff)
  have "scan_while (\<lambda>c. \<not> is_digit c) (ds @ r # rs) 0 len = Inr 0"
    using assms(3,4) hd by (intro scan_while_stop) (auto simp: nth_append)
  moreover have "scan_while is_digit (ds @ r # rs) 0 len = Inr (length ds)"
    using assms(2,4) by (intro scan_while_stop) (auto simp: nth_append list_all_iff)
  ultimately show ?thesis
    using is_field_letters [OF assms(1)] z by (simp add: scan_date_def c_str_id)
qed

text \<open>A separator is read up to the first digit, or to its length.\<close>

lemma scan_separator:
  assumes "\<not> contains f date_letters" "list_all (\<lambda>c. \<not> is_digit c) s" "NUL \<notin> set s" "length s = len"
  shows "scan_date (s @ rs) f len = Inr s"
proof -
  have "scan_while (\<lambda>c. \<not> is_digit c) (s @ rs) 0 len = Inr (length s)"
    using assms(2,4) by (intro scan_while_stop) (auto simp: nth_append list_all_iff)
  then show ?thesis using assms(1,3) by (simp add: scan_date_def c_str_id)
qed

lemma scan_separator_digit:
  assumes "\<not> contains f date_letters" "is_digit c"
  shows "scan_date (c # rs) f len = Inr []"
proof -
  have "scan_while (\<lambda>c. \<not> is_digit c) (c # rs) 0 len = Inr 0"
    using assms(2) by (intro scan_while_stop) auto
  then show ?thesis using assms(1) by (simp add: scan_date_def c_str_def)
qed

text \<open>The parts of a format: a field, or a separator without letters; each has a length.\<close>

definition part_ok :: "bytes \<times> nat \<Rightarrow> bool" where
  "part_ok p \<longleftrightarrow> 0 < snd p \<and> (is_field (fst p) \<or> fst p \<noteq> [] \<and> list_all (\<lambda>c. c \<notin> set date_letters) (fst p))"

lemma part_ok_separator: "part_ok (f, len) \<Longrightarrow> \<not> is_field f \<Longrightarrow> \<not> contains f date_letters"
  unfolding contains_iff
proof
  assume f: "part_ok (f, len)" "\<not> is_field f" and "\<exists>u v. date_letters = u @ f @ v"
  then obtain u v where "date_letters = u @ f @ v" by blast
  then have "set date_letters = set (u @ f @ v)" by (rule arg_cong)
  then have "set f \<subseteq> set date_letters" by auto
  with f show False by (cases f) (auto simp: part_ok_def)
qed

lemma is_field_letter: "c \<in> set date_letters \<Longrightarrow> is_field [c]"
  by (auto simp: is_field_def date_letters_def)

lemma is_field_hd: "is_field f \<Longrightarrow> hd f \<in> set date_letters"
  by (auto simp: is_field_def date_letters_def)

lemma date_format_loop_ok:
  assumes "list_all (\<lambda>c. c \<notin> set date_letters) sep"
  shows "list_all part_ok (date_format_loop sep cs)"
  using assms
proof (induction sep cs rule: date_format_loop.induct)
  case (2 sep c cs)
  then show ?case
    by (auto simp: Let_def part_ok_def is_field_letter)
qed simp

lemma date_format_loop_separator:
  assumes "list_all (\<lambda>c. c \<notin> set date_letters) sep" "sep \<noteq> []" "date_format_loop sep cs \<noteq> []"
  shows "\<not> is_field (fst (hd (date_format_loop sep cs)))"
  using assms
proof (induction sep cs rule: date_format_loop.induct)
  case (2 sep c cs)
  show ?case
  proof (cases "c \<in> set date_letters")
    case True
    then show ?thesis using 2 by (cases sep) (auto dest!: is_field_hd)
  next
    case False
    then show ?thesis using 2 by auto
  qed
qed simp

lemma get_date_format_ok: "list_all part_ok (get_date_format format)"
  by (simp add: get_date_format_def date_format_loop_ok)

lemma get_date_format_hd:
  assumes "get_date_format format \<noteq> []"
  shows "is_field (fst (hd (get_date_format format))) \<longleftrightarrow> hd format \<in> set date_letters"
proof -
  from assms have c: "c_str format \<noteq> []" by (auto simp: get_date_format_def)
  then obtain cs where cs: "c_str format = hd format # cs"
    by (cases format) (auto simp: c_str_def split: if_splits)
  show ?thesis
  proof (cases "hd format \<in> set date_letters")
    case True
    then show ?thesis by (simp add: get_date_format_def cs is_field_letter Let_def)
  next
    case False
    then show ?thesis
      using assms date_format_loop_separator [of "[hd format]" cs]
      by (simp add: get_date_format_def cs)
  qed
qed

section \<open>When the search ends\<close>

text \<open>What is searched again is the rest of the text from some point on.\<close>

lemma date_loop_retry:
  "date_loop d ps t = Inr (Retry str) \<Longrightarrow> \<exists>k. str = c_str (drop k d)"
proof (induction d ps t rule: date_loop.induct)
  case (2 d f len ps t)
  from 2(2) obtain a where a: "scan_date d f len = Inr a" by (auto simp: cxx_simps)
  with 2(2) obtain t' where t': "set_field f a t = Inr (Some t')"
    by (auto simp: cxx_simps split: option.splits)
  show ?case
  proof (cases "date_loop (drop (length a) d) ps t' = Inr (Retry str)")
    case True
    have "\<exists>k. str = c_str (drop k (drop (length a) d))" if "\<not> (\<not> is_field f \<and> a \<noteq> f \<and> \<not> day_known t')"
      using 2(1) [OF a t' refl that _ True] 2(2) a t' that by (simp split: if_splits)
    moreover have "\<exists>k. str = c_str (drop k d)" if "\<not> is_field f \<and> a \<noteq> f \<and> \<not> day_known t'"
      using 2(2) a t' that by (intro exI [of _ 0]) simp
    ultimately show ?thesis unfolding drop_drop by blast
  next
    case False
    then have "str = c_str (drop 0 d)" using 2(2) a t' by (simp split: if_splits)
    then show ?thesis by blast
  qed
qed simp

lemma scan_field_nonempty:
  assumes "is_field f" "0 < len" "is_digit c" "scan_date (c # d) f len = Inr a"
  shows "a \<noteq> []"
proof -
  have "scan_while (\<lambda>c. \<not> is_digit c) (c # d) 0 len = Inr 0"
    using assms(3) by (intro scan_while_stop) auto
  then obtain j where j: "scan_while is_digit (c # d) 0 len = Inr j" "a = c_str (take j (c # d))"
    using assms(4) is_field_letters [OF assms(1)] by (auto simp: scan_date_def cxx_simps)
  have "scan_while is_digit (c # d) 0 len = scan_while is_digit (c # d) 1 len"
    using assms(2,3) by (subst scan_while.simps) simp
  then have "1 \<le> j"
    using j(1) scan_while_ge [of is_digit "c # d" 1 len j] by simp
  then show ?thesis using j(2) assms(3) is_digit_not by (cases j) (auto simp: c_str_def)
qed

text \<open>After a field at the start, at least one byte less is searched.\<close>

lemma length_c_str_drop: "length (c_str (drop k (s @ [NUL]))) \<le> length s - k"
proof (cases "k \<le> length s")
  case True
  then have "c_str (drop k (s @ [NUL])) = c_str (drop k s)"
    by (auto simp: c_str_def takeWhile_append takeWhile_eq_all_conv [THEN iffD2])
  then show ?thesis using length_c_str [of "drop k s"] by simp
next
  case False
  then show ?thesis by (simp add: c_str_def)
qed

lemma date_loop_shrinks:
  assumes "list_all part_ok ps" "ps \<noteq> []" "is_field (fst (hd ps))"
    and "s \<noteq> []" "is_digit (hd s)" "date_loop (s @ [NUL]) ps t = Inr (Retry str)"
  shows "length str < length s"
proof -
  obtain f len ps' where ps: "ps = (f, len) # ps'" using assms(2) by (cases ps) auto
  then have f: "is_field f" "0 < len" using assms(1,3) by (auto simp: part_ok_def)
  obtain a where a: "scan_date (s @ [NUL]) f len = Inr a"
    using assms(6) ps by (auto simp: cxx_simps)
  have "a \<noteq> []" using scan_field_nonempty [OF f, of "hd s" "tl s @ [NUL]" a] a assms(4,5) by (cases s) auto
  obtain t' where "date_loop (drop (length a) (s @ [NUL])) ps' t' = Inr (Retry str)"
    using assms(6) ps a f by (auto simp: cxx_simps split: option.splits if_splits)
  then obtain k where "str = c_str (drop (k + length a) (s @ [NUL]))"
    using date_loop_retry [of "drop (length a) (s @ [NUL])"] unfolding drop_drop by blast
  then show ?thesis
    using length_c_str_drop [of "k + length a" s] \<open>a \<noteq> []\<close> assms(4) by (cases a; cases s) auto
qed

text \<open>The text from the first digit on, as the loop finds it.\<close>

lemma first_digit:
  assumes "d = dropWhile (\<lambda>c. \<not> is_digit c) (date @ [NUL])" "d \<noteq> []"
  obtains s where "d = s @ [NUL]" "s \<noteq> []" "is_digit (hd s)" "length s \<le> length date"
proof -
  have "\<exists>c\<in>set date. is_digit c"
  proof (rule ccontr)
    assume "\<not> ?thesis"
    then show False using assms by (simp add: dropWhile_append)
  qed
  then have d: "d = dropWhile (\<lambda>c. \<not> is_digit c) date @ [NUL]" "dropWhile (\<lambda>c. \<not> is_digit c) date \<noteq> []"
    using assms(1) by (auto simp: dropWhile_append dropWhile_eq_Nil_conv)
  show thesis
    using that [OF d] hd_dropWhile [OF d(2)] length_dropWhile_le by blast
qed

lemma no_digit: "dropWhile (\<lambda>c. \<not> is_digit c) (date @ [NUL]) = [] \<longleftrightarrow> list_all (\<lambda>c. \<not> is_digit c) date"
  by (auto simp: dropWhile_eq_Nil_conv list_all_iff)

lemma extract_date_field_first:
  assumes "get_date_format format \<noteq> [] \<Longrightarrow> hd format \<in> set date_letters"
  shows "\<exists>r. extract_date unspec date format output_format = Some r"
proof (induction date rule: length_induct)
  case (1 date)
  let ?lst = "get_date_format format" and ?d = "dropWhile (\<lambda>c. \<not> is_digit c) (date @ [NUL])"
  show ?case
  proof (cases "900 < length date \<or> date = [] \<or> ?lst = [] \<or> ?d = []")
    case True
    then show ?thesis by (subst extract_date.simps) auto
  next
    case False
    then have lst: "?lst \<noteq> []" "is_field (fst (hd ?lst))" using assms get_date_format_hd by blast+
    obtain s where s: "?d = s @ [NUL]" "s \<noteq> []" "is_digit (hd s)" "length s \<le> length date"
      using first_digit [OF refl] False by metis
    have retry: "\<exists>r. extract_date unspec str format output_format = Some r"
      if "date_loop ?d ?lst no_date = Inr (Retry str)" for str
      using date_loop_shrinks [OF get_date_format_ok lst s(2,3)] that 1 s(1,4) by fastforce
    show ?thesis
      using False retry by (subst extract_date.simps) (auto simp: Let_def split: sum.split date_end.split)
  qed
qed

text \<open>A separator in front is compared with nothing, so the same text is searched for ever.\<close>

lemma date_loop_separator_first:
  assumes "part_ok p" "\<not> is_field (fst p)" "is_digit (hd d)" "d \<noteq> []"
  shows "date_loop d (p # ps) no_date = Inr (Retry (c_str d))"
proof -
  obtain f len where p: "p = (f, len)" by (cases p)
  have f: "\<not> contains f date_letters" "f \<noteq> []" "\<not> is_field f"
    using assms(1,2) p part_ok_separator by (auto simp: part_ok_def)
  have "scan_date d f len = Inr []"
    using scan_separator_digit [OF f(1), of "hd d" "tl d"] assms(3,4) by simp
  moreover have "set_field f [] no_date = Inr (Some no_date)"
    using f(3) by (simp add: set_field_def is_field_def)
  ultimately show ?thesis using f p by (simp add: no_date_def day_known_def)
qed

lemma extract_date_separator_first:
  assumes "extract_date unspec date format output_format = Some r"
  shows "get_date_format format = [] \<or> hd format \<in> set date_letters \<or> 900 < length date
      \<or> list_all (\<lambda>c. \<not> is_digit c) date"
proof (rule extract_date.raw_induct [OF _ assms], goal_cases)
  case (1 ed unspec date format output_format r)
  note IH = 1(1) and run = 1(2)
  let ?lst = "get_date_format format" and ?d = "dropWhile (\<lambda>c. \<not> is_digit c) (date @ [NUL])"
  show ?case
  proof (rule ccontr)
    assume "\<not> ?thesis"
    then have no: "?lst \<noteq> []" "hd format \<notin> set date_letters" "\<not> 900 < length date"
      "\<not> list_all (\<lambda>c. \<not> is_digit c) date" by blast+
    then obtain s where s: "?d = s @ [NUL]" "s \<noteq> []" "is_digit (hd s)" "length s \<le> length date"
      using first_digit [OF refl] no_digit by metis
    have "date_loop ?d ?lst no_date = Inr (Retry (c_str ?d))"
      using date_loop_separator_first [of "hd ?lst" ?d "tl ?lst"] get_date_format_ok [of format]
        get_date_format_hd [OF no(1)] no(1,2) s by (cases ?lst) auto
    moreover have "date \<noteq> []" using no(4) by auto
    ultimately have "ed unspec (c_str ?d) format output_format = Some r"
      using run no no_digit by (simp add: Let_def)
    moreover have "\<not> list_all (\<lambda>c. \<not> is_digit c) (c_str ?d)"
      using s by (cases s) (auto simp: c_str_def)
    moreover have "length (c_str ?d) \<le> 900"
      using s no(3) length_c_str_drop [of 0 s] by simp
    ultimately show False using IH [of unspec "c_str ?d" format output_format r] no by simp
  qed
qed

text \<open>C35.  Looking for a date fails to return exactly when the format starts with a separator and the text
  has a digit: the search is then repeated on the same text.  On a text without a digit the search leaves
  the text.\<close>

theorem extract_date_ends:
  "(extract_date unspec date format output_format = None \<longleftrightarrow>
      get_date_format format \<noteq> [] \<and> hd format \<notin> set ''YMDHmS'' \<and> length date \<le> 900
      \<and> list_ex is_digit date) \<and>
   (if get_date_format format \<noteq> [] \<and> date \<noteq> [] \<and> length date \<le> 900 \<and> \<not> list_ex is_digit date
    then extract_date unspec date format output_format = Some (Inl OutOfBounds) else True)"
proof (intro conjI)
  have "\<exists>r. extract_date unspec date format output_format = Some r"
    if "900 < length date \<or> list_all (\<lambda>c. \<not> is_digit c) date"
    using that no_digit [of date] by (subst extract_date.simps) auto
  moreover have "\<exists>r. extract_date unspec date format output_format = Some r"
    if "get_date_format format = [] \<or> hd format \<in> set ''YMDHmS''"
    using that extract_date_field_first [of format] unfolding date_letters_def by blast
  ultimately show "extract_date unspec date format output_format = None \<longleftrightarrow>
      get_date_format format \<noteq> [] \<and> hd format \<notin> set ''YMDHmS'' \<and> length date \<le> 900
      \<and> list_ex is_digit date"
    using extract_date_separator_first [of unspec date format output_format]
    unfolding date_letters_def list_ex_iff list_all_iff
    by (cases "extract_date unspec date format output_format") (simp_all, fastforce+)
  show "if get_date_format format \<noteq> [] \<and> date \<noteq> [] \<and> length date \<le> 900 \<and> \<not> list_ex is_digit date
    then extract_date unspec date format output_format = Some (Inl OutOfBounds) else True"
    using no_digit [of date] by (subst extract_date.simps) (simp add: list_ex_iff list_all_iff)
qed

section \<open>A printed date is found\<close>

lemma digits_val_0: "digits_val (CHR ''0'' # ds) = digits_val ds"
  by (simp add: digits_val_def digit_val_def)

lemma atoi_digits:
  assumes "list_all is_digit ds" "ds \<noteq> []" "digits_val ds < 2 ^ 31"
  shows "atoi ds = int (digits_val ds)"
proof -
  obtain c cs where ds: "ds = c # cs" "is_digit c" using assms(1,2) by (cases ds) auto
  have "NUL \<notin> set ds" using assms(1) by (auto simp: list_all_iff)
  moreover have "takeWhile is_digit ds = ds" using assms(1) by (simp add: takeWhile_eq_all_conv list_all_iff)
  then have "int (digits_val (takeWhile is_digit (c # cs))) = int (digits_val (c # cs))" using ds(1) by simp
  moreover have "c \<notin> set white_space" "c \<noteq> CHR ''-''" "c \<noteq> CHR ''+''" using ds(2) is_digit_not by blast+
  ultimately show ?thesis
    using assms(3) ds(2) unfolding ds(1)
    by (simp add: atoi_def Let_def c_str_id clamp_long_def wrap_int_def)
qed

lemma show_nat_field:
  "list_all is_digit (show_nat n)" "n < 2 ^ 31 \<Longrightarrow> atoi (show_nat n) = int n"
  using show_nat_digits atoi_digits [of "show_nat n"] by (auto simp: list_all_iff)

lemma two_field:
  assumes "n < 100"
  shows "list_all is_digit (two (int n))" "length (two (int n)) = 2" "atoi (two (int n)) = int n"
proof -
  have "is_digit (CHR ''0'')" by (simp add: is_digit_def)
  then show d: "list_all is_digit (two (int n))"
    using show_nat_field(1) by (simp add: two_def show_int_def)
  show "length (two (int n)) = 2"
    using assms div_less_iff_less_mult [of 10 n 10] by (simp add: two_def show_int_def show_nat.simps)
  moreover have "digits_val (two (int n)) = n" by (simp add: two_def show_int_def digits_val_0)
  ultimately show "atoi (two (int n)) = int n"
    using d assms by (subst atoi_digits) auto
qed

lemma length_show_nat_4:
  assumes "1000 \<le> n" "n \<le> 9999"
  shows "length (show_nat n) = 4"
proof -
  have "n div 10 div 10 div 10 < 10" "10 \<le> n div 10 div 10" "10 \<le> n div 10" "10 \<le> n"
    using assms by linarith+
  then show ?thesis
    by (simp add: show_nat.simps [of n] show_nat.simps [of "n div 10"] show_nat.simps [of "n div 10 div 10"]
        show_nat.simps [of "n div 10 div 10 div 10"])
qed

lemma date_loop_field:
  assumes "is_field f" "list_all is_digit ds" "length ds = len" "ds \<noteq> []" "len \<le> 6"
    and "set_field f ds t = Inr (Some t')"
  shows "date_loop (ds @ r # rs) ((f, len) # ps) t = date_loop (r # rs) ps t'"
  using assms scan_field [of f ds len r rs] by simp

lemma date_loop_separator:
  assumes "s = [c]" "c \<notin> set date_letters" "\<not> is_digit c" "c \<noteq> NUL"
  shows "date_loop (c # rs) ((s, Suc 0) # ps) t = date_loop rs ps t"
proof -
  have no: "\<not> is_field s" using assms(1,2) is_field_hd by fastforce
  have "\<not> contains s date_letters"
    using part_ok_separator [of s 1] no assms(1,2) by (simp add: part_ok_def)
  then have "scan_date (c # rs) s (Suc 0) = Inr s" using scan_separator [of s "[c]" "Suc 0" rs] assms(1,3,4) by simp
  moreover have "set_field s s t = Inr (Some t)" using no by (simp add: set_field_def is_field_def)
  ultimately show ?thesis using assms(1) no by simp
qed

lemma set_fields:
  assumes "n < 100"
  shows "1 \<le> n \<Longrightarrow> set_field ''M'' (two (int n)) t = Inr (Some (t\<lparr>tm_mon := int n - 1\<rparr>))"
    "1 \<le> n \<Longrightarrow> set_field ''D'' (two (int n)) t = Inr (Some (t\<lparr>tm_mday := int n\<rparr>))"
    "n \<le> 24 \<Longrightarrow> set_field ''H'' (two (int n)) t = Inr (Some (t\<lparr>tm_hour := int n\<rparr>))"
    "n \<le> 60 \<Longrightarrow> set_field ''m'' (two (int n)) t = Inr (Some (t\<lparr>tm_min := int n\<rparr>))"
    "n \<le> 60 \<Longrightarrow> set_field ''S'' (two (int n)) t = Inr (Some (t\<lparr>tm_sec := int n\<rparr>))"
  using two_field(3) [OF assms] assms by (auto simp: set_field_def check_int_def int_ok_def)

lemma set_year:
  "n \<le> 9999 \<Longrightarrow> set_field ''Y'' (show_nat n) t = Inr (Some (t\<lparr>tm_year := int n - 1900\<rparr>))"
  using show_nat_field(2) [of n] by (simp add: set_field_def check_int_def int_ok_def)

lemma date_loop_two:
  assumes "n < 100" "is_field f" "set_field f (two (int n)) t = Inr (Some t')"
  shows "date_loop (two (int n) @ r # rs) ((f, 2) # ps) t = date_loop (r # rs) ps t'"
  using date_loop_field [OF assms(2) _ _ _ _ assms(3)] two_field [OF assms(1)] by fastforce

lemma date_loop_year:
  assumes "1000 \<le> n" "n \<le> 9999"
  shows "date_loop (show_nat n @ r # rs) ((''Y'', 4) # ps) t = date_loop (r # rs) ps (t\<lparr>tm_year := int n - 1900\<rparr>)"
  using date_loop_field [OF _ show_nat_field(1) length_show_nat_4 [OF assms] show_nat_nonempty _ set_year [OF assms(2)]]
  by (simp add: is_field_def)

definition date_text :: "nat \<Rightarrow> nat \<Rightarrow> nat \<Rightarrow> nat \<Rightarrow> nat \<Rightarrow> nat \<Rightarrow> bytes" where
  "date_text y mo d h mi s =
     show_nat y @ ''-'' @ two (int mo) @ ''-'' @ two (int d) @ '' '' @
     two (int h) @ '':'' @ two (int mi) @ '':'' @ two (int s)"

definition date_of :: "nat \<Rightarrow> nat \<Rightarrow> nat \<Rightarrow> nat \<Rightarrow> nat \<Rightarrow> nat \<Rightarrow> tm" where
  "date_of y mo d h mi s = \<lparr>tm_year = int y - 1900, tm_mon = int mo - 1, tm_mday = int d,
     tm_hour = int h, tm_min = int mi, tm_sec = int s\<rparr>"

definition full_format :: "(bytes \<times> nat) list" where
  "full_format = [(''Y'', 4), (''-'', 1), (''M'', 2), (''-'', 1), (''D'', 2), ('' '', 1),
     (''H'', 2), ('':'', 1), (''m'', 2), ('':'', 1), (''S'', 2)]"

lemma full_format: "get_date_format ''YYYY-MM-DD HH:mm:SS'' = full_format"
  by code_simp

lemma date_loop_text:
  assumes "1000 \<le> y" "y \<le> 9999" "1 \<le> mo" "mo \<le> 12" "1 \<le> d" "d \<le> 31" "h \<le> 23" "mi \<le> 59" "s \<le> 60"
  shows "date_loop (date_text y mo d h mi s @ r # rs) full_format no_date = Inr (Filled (date_of y mo d h mi s))"
proof -
  have "is_field ''M''" "is_field ''D''" "is_field ''H''" "is_field ''m''" "is_field ''S''"
    by (simp_all add: is_field_def)
  moreover have "c \<notin> set date_letters" "\<not> is_digit c" "c \<noteq> NUL"
    if "c = CHR ''-'' \<or> c = CHR '' '' \<or> c = CHR '':''" for c
    using that by (auto simp: date_letters_def is_digit_def)
  ultimately show ?thesis
    using assms unfolding date_text_def full_format_def date_of_def no_date_def
    by (simp add: date_loop_year date_loop_two date_loop_separator set_fields del: date_loop.simps(2))
qed

lemma print_date_text:
  assumes "1000 \<le> y" "y \<le> 9999" "1 \<le> mo" "mo \<le> 12" "1 \<le> d" "d \<le> 31" "h \<le> 23" "mi \<le> 59" "s \<le> 60"
  shows "print_date unspec ''%Y-%m-%d %T'' (date_of y mo d h mi s) = Inr (date_text y mo d h mi s)"
proof -
  have two: "length (two (int n)) = 2" "list_all is_digit (two (int n))" if "n < 100" for n
    using two_field [OF that] by auto
  have nul: "NUL \<notin> set ds" if "list_all is_digit ds" for ds using that by (auto simp: list_all_iff)
  have "strftime unspec ''%Y-%m-%d %T'' (date_of y mo d h mi s) = date_text y mo d h mi s"
    using assms by (simp add: date_of_def date_text_def conversion_def in_range_def show_int_def)
  moreover have "c_str ''%Y-%m-%d %T'' = ''%Y-%m-%d %T''" by code_simp
  moreover have "length (date_text y mo d h mi s) = 19"
    using assms two(1) length_show_nat_4 by (simp add: date_text_def)
  moreover have "NUL \<notin> set (date_text y mo d h mi s)"
    using assms nul [OF two(2)] nul [OF show_nat_field(1)] by (simp add: date_text_def)
  ultimately show ?thesis by (simp add: print_date_def c_str_id)
qed

lemma extract_date_text:
  assumes "1000 \<le> y" "y \<le> 9999" "1 \<le> mo" "mo \<le> 12" "1 \<le> d" "d \<le> 31" "h \<le> 23" "mi \<le> 59" "s \<le> 60"
    and "list_all (\<lambda>c. \<not> is_digit c) pre"
    and "length (pre @ date_text y mo d h mi s @ rest) \<le> 900"
  shows "extract_date unspec (pre @ date_text y mo d h mi s @ rest) ''YYYY-MM-DD HH:mm:SS'' ''%Y-%m-%d %T''
      = Some (Inr (date_text y mo d h mi s))"
proof -
  obtain c cs where c: "date_text y mo d h mi s = c # cs" "is_digit c"
    using show_nat_hd [of y] by (auto simp: date_text_def)
  obtain r rs where r: "rest @ [NUL] = r # rs" by (cases rest) auto
  have "dropWhile (\<lambda>c. \<not> is_digit c) ((pre @ date_text y mo d h mi s @ rest) @ [NUL])
      = date_text y mo d h mi s @ r # rs"
    using assms(10) c r by (simp add: dropWhile_append list_all_iff flip: r)
  moreover have "date_text y mo d h mi s @ r # rs \<noteq> []" "pre @ date_text y mo d h mi s @ rest \<noteq> []"
    using c(1) by auto
  ultimately show ?thesis
    using assms(11) date_loop_text [OF assms(1-9)] print_date_text [OF assms(1-9)]
    by (subst extract_date.simps) (simp add: full_format, simp add: full_format_def)
qed

text \<open>C36.  A date printed as \<open>2009-06-11 08:34:35\<close> is found in every text of at most 900 bytes, however the text
  goes on, when no digit stands in front of it; cleaning leaves a text alone that has no line ends
  and no double spaces.\<close>

theorem get_date_printed:
  assumes "1000 \<le> y" "y \<le> 9999" "1 \<le> mo" "mo \<le> 12" "1 \<le> d" "d \<le> 31" "h \<le> 23" "mi \<le> 59" "s \<le> 60"
    and "list_all (\<lambda>c. \<not> is_digit c) pre"
    and "length (pre @ date_text y mo d h mi s @ rest) \<le> 900"
    and "list_all (\<lambda>c. c \<notin> {CHR 0x0D, NL}) (pre @ rest)"
    and "regexec spaces_pat (c_str (pre @ date_text y mo d h mi s @ rest)) = None"
  shows "get_date unspec (pre @ date_text y mo d h mi s @ rest) ''YYYY-MM-DD HH:mm:SS''
      = Some (Inr (date_text y mo d h mi s), pre @ date_text y mo d h mi s @ rest)"
proof -
  have "list_all (\<lambda>c. c \<notin> {CHR 0x0D, NL}) ds" if "list_all is_digit ds" for ds
    using that by (rule list.pred_mono_strong) (auto simp: is_digit_def)
  note nl = this [OF two_field(1)] this [OF show_nat_field(1)]
  have "list_all (\<lambda>c. c \<notin> {CHR 0x0D, NL}) (pre @ date_text y mo d h mi s @ rest)"
    using assms nl(1) [of mo] nl(1) [of d] nl(1) [of h] nl(1) [of mi] nl(1) [of s] nl(2) [of y]
    by (simp add: date_text_def)
  then have "remove_invalid_chars (pre @ date_text y mo d h mi s @ rest) 0 = pre @ date_text y mo d h mi s @ rest"
    unfolding remove_invalid_chars_eq by (simp add: filter_id_conv list_all_iff)
  then show ?thesis
    using extract_date_text [OF assms(1-11)] assms(13)
    unfolding get_date_def get_date_as_def by (subst string_replace.simps) simp
qed

lemma get_date_printed_witness:
  "get_date (\<lambda>_ _. []) ''posted 2009-06-11 08:34:35 by X'' ''YYYY-MM-DD HH:mm:SS''
     = Some (Inr ''2009-06-11 08:34:35'', ''posted 2009-06-11 08:34:35 by X'')"
proof -
  have t: "date_text 2009 6 11 8 34 35 = ''2009-06-11 08:34:35''"
    by (simp add: date_text_def two_def show_int_def show_nat_eval)
  have "regexec spaces_pat (c_str (''posted '' @ date_text 2009 6 11 8 34 35 @ '' by X'')) = None"
    unfolding t by code_simp
  then show ?thesis
    using get_date_printed [of 2009 6 11 8 34 35 "''posted ''" "'' by X''"]
    unfolding t by (simp add: is_digit_def)
qed

end
