(* ===== verification/Keywords.thy ===== *)
theory Keywords
  imports BlockCluster DateFormat Dom
begin

text \<open>
  The keyword patterns of \<open>DisCrawler/DOMAttUtil/analysis.cpp\<close>, and what \<open>BlockUtils.cpp\<close> and
  \<open>BlockCluster.cpp\<close> build on them: which node of a page is the date, the author or the source.  A pattern of
  which only the question matters whether it matches is a \<open>regex\<close>.  Where sub-matches are used, \<open>regexec\<close> of
  the C library is the argument \<open>rx\<close>: it takes the pattern, \<open>nmatch\<close> and the text, and gives the array of
  bounds \<open>(rm_so, rm_eo)\<close>, or \<open>None\<close> when the pattern does not compile or does not match.
\<close>

section \<open>Words and patterns\<close>

text \<open>The words are written in UTF-8 in the sources.\<close>

definition wd_author :: bytes where "wd_author = [CHR 0xE4, CHR 0xBD, CHR 0x9C, CHR 0xE8, CHR 0x80, CHR 0x85]"
definition wd_reporter :: bytes where "wd_reporter = [CHR 0xE8, CHR 0xAE, CHR 0xB0, CHR 0xE8, CHR 0x80, CHR 0x85]"
definition wd_by :: bytes where "wd_by = [CHR 0xE6, CHR 0x96, CHR 0x87]"
definition wd_wide_slash :: bytes where "wd_wide_slash = [CHR 0xEF, CHR 0xBC, CHR 0x8F]"
definition wd_wide_colon :: bytes where "wd_wide_colon = [CHR 0xEF, CHR 0xBC, CHR 0x9A]"
definition wd_open :: bytes where "wd_open = [CHR 0xEF, CHR 0xBC, CHR 0x88]"
definition wd_close :: bytes where "wd_close = [CHR 0xEF, CHR 0xBC, CHR 0x89]"
definition wd_source :: bytes where "wd_source = [CHR 0xE6, CHR 0x9D, CHR 0xA5, CHR 0xE6, CHR 0xBA, CHR 0x90]"
definition wd_reprint :: bytes where "wd_reprint = [CHR 0xE8, CHR 0xBD, CHR 0xAC, CHR 0xE8, CHR 0xBD, CHR 0xBD]"
definition wd_article :: bytes where "wd_article = [CHR 0xE6, CHR 0x96, CHR 0x87, CHR 0xE7, CHR 0xAB, CHR 0xA0]"
definition wd_site :: bytes where "wd_site = [CHR 0xE7, CHR 0xBD, CHR 0x91]"
definition wd_paper :: bytes where "wd_paper = [CHR 0xE6, CHR 0x8A, CHR 0xA5]"
definition wd_agency :: bytes where "wd_agency = [CHR 0xE7, CHR 0xA4, CHR 0xBE]"
definition wd_stop :: bytes where "wd_stop = [CHR 0xE3, CHR 0x80, CHR 0x82]"
definition wd_year :: bytes where "wd_year = [CHR 0xE5, CHR 0xB9, CHR 0xB4]"
definition wd_month :: bytes where "wd_month = [CHR 0xE6, CHR 0x9C, CHR 0x88]"
definition wd_day :: bytes where "wd_day = [CHR 0xE6, CHR 0x97, CHR 0xA5]"
definition wd_week :: bytes where "wd_week = [CHR 0xE6, CHR 0x98, CHR 0x9F, CHR 0xE6, CHR 0x9C, CHR 0x9F]"
definition wd_previous :: bytes where "wd_previous = [CHR 0xE4, CHR 0xB8, CHR 0x8A]"
definition wd_next :: bytes where "wd_next = [CHR 0xE4, CHR 0xB8, CHR 0x8B]"
definition wd_page :: bytes where "wd_page = [CHR 0xE9, CHR 0xA1, CHR 0xB5]"
definition wd_rights :: bytes where "wd_rights = [CHR 0xE7, CHR 0x89, CHR 0x88, CHR 0xE6, CHR 0x9D, CHR 0x83]"
definition wd_grant :: bytes where "wd_grant = [CHR 0xE6, CHR 0x8E, CHR 0x88, CHR 0xE6, CHR 0x9D, CHR 0x83]"

definition wide_digit :: "nat \<Rightarrow> bytes" where
  "wide_digit n = [CHR 0xEF, CHR 0xBC, char_of (0x90 + n)]"

definition zh_digit :: "nat \<Rightarrow> bytes" where
  "zh_digit n =
     [[CHR 0xE4, CHR 0xB8, CHR 0x80],
      [CHR 0xE4, CHR 0xBA, CHR 0x8C],
      [CHR 0xE4, CHR 0xB8, CHR 0x89],
      [CHR 0xE5, CHR 0x9B, CHR 0x9B],
      [CHR 0xE4, CHR 0xBA, CHR 0x94],
      [CHR 0xE5, CHR 0x85, CHR 0xAD]] ! (n - 1)"

text \<open>A pattern with \<open>%\<close> for the backslash.\<close>

definition bre :: "bytes \<Rightarrow> bytes" where
  "bre s = map (\<lambda>c. if c = CHR ''%'' then CHR 0x5C else c) s"

definition author_pat :: bytes where
  "author_pat =
     bre ''%(^%|'' @ wd_open @ bre ''%|(%| %|'' @ wide_space @ bre ''%)%('' @ wd_author @ bre ''%|''
      @ wd_reporter @ bre ''%|'' @ wd_by @ bre ''%)%('' @ wd_wide_slash @ bre ''%|/%|:%|''
      @ wd_wide_colon @ bre ''%| %|'' @ wide_space @ bre ''%)%(%s%|'' @ wide_space @ bre ''%)*%([^ ()''
      @ wd_open @ wd_close @ bre '']%{,30%}%?%)%('' @ wd_source @ bre ''%|[0-9]%|'' @ wd_reprint
      @ bre ''%|%s%|'' @ wide_space @ bre ''%| %|$%|[ ()}]%|'' @ wd_open @ bre ''%|'' @ wd_close
      @ bre ''%)''"

definition source_pat :: bytes where
  "source_pat =
     bre ''%(^%|'' @ wd_open @ bre ''%|(%| %|'' @ wide_space @ bre ''%)%('' @ wd_source @ bre ''%|''
      @ wd_reprint @ bre ''%)%(:%|'' @ wd_wide_colon @ bre ''%| %|'' @ wide_space @ bre ''%)%(%s%|''
      @ wide_space @ bre ''%)*%([^ ()'' @ wd_open @ wd_close @ bre '']%{,100%}%?%)%('' @ wd_by
      @ wd_wide_slash @ bre ''%|'' @ wd_by @ bre ''/%|'' @ wd_article @ bre ''%|[0-9]%|'' @ wd_author
      @ bre ''%|'' @ wd_reporter @ bre ''%|%s%|'' @ wide_space @ bre ''%|[ {}()]%|'' @ wd_open
      @ bre ''%|'' @ wd_close @ bre ''%|$%)''"

definition date_parts_pat :: bytes where
  "date_parts_pat =
     bre ''%(.*%)%('' @ wd_year @ bre ''%)%(.*%)%('' @ wd_month @ bre ''%)%([^'' @ wd_week
      @ bre '']*%)%('' @ wd_day @ bre ''%)%([^'' @ wd_week @ bre '']*%)%('' @ wd_week
      @ bre ''%)%?%(.*%)''"

definition date_word_pat :: bytes where
  "date_word_pat =
     bre ''^%([0-9]%|'' @ (wide_digit 0) @ bre ''%|'' @ (wide_digit 1) @ bre ''%|'' @ (wide_digit 2)
      @ bre ''%|'' @ (wide_digit 3) @ bre ''%|'' @ (wide_digit 4) @ bre ''%|'' @ (wide_digit 5)
      @ bre ''%|'' @ (wide_digit 6) @ bre ''%|'' @ (wide_digit 7) @ bre ''%|'' @ (wide_digit 8)
      @ bre ''%|'' @ (wide_digit 9) @ bre ''%|'' @ (zh_digit 1) @ bre ''%|'' @ (zh_digit 2)
      @ bre ''%|'' @ (zh_digit 3) @ bre ''%|'' @ (zh_digit 4) @ bre ''%|'' @ (zh_digit 5) @ bre ''%|''
      @ (zh_digit 6) @ bre ''%|'' @ wd_day @ bre ''%|'' @ wd_year @ bre ''%|'' @ wd_month @ bre ''%|''
      @ wd_week @ bre ''%)%+$''"

definition date_pat :: bytes where
  "date_pat =
     bre (''%(0%?[1-9]%|[1-9][0-9]%|[1-9][0-9]%{3%}%)%([^0-9]%{1,6%}%)%(0%?[1-9]%|[1-9][0-9]%|[1-9][0-9]%{3%}%)'' @
          ''%([^0-9]%{1,6%}%)%(0%?[1-9]%|[1-9][0-9]%|[1-9][0-9]%{3%}%)%(%([^0-9]%+%)'' @
          ''%(%(0%?[0-9]%|[1-5][0-9]%)%([^0-9]%+%)%(0%?[0-9]%|[1-5][0-9]%)'' @
          ''%(%([^0-9]%+%)%(0%?[0-9]%|[1-5][0-9]%)%)%?%)%)%?'')"

section \<open>Tests of a text\<close>

text \<open>
  The dot of a pattern.  The patterns are matched in the C locale, where a character is one byte; in a
  multibyte locale, which \<open>gtk_init\<close> of the programs with a window may set, the dot stands for a whole character.
\<close>

definition any_byte :: regex where
  "any_byte = OneOf (map char_of [1..<256 :: nat])"

definition copyright_re :: regex where
  "copyright_re =
     Alts [Seq (OneOf ''Cc'') (Lit ''opyright''), Seq (Lit wd_rights) (Seq (Star any_byte) (Lit wd_grant)), Lit ''ICP'']"

definition has_word_copyright :: "bytes \<Rightarrow> bool" where
  "has_word_copyright text \<longleftrightarrow> regexec copyright_re (c_str text) \<noteq> None"

text \<open>A word for a site, a paper or an agency, before a space or a dash or at the end.\<close>

definition site_words :: "bytes list" where
  "site_words = [wd_site, wd_paper, wd_agency]"

definition site_re :: regex where
  "site_re = Seq (Alts (map Lit site_words)) (Alts [Lit '' '', Lit wide_space, Lit ''-''])"

definition has_word_site_or_paper :: "bytes \<Rightarrow> bool" where
  "has_word_site_or_paper text \<longleftrightarrow>
     regexec site_re (c_str text) \<noteq> None \<or> list_ex (\<lambda>w. suffix w (c_str text)) site_words"

text \<open>The whole text is a number, or leads to the previous or next page.\<close>

definition up_to_six :: "regex \<Rightarrow> regex" where
  "up_to_six r = ((\<lambda>q. Alt Empty (Seq r q)) ^^ 6) Empty"

definition nextpage_re :: regex where
  "nextpage_re =
     Alts [Plus (OneOf (map char_of [48..<58 :: nat])), Seq (Lit wd_previous) (Seq (up_to_six any_byte) (Lit wd_page)),
       Seq (Lit wd_next) (Seq (up_to_six any_byte) (Lit wd_page)), Plus (Lit ''>''), Plus (Lit ''<'')]"

definition full_match :: "regex \<Rightarrow> bytes \<Rightarrow> bool" where
  "full_match r s \<longleftrightarrow> nullable (fold deriv s r)"

definition is_nextpage_text :: "bytes \<Rightarrow> bool" where
  "is_nextpage_text text \<longleftrightarrow> full_match nextpage_re (c_str (string_filter text))"

section \<open>Sub-matches\<close>

type_synonym matcher = "bytes \<Rightarrow> nat \<Rightarrow> bytes \<Rightarrow> (int \<times> int) list option"

text \<open>What the C library documents of the bounds: unused ones are -1, the others lie in the text.\<close>

definition matcher_ok :: "matcher \<Rightarrow> bool" where
  "matcher_ok rx \<longleftrightarrow>
     (\<forall>pat n s pm. rx pat n s = Some pm \<longrightarrow>
        length pm = n \<and> list_all (\<lambda>(so, eo). so = - 1 \<and> eo = - 1 \<or> 0 \<le> so \<and> so \<le> eo \<and> eo \<le> int (length s)) pm)"

text \<open>\<open>strncpy\<close> from the text into a buffer, which is then read as a string.\<close>

definition sub_text :: "bytes \<Rightarrow> int \<times> int \<Rightarrow> bytes" where
  "sub_text s p = (let (so, eo) = p in take (nat (eo - so)) (drop (nat so) (c_str s)))"

text \<open>The loop over the sub-matches of \<open>extract_author\<close> and \<open>extract_source\<close> takes the fifth.\<close>

definition extract_fifth :: "matcher \<Rightarrow> bytes \<Rightarrow> bytes \<Rightarrow> bytes run" where
  "extract_fifth rx pat text =
     (case string_replace text newline_pat ''  '' of
        None \<Rightarrow> None
      | Some text \<Rightarrow>
          Some (Inr (case rx pat 10 (c_str text) of
                       None \<Rightarrow> []
                     | Some pm \<Rightarrow> if fst (pm ! 5) \<noteq> - 1 then sub_text text (pm ! 5) else [])))"

definition extract_author :: "matcher \<Rightarrow> bytes \<Rightarrow> bytes run" where
  "extract_author rx text = extract_fifth rx author_pat text"

definition extract_source :: "matcher \<Rightarrow> bytes \<Rightarrow> bytes run" where
  "extract_source rx text = extract_fifth rx source_pat text"

text \<open>\<open>rfind(pat, pos)\<close>: the last position up to \<open>pos\<close> where \<open>pat\<close> occurs.\<close>

definition rfind_upto :: "bytes \<Rightarrow> bytes \<Rightarrow> nat \<Rightarrow> nat option" where
  "rfind_upto pat s pos = find (\<lambda>i. prefix pat (drop i s)) (rev [0..<Suc (min pos (length s))])"

text \<open>
  \<open>find_author\<close> and \<open>find_source\<close> look at the first and last sentences of a long text: from the start to the
  last full stop up to byte 512, then from the first full stop in the last 512 bytes.
\<close>

definition find_ends :: "(bytes \<Rightarrow> bytes run) \<Rightarrow> bytes \<Rightarrow> bytes run" where
  "find_ends extract text =
     (if 1024 < int_of_size (length text) then
        bindR (case rfind_upto wd_stop text 512 of None \<Rightarrow> Some (Inr []) | Some found \<Rightarrow> extract (take found text)) (\<lambda>author.
          if author \<noteq> [] then Some (Inr author)
          else case find_from wd_stop text (length text - 512) of
                 None \<Rightarrow> Some (Inr author)
               | Some found \<Rightarrow> extract (drop found text))
      else extract text)"

definition find_author :: "matcher \<Rightarrow> bytes \<Rightarrow> bytes run" where
  "find_author rx text = find_ends (extract_author rx) text"

definition find_source :: "matcher \<Rightarrow> bytes \<Rightarrow> bytes run" where
  "find_source rx text = find_ends (extract_source rx) text"

definition match :: "matcher \<Rightarrow> bytes \<Rightarrow> bytes \<Rightarrow> bool" where
  "match rx text pat \<longleftrightarrow> text \<noteq> [] \<and> rx (c_str pat) 10 (c_str text) \<noteq> None"

section \<open>Dates\<close>

definition blank_run_pat :: regex where
  "blank_run_pat = Plus (Alts [OneOf [NL], OneOf [CHR 0x20], Lit wide_space])"

definition date_words_length :: "matcher \<Rightarrow> bytes \<Rightarrow> (int \<times> int) list \<Rightarrow> int" where
  "date_words_length rx text pm =
     fold (\<lambda>p n. if fst p \<noteq> - 1 \<and> match rx (sub_text text p) date_word_pat then n + (snd p - fst p) else n) (drop 1 pm) 0"

definition all_words_relate_date :: "matcher \<Rightarrow> bytes \<Rightarrow> flt run" where
  "all_words_relate_date rx text =
     (case string_replace text blank_run_pat [] of
        None \<Rightarrow> None
      | Some text \<Rightarrow>
          let n = (case rx date_parts_pat 10 (c_str text) of None \<Rightarrow> 0 | Some pm \<Rightarrow> date_words_length rx text pm)
          in Some (Inr (fdiv f32 (f32_of_int n) (f32 (of_nat (length text))))))"

text \<open>
  \<open>length[i]\<close> is -1 for an unused sub-match.  The byte tested for a separator is read at \<open>n - 1\<close> from the start of
  the text, not of the sub-match.
\<close>

definition group_length :: "(int \<times> int) list \<Rightarrow> nat \<Rightarrow> int" where
  "group_length pm i = (if fst (pm ! i) \<noteq> - 1 then snd (pm ! i) - fst (pm ! i) else - 1)"

definition separator_test :: "bytes \<Rightarrow> (int \<times> int) list \<Rightarrow> nat \<Rightarrow> bool \<Rightarrow> bool res" where
  "separator_test d pm i b =
     (if fst (pm ! i) \<noteq> - 1 then
        let n = group_length pm i - 1
        in if n < 0 \<or> int (length d) < n then Inl OutOfBounds
           else Inr (b \<or> char_at d (nat n) \<in> set ''-/:'')
      else Inr b)"

definition is_date_format2 :: "matcher \<Rightarrow> bytes \<Rightarrow> bytes \<Rightarrow> flt res" where
  "is_date_format2 rx d reg =
     (case rx reg 20 (c_str d) of
        None \<Rightarrow> Inr (p_date [0, 0, 0, 0, 0, 0])
      | Some pm \<Rightarrow>
          bindE (separator_test d pm 2 False) (\<lambda>b. bindE (separator_test d pm 10 b) (\<lambda>b.
            let l = group_length pm; v = (\<lambda>c. if c then 1 else 0 :: int)
            in Inr (p_date [1, v (l 2 = l 4 \<and> 0 \<le> l 2), v (0 < l 9 \<and> 0 < l 11 \<and> 0 < l 13),
                       v (l 10 = l 12 \<and> 0 < l 10), v (embed_word_year d), v b]))))"

definition is_date_format :: "matcher \<Rightarrow> bytes \<Rightarrow> flt res" where
  "is_date_format rx d = is_date_format2 rx d date_pat"


section \<open>Nodes with an author or a source\<close>

definition tool_wrap_author :: "matcher \<Rightarrow> block_list \<Rightarrow> bytes \<Rightarrow> bytes run" where
  "tool_wrap_author rx bl author_path =
     foldR (\<lambda>bn author. if node_path bn = author_path then extract_author rx (node_text bn) else Some (Inr author))
       (blocks bl) []"

text \<open>
  The nodes after one with a source word, up to the first link whose path does not contain the node's path:
  the text of the first link below that is accepted, or what was found before.
\<close>

fun link_source :: "(bytes \<Rightarrow> bool) \<Rightarrow> bytes \<Rightarrow> bytes \<Rightarrow> block_node list \<Rightarrow> bytes" where
  "link_source accept path source [] = source"
| "link_source accept path source (bn1 # it) =
     (if node_name bn1 \<noteq> ''A'' then link_source accept path source it
      else if contains path (node_path bn1) then
        (if accept (node_text bn1) then node_text bn1 else link_source accept path source it)
      else source)"

fun tool_source_loop :: "matcher \<Rightarrow> bytes \<Rightarrow> bytes \<Rightarrow> block_node list \<Rightarrow> bytes run" where
  "tool_source_loop rx source_path source [] = Some (Inr source)"
| "tool_source_loop rx source_path source (bn # it) =
     (if node_path bn = source_path then
        bindR (extract_source rx (node_text bn)) (\<lambda>source_tmp.
          let source = (if has_word_site_or_paper source_tmp then source_tmp else source)
          in if has_word_source (node_text bn)
             then Some (Inr (link_source has_word_site_or_paper (node_path bn) source it))
             else tool_source_loop rx source_path source it)
      else tool_source_loop rx source_path source it)"

definition tool_wrap_source :: "matcher \<Rightarrow> block_list \<Rightarrow> bytes \<Rightarrow> bytes run" where
  "tool_wrap_source rx bl source_path = tool_source_loop rx source_path [] (blocks bl)"

text \<open>\<open>wrap_author\<close> takes the text of the node after a word for the author when nothing else is found.\<close>

fun author_loop :: "matcher \<Rightarrow> block_list \<Rightarrow> bytes \<Rightarrow> bytes \<Rightarrow> block_node list \<Rightarrow> bytes run" where
  "author_loop rx bl s_path author [] = Some (Inr author)"
| "author_loop rx bl s_path author (bn # it) =
     (if node_path bn = s_path then
        let text = GetPathText bl (node_path bn)
        in bindR (extract_author rx text) (\<lambda>author.
             if author = [] then
               author_loop rx bl s_path
                 (case it of
                    bn1 # _ \<Rightarrow>
                      (if has_word_author text \<and> contains (node_path bn) (node_path bn1) then node_text bn1 else author)
                  | [] \<Rightarrow> author) it
             else Some (Inr author))
      else author_loop rx bl s_path author it)"

definition wrap_author :: "matcher \<Rightarrow> block_cluster \<Rightarrow> block_list \<Rightarrow> bytes run" where
  "wrap_author rx c bl = author_loop rx bl (GetAuthorPath c) [] (blocks bl)"

fun source_loop :: "matcher \<Rightarrow> block_list \<Rightarrow> bytes \<Rightarrow> bytes \<Rightarrow> block_node list \<Rightarrow> bytes run" where
  "source_loop rx bl s_path source [] = Some (Inr source)"
| "source_loop rx bl s_path source (bn # it) =
     (if node_path bn = s_path then
        let text = GetPathText bl (node_path bn)
        in bindR (extract_source rx text) (\<lambda>source.
             if has_word_source text then Some (Inr (link_source (\<lambda>_. True) (node_path bn) source it))
             else source_loop rx bl s_path source it)
      else source_loop rx bl s_path source it)"

definition wrap_source :: "matcher \<Rightarrow> block_cluster \<Rightarrow> block_list \<Rightarrow> bytes run" where
  "wrap_source rx c bl = source_loop rx bl (GetSourcePath c) [] (blocks bl)"

definition wrap_date :: "(char \<Rightarrow> tm \<Rightarrow> bytes) \<Rightarrow> block_cluster \<Rightarrow> block_list \<Rightarrow> bytes \<Rightarrow> bytes run" where
  "wrap_date unspec c bl date_format =
     (let path = GetDatePath c
      in if 0 < length path then map_option fst (get_date unspec (GetPathText bl path) date_format) else Some (Inr []))"

section \<open>Rules for the date, the author and the source\<close>

definition is_date_node :: "matcher \<Rightarrow> bytes \<Rightarrow> flt run" where
  "is_date_node rx text =
     bindR (Some (is_date_format rx text)) (\<lambda>S.
       if \<not> has_word_copyright text \<and> length text < 200 then
         (if flt_less S (Fin (1 / 2)) then
            bindR (all_words_relate_date rx text) (\<lambda>p_date.
              Some (Inr (if flt_less (f64 (8 / 10)) p_date then p_date else S)))
          else Some (Inr S))
       else Some (Inr (Fin 0)))"

text \<open>What one path is, from the pages so far.\<close>

record path_role =
  date_th :: flt
  is_date :: bool
  is_author :: bool
  is_source :: bool

text \<open>\<open>w <= 0 && w > 200\<close> is never true.\<close>

definition role_step :: "matcher \<Rightarrow> bytes \<Rightarrow> int \<Rightarrow> int \<Rightarrow> block_list \<Rightarrow> path_role \<Rightarrow> path_role run" where
  "role_step rx path count cluster_size bl s =
     (let text = GetPathText bl path; w = int_of_size (length text)
      in if w \<le> 0 \<and> 200 < w then Some (Inr s)
         else
           bindR (if flt_less (fdiv f32 (f32_of_int count) (f32_of_int cluster_size)) (Fin 3) then
                    bindR (is_date_node rx text) (\<lambda>p.
                      Some (Inr (if flt_le (date_th s) p then s\<lparr>is_date := True, date_th := p\<rparr> else s)))
                  else Some (Inr s))
             (\<lambda>s. Some (Inr (s\<lparr>is_author := is_author s \<or> is_author_node text, is_source := is_source s \<or> is_source_node text\<rparr>))))"

abbreviation RULE_DATE :: bytes where "RULE_DATE \<equiv> ''date''"
abbreviation RULE_AUTHOR :: bytes where "RULE_AUTHOR \<equiv> ''author''"
abbreviation RULE_SOURCE :: bytes where "RULE_SOURCE \<equiv> ''source''"
abbreviation RULE_AUTHOR_SOURCE :: bytes where "RULE_AUTHOR_SOURCE \<equiv> ''a&s''"

definition set_role :: "bytes \<Rightarrow> path_role \<Rightarrow> block_cluster \<Rightarrow> block_cluster" where
  "set_role path s c =
     (let c = (if is_date s then SetRule RULE_DATE path c else c)
      in if is_author s \<and> is_source s then SetRule RULE_AUTHOR_SOURCE path c
         else if is_author s then SetRule RULE_AUTHOR path c
         else if is_source s then SetRule RULE_SOURCE path c
         else c)"

definition role_of_path :: "matcher \<Rightarrow> block_list list \<Rightarrow> bytes \<times> int \<Rightarrow> flt \<Rightarrow> path_role run" where
  "role_of_path rx bls e th =
     foldR (role_step rx (fst e) (snd e) (int_of_size (length bls))) bls
       \<lparr>date_th = th, is_date = False, is_author = False, is_source = False\<rparr>"

definition role_path :: "matcher \<Rightarrow> bytes \<times> int \<Rightarrow> flt \<times> block_cluster \<Rightarrow> (flt \<times> block_cluster) run" where
  "role_path rx e s =
     (let (th, c) = s
      in if fst e = main_section_path c then Some (Inr (th, c))
         else
           bindR (role_of_path rx (pages c) e th) (\<lambda>r.
             Some (Inr (if is_date r \<and> is_source r then Fin 2 else date_th r, set_role (fst e) r c))))"

definition analyze_date_author_source :: "matcher \<Rightarrow> block_cluster \<Rightarrow> block_cluster run" where
  "analyze_date_author_source rx c =
     bindR (foldR (role_path rx) (all_valid_node c) (Fin (1 / 2), c)) (\<lambda>(th, c). Some (Inr c))"

section \<open>The older search for common nodes\<close>

text \<open>
  \<open>find_common\<close> follows two lists at once.  \<open>it1\<close> is one behind \<open>i\<close>; after the last node has matched it is
  moved past the end and not used again.  The inner loop is at \<open>j\<close>; its result is \<open>(i, k, lst)\<close>.
\<close>

fun match_run :: "bool \<Rightarrow> block_node list \<Rightarrow> block_node list \<Rightarrow> nat list \<Rightarrow> nat \<Rightarrow> nat \<Rightarrow> block_node list \<Rightarrow>
    nat \<times> nat \<times> block_node list" where
  "match_run b list1 list2 [] i k lst = (i, k, lst)"
| "match_run b list1 list2 (j # js) i k lst =
     (let bn1 = list1 ! i; bn2 = list2 ! j
      in if same_node bn1 bn2 then
           let lst = lst @ [if \<not> b then bn1 else bn2]
           in if i + 1 = length list1 then (i + 1, k, lst)
              else match_run b list1 list2 js (i + 1) (j + 1) lst
         else match_run b list1 list2 js i k lst)"

lemma match_run_forward: "i \<le> fst (match_run b list1 list2 js i k lst)"
  by (induction b list1 list2 js i k lst rule: match_run.induct) (fastforce simp: Let_def)+

function match_from :: "bool \<Rightarrow> block_node list \<Rightarrow> block_node list \<Rightarrow> nat \<Rightarrow> nat \<Rightarrow> block_node list \<Rightarrow> block_node list" where
  "match_from b list1 list2 i k lst =
     (if i < length list1 then
        let r = match_run b list1 list2 [k..<length list2] i k lst
        in match_from b list1 list2 (fst r + 1) (fst (snd r)) (snd (snd r))
      else lst)"
  by pat_completeness auto
termination
  by (relation "measure (\<lambda>(b, l1, l2, i, k, lst). length l1 - i)")
    (auto simp: Let_def intro!: diff_less_mono2 le_imp_less_Suc match_run_forward)

declare match_from.simps [simp del]

definition find_common :: "block_node list \<Rightarrow> block_node list \<Rightarrow> block_node list" where
  "find_common l1 l2 =
     (let b = length l2 < length l1; (list1, list2) = (if b then (l1, l2) else (l2, l1))
      in match_from b list1 list2 0 0 [])"


section \<open>What the older search finds\<close>

lemma subseq_nths:
  "sorted_wrt (<) is \<Longrightarrow> \<forall>i \<in> set is. k \<le> i \<and> i < length xs \<Longrightarrow> subseq (map ((!) xs) is) (drop k xs)"
proof (induction "is" arbitrary: k)
  case (Cons i "is")
  have "drop k xs = take (i - k) (drop k xs) @ drop i xs"
    using Cons.prems(2) by (metis append_take_drop_id drop_drop le_add_diff_inverse2 list.set_intros(1))
  also have "drop i xs = xs ! i # drop (Suc i) xs" using Cons.prems(2) by (simp add: Cons_nth_drop_Suc)
  finally have d: "drop k xs = take (i - k) (drop k xs) @ xs ! i # drop (Suc i) xs" .
  have "subseq (map ((!) xs) is) (drop (Suc i) xs)" using Cons by (simp add: Suc_le_eq)
  then show ?case by (subst d) (simp add: list_emb_append2)
qed simp

text \<open>Pairs of positions of the two lists that rise in both and hold nodes of the same path.\<close>

definition matched :: "block_node list \<Rightarrow> block_node list \<Rightarrow> nat \<Rightarrow> nat \<Rightarrow> nat \<Rightarrow> nat \<Rightarrow> (nat \<times> nat) list \<Rightarrow> bool" where
  "matched list1 list2 i i' j j' ps \<longleftrightarrow>
     sorted_wrt (\<lambda>p q. fst p < fst q \<and> snd p < snd q) ps \<and>
     (\<forall>p \<in> set ps. i \<le> fst p \<and> fst p < i' \<and> j \<le> snd p \<and> snd p < j' \<and> same_node (list1 ! fst p) (list2 ! snd p))"

definition picks :: "bool \<Rightarrow> block_node list \<Rightarrow> block_node list \<Rightarrow> (nat \<times> nat) list \<Rightarrow> block_node list" where
  "picks b list1 list2 ps = map (\<lambda>p. if \<not> b then list1 ! fst p else list2 ! snd p) ps"

lemma match_run_pairs:
  assumes "i < length list1" "k \<le> j"
  shows "\<exists>ps i' k'. match_run b list1 list2 [j..<length list2] i k lst = (i', k', lst @ picks b list1 list2 ps)
    \<and> i' \<le> length list1 \<and> matched list1 list2 i i' j (if i' < length list1 then max k' j else length list2) ps
    \<and> (i' < length list1 \<longrightarrow> k \<le> k' \<and> k' \<le> max k (length list2))"
  using assms
proof (induction "length list2 - j" arbitrary: i j k lst)
  case 0
  then show ?case by (intro exI [of _ "[]"]) (auto simp: matched_def picks_def)
next
  case (Suc m)
  let ?bn = "if \<not> b then list1 ! i else list2 ! j"
  from Suc.hyps(2) have j: "j < length list2" and js: "[j..<length list2] = j # [Suc j..<length list2]"
    by (simp_all add: upt_conv_Cons)
  have m: "m = length list2 - Suc j" using Suc.hyps(2) by simp
  show ?case
  proof (cases "same_node (list1 ! i) (list2 ! j)")
    case False
    obtain ps i' k' where "match_run b list1 list2 [Suc j..<length list2] i k lst = (i', k', lst @ picks b list1 list2 ps)"
      "i' \<le> length list1" "matched list1 list2 i i' (Suc j) (if i' < length list1 then max k' (Suc j) else length list2) ps"
      "i' < length list1 \<longrightarrow> k \<le> k' \<and> k' \<le> max k (length list2)"
      using Suc.hyps(1) [OF m, of i k lst] Suc.prems by auto
    moreover from this(3) have "matched list1 list2 i i' j (if i' < length list1 then max k' j else length list2) ps"
      by (auto simp: matched_def split: if_splits)
    ultimately show ?thesis using False js by (intro exI [of _ ps] exI [of _ i'] exI [of _ k']) simp
  next
    case True
    show ?thesis
    proof (cases "i + 1 = length list1")
      case stop: True
      then show ?thesis
        using True js j by (intro exI [of _ "[(i, j)]"]) (simp add: matched_def picks_def)
    next
      case False
      obtain ps i' k' where r: "match_run b list1 list2 [Suc j..<length list2] (i + 1) (j + 1) (lst @ [?bn])
          = (i', k', (lst @ [?bn]) @ picks b list1 list2 ps)"
        "i' \<le> length list1" "matched list1 list2 (i + 1) i' (Suc j) (if i' < length list1 then max k' (Suc j) else length list2) ps"
        "i' < length list1 \<longrightarrow> j + 1 \<le> k' \<and> k' \<le> max (j + 1) (length list2)"
        using Suc.hyps(1) [OF m, of "i + 1" "j + 1" "lst @ [?bn]"] Suc.prems False by auto
      have "i + 1 \<le> i'"
        using match_run_forward [of "i + 1" b list1 list2 "[Suc j..<length list2]" "j + 1" "lst @ [?bn]"] r(1) by simp
      then have "matched list1 list2 i i' j (if i' < length list1 then max k' j else length list2) ((i, j) # ps)"
        using r(3,4) True j by (auto simp: matched_def split: if_splits)
      moreover have "match_run b list1 list2 [j..<length list2] i k lst = (i', k', lst @ picks b list1 list2 ((i, j) # ps))"
        using r(1) True js False by (simp add: picks_def)
      ultimately show ?thesis using r(2,4) Suc.prems(2) j by (intro exI [of _ "(i, j) # ps"] exI [of _ i'] exI [of _ k']) auto
    qed
  qed
qed


lemma match_from_pairs:
  assumes "k \<le> length list2"
  shows "\<exists>ps. match_from b list1 list2 i k lst = lst @ picks b list1 list2 ps
    \<and> matched list1 list2 i (length list1) k (length list2) ps"
  using assms
proof (induction "length list1 - i" arbitrary: i k lst rule: less_induct)
  case less
  show ?case
  proof (cases "i < length list1")
    case False
    then show ?thesis by (intro exI [of _ "[]"]) (simp add: match_from.simps [of b] picks_def matched_def)
  next
    case True
    obtain ps i' k' where run: "match_run b list1 list2 [k..<length list2] i k lst = (i', k', lst @ picks b list1 list2 ps)"
      "i' \<le> length list1" "matched list1 list2 i i' k (if i' < length list1 then max k' k else length list2) ps"
      "i' < length list1 \<longrightarrow> k \<le> k' \<and> k' \<le> max k (length list2)"
      using match_run_pairs [OF True, of k k b list2 lst] by auto
    have fwd: "i \<le> i'" using match_run_forward [of i b list1 list2 "[k..<length list2]" k lst] run(1) by simp
    have step: "match_from b list1 list2 i k lst = match_from b list1 list2 (i' + 1) k' (lst @ picks b list1 list2 ps)"
      using True run(1) by (simp add: match_from.simps [of b list1 list2 i])
    show ?thesis
    proof (cases "i' < length list1")
      case False
      then have "match_from b list1 list2 (i' + 1) k' (lst @ picks b list1 list2 ps) = lst @ picks b list1 list2 ps"
        by (simp add: match_from.simps [of b])
      moreover have "matched list1 list2 i (length list1) k (length list2) ps"
        using run(2,3) False by (auto simp: matched_def)
      ultimately show ?thesis using step by auto
    next
      case inside: True
      then have k': "k \<le> k'" "k' \<le> length list2" "max k' k = k'" using run(4) less.prems by auto
      have "length list1 - (i' + 1) < length list1 - i" using fwd True by linarith
      from less.hyps [OF this k'(2)] obtain qs where qs: "match_from b list1 list2 (i' + 1) k' (lst @ picks b list1 list2 ps)
          = (lst @ picks b list1 list2 ps) @ picks b list1 list2 qs"
        "matched list1 list2 (i' + 1) (length list1) k' (length list2) qs"
        by blast
      have "matched list1 list2 i i' k k' ps" using run(3) inside k'(3) by simp
      then have "matched list1 list2 i (length list1) k (length list2) (ps @ qs)"
        using qs(2) k' fwd inside by (fastforce simp: matched_def sorted_wrt_append)
      then show ?thesis using step qs(1) by (intro exI [of _ "ps @ qs"]) (simp add: picks_def)
    qed
  qed
qed

text \<open>\<open>find_common\<close> gives nodes of the second list, in their order, and the first list has nodes of
  the same paths in this order.
\<close>

theorem find_common_subsequence:
  "subseq (find_common l1 l2) l2 \<and> (\<exists>ns. subseq ns l1 \<and> list_all2 same_node ns (find_common l1 l2))"
proof -
  have both: "subseq (map (\<lambda>p. xs ! fst p) ps) xs \<and> subseq (map (\<lambda>p. ys ! snd p) ps) ys
      \<and> list_all2 same_node (map (\<lambda>p. xs ! fst p) ps) (map (\<lambda>p. ys ! snd p) ps)"
    if "matched xs ys 0 (length xs) 0 (length ys) ps" for xs ys ps
  proof -
    have "sorted_wrt (<) (map fst ps)" "sorted_wrt (<) (map snd ps)"
      using that by (auto simp: matched_def sorted_wrt_map elim: sorted_wrt_mono_rel [rotated])
    moreover have "\<forall>i \<in> set (map fst ps). 0 \<le> i \<and> i < length xs" "\<forall>j \<in> set (map snd ps). 0 \<le> j \<and> j < length ys"
      using that by (auto simp: matched_def)
    ultimately have "subseq (map ((!) xs) (map fst ps)) (drop 0 xs)" "subseq (map ((!) ys) (map snd ps)) (drop 0 ys)"
      by (blast intro: subseq_nths)+
    then show ?thesis using that by (auto simp: matched_def comp_def list_all2_conv_all_nth)
  qed
  show ?thesis
  proof (cases "length l2 < length l1")
    case True
    obtain ps where "find_common l1 l2 = map (\<lambda>p. l2 ! snd p) ps" "matched l1 l2 0 (length l1) 0 (length l2) ps"
      using match_from_pairs [of 0 l2 True l1 0 "[]"] True by (auto simp: find_common_def picks_def)
    then show ?thesis using both [of l1 l2 ps] by auto
  next
    case False
    obtain ps where ps: "find_common l1 l2 = map (\<lambda>p. l2 ! fst p) ps" "matched l2 l1 0 (length l2) 0 (length l1) ps"
      using match_from_pairs [of 0 l1 False l2 0 "[]"] False by (auto simp: find_common_def picks_def)
    moreover have "list_all2 same_node (map (\<lambda>p. l1 ! snd p) ps) (map (\<lambda>p. l2 ! fst p) ps)"
      using ps(2) by (auto simp: matched_def same_node_def list_all2_conv_all_nth)
    ultimately show ?thesis using both [of l2 l1 ps] by auto
  qed
qed


lemma find_common_subsequence_witness: "subseq (find_common [] []) []"
  using find_common_subsequence [of "[]" "[]"] by blast

section \<open>What the tests accept\<close>

lemma full_match_lang: "full_match r s \<longleftrightarrow> s \<in> lang r"
  by (induction s arbitrary: r) (simp_all add: full_match_def nullable_lang deriv_lang)

lemma lang_Alts: "lang (Alts rs) = (\<Union>r \<in> set rs. lang r)"
  by (induction rs rule: Alts.induct) auto

lemma lang_Star_one: "lang (Star (OneOf cs)) = {s. set s \<subseteq> set cs}"
proof
  show "lang (Star (OneOf cs)) \<subseteq> {s. set s \<subseteq> set cs}" by fastforce
  show "{s. set s \<subseteq> set cs} \<subseteq> lang (Star (OneOf cs))"
  proof
    fix s assume "s \<in> {s. set s \<subseteq> set cs}"
    then have "set (map (\<lambda>c. [c]) s) \<subseteq> lang (OneOf cs)" by auto
    moreover have "s = concat (map (\<lambda>c. [c]) s)" by (induction s) auto
    ultimately show "s \<in> lang (Star (OneOf cs))" unfolding lang.simps(6) by blast
  qed
qed

lemma lang_Seq_one: "lang (Seq (OneOf cs) r) = {c # s | c s. c \<in> set cs \<and> s \<in> lang r}"
proof (intro set_eqI iffI)
  fix x assume "x \<in> {c # s | c s. c \<in> set cs \<and> s \<in> lang r}"
  then obtain c s where "x = [c] @ s" "[c] \<in> lang (OneOf cs)" "s \<in> lang r" by auto
  then show "x \<in> lang (Seq (OneOf cs) r)" unfolding lang.simps(5) by blast
qed auto

lemma lang_Plus_one: "lang (Plus (OneOf cs)) = {s. s \<noteq> [] \<and> set s \<subseteq> set cs}"
proof -
  have "lang (Plus (OneOf cs)) = {c # s | c s. c \<in> set cs \<and> set s \<subseteq> set cs}"
    unfolding Plus_def lang_Seq_one lang_Star_one by auto
  also have "\<dots> = {s. s \<noteq> [] \<and> set s \<subseteq> set cs}"
  proof (intro set_eqI iffI)
    fix s assume "s \<in> {s. s \<noteq> [] \<and> set s \<subseteq> set cs}"
    then show "s \<in> {c # s | c s. c \<in> set cs \<and> set s \<subseteq> set cs}" by (cases s) auto
  qed auto
  finally show ?thesis .
qed

lemma lang_up_to: "lang (((\<lambda>q. Alt Empty (Seq (OneOf cs) q)) ^^ n) Empty) = {s. length s \<le> n \<and> set s \<subseteq> set cs}"
proof (induction n)
  case (Suc n)
  have "lang (((\<lambda>q. Alt Empty (Seq (OneOf cs) q)) ^^ Suc n) Empty)
      = insert [] {c # s | c s. c \<in> set cs \<and> length s \<le> n \<and> set s \<subseteq> set cs}"
    using Suc unfolding funpow.simps comp_def lang.simps(2,4) lang_Seq_one by auto
  also have "\<dots> = {s. length s \<le> Suc n \<and> set s \<subseteq> set cs}"
  proof (intro set_eqI iffI)
    fix s assume "s \<in> {s. length s \<le> Suc n \<and> set s \<subseteq> set cs}"
    then show "s \<in> insert [] {c # s | c s. c \<in> set cs \<and> length s \<le> n \<and> set s \<subseteq> set cs}" by (cases s) auto
  qed auto
  finally show ?case .
qed auto

lemma any_bytes: "set (map char_of [1..<256 :: nat]) = {c. c \<noteq> NUL}"
proof -
  have "c \<noteq> NUL \<longleftrightarrow> (of_char c :: nat) \<noteq> of_char NUL" for c by (simp only: of_char_eq_iff)
  then have "{c. c \<noteq> NUL} = {c. 1 \<le> (of_char c :: nat) \<and> (of_char c :: nat) < 256}" by (simp add: Suc_le_eq)
  also have "\<dots> = char_of ` {1..<256 :: nat}"
  proof (intro set_eqI iffI)
    fix c assume "c \<in> {c. 1 \<le> (of_char c :: nat) \<and> (of_char c :: nat) < 256}"
    then show "c \<in> char_of ` {1..<256 :: nat}" by (intro image_eqI [where x = "of_char c"]) auto
  qed (auto simp: of_char_of)
  finally show ?thesis by simp
qed


lemma digit_codes: "set (map char_of [48..<58 :: nat]) = {c. is_digit c}"
proof -
  have "{c. is_digit c} = char_of ` {48..<58 :: nat}"
  proof (intro set_eqI iffI)
    fix c assume "c \<in> {c. is_digit c}"
    then show "c \<in> char_of ` {48..<58 :: nat}"
      by (intro image_eqI [where x = "of_char c"]) (auto simp: is_digit_def)
  qed (auto simp: is_digit_def of_char_of)
  then show ?thesis by (simp only: set_map set_upt)
qed

lemma NUL_c_str: "NUL \<notin> set (c_str s)"
  by (auto simp: c_str_def dest: set_takeWhileD)

text \<open>C25.  A link leads to another page when its text, without separators, is a number, a row of the same
  arrows, or a word for the previous or next page with at most six bytes between its two characters (in the C
  locale, where the dot of the pattern is a byte).
\<close>

theorem is_nextpage_text_iff:
  "is_nextpage_text text \<longleftrightarrow>
     (let s = c_str (string_filter text)
      in s \<noteq> [] \<and> (list_all is_digit s \<or> set s \<subseteq> {CHR ''>''} \<or> set s \<subseteq> {CHR ''<''}) \<or>
         (\<exists>w. length w \<le> 6 \<and> (s = wd_previous @ w @ wd_page \<or> s = wd_next @ w @ wd_page)))"
proof -
  define s where "s = c_str (string_filter text)"
  have nul: "NUL \<notin> set s" by (simp add: s_def NUL_c_str)
  have six: "lang (up_to_six any_byte) = {w. length w \<le> 6 \<and> NUL \<notin> set w}"
    unfolding up_to_six_def any_byte_def lang_up_to any_bytes by auto
  have plus: "lang (Plus (Lit [c])) = {w. w \<noteq> [] \<and> set w \<subseteq> {c}}" for c
    using lang_Plus_one [of "[c]"] by simp
  have word: "s \<in> lang (Seq (Lit a) (Seq (up_to_six any_byte) (Lit wd_page))) \<longleftrightarrow> (\<exists>w. length w \<le> 6 \<and> s = a @ w @ wd_page)" for a
    unfolding lang.simps(5) lang_Lit six using nul by fastforce
  have "is_nextpage_text text \<longleftrightarrow> s \<in> lang nextpage_re"
    by (simp only: is_nextpage_text_def full_match_lang s_def)
  also have "\<dots> \<longleftrightarrow> s \<noteq> [] \<and> set s \<subseteq> {c. is_digit c} \<or> (\<exists>w. length w \<le> 6 \<and> s = wd_previous @ w @ wd_page)
      \<or> (\<exists>w. length w \<le> 6 \<and> s = wd_next @ w @ wd_page) \<or> s \<noteq> [] \<and> set s \<subseteq> {CHR ''>''} \<or> s \<noteq> [] \<and> set s \<subseteq> {CHR ''<''}"
    unfolding nextpage_re_def Alts.simps lang.simps(4) Un_iff word lang_Plus_one digit_codes plus mem_Collect_eq by (rule refl)
  finally have *: "is_nextpage_text text \<longleftrightarrow> \<dots>" .
  define fwd where "fwd \<longleftrightarrow> set s \<subseteq> {CHR ''>''}"
  define bwd where "bwd \<longleftrightarrow> set s \<subseteq> {CHR ''<''}"
  have digits: "set s \<subseteq> {c. is_digit c} \<longleftrightarrow> list_all is_digit s" by (auto simp: list_all_iff)
  show ?thesis
    unfolding s_def [symmetric] Let_def * digits fwd_def [symmetric] bwd_def [symmetric]
    by (cases "s = []") (simp_all only: simp_thms conj_disj_distribL ex_disj_distrib, blast+)
qed

lemma regexec_Some_iff: "regexec r s \<noteq> None \<longleftrightarrow> (\<exists>u v w. s = u @ v @ w \<and> v \<in> lang r)"
  unfolding regexec_None_iff by simp

text \<open>A copyright note is the word, the letters \<open>ICP\<close>, or the word for a right with one for a licence after it.\<close>

theorem has_word_copyright_iff:
  "has_word_copyright text \<longleftrightarrow>
     contains ''Copyright'' (c_str text) \<or> contains ''copyright'' (c_str text) \<or> contains ''ICP'' (c_str text) \<or>
     (\<exists>w. contains (wd_rights @ w @ wd_grant) (c_str text))"
proof -
  define s where "s = c_str text"
  have nul: "NUL \<notin> set s" by (simp add: s_def NUL_c_str)
  have star: "lang (Star any_byte) = {w. NUL \<notin> set w}"
    unfolding any_byte_def lang_Star_one any_bytes by auto
  have c: "lang (Seq (OneOf ''Cc'') (Lit ''opyright'')) = {''Copyright'', ''copyright''}"
    unfolding lang_Seq_one lang_Lit by auto
  have re: "v \<in> lang copyright_re \<longleftrightarrow>
      v = ''Copyright'' \<or> v = ''copyright'' \<or> v = ''ICP'' \<or> (\<exists>x. NUL \<notin> set x \<and> v = wd_rights @ x @ wd_grant)" for v
    unfolding copyright_re_def Alts.simps lang.simps(4) Un_iff c lang_Lit lang.simps(5) star by auto
  have "has_word_copyright text \<longleftrightarrow> (\<exists>u v w. s = u @ v @ w \<and> v \<in> lang copyright_re)"
    by (simp only: has_word_copyright_def regexec_Some_iff s_def)
  also have "\<dots> \<longleftrightarrow> (\<exists>u v w. s = u @ v @ w \<and>
      (v = ''Copyright'' \<or> v = ''copyright'' \<or> v = ''ICP'' \<or> (\<exists>x. NUL \<notin> set x \<and> v = wd_rights @ x @ wd_grant)))"
    by (simp only: re)
  also have "\<dots> \<longleftrightarrow> contains ''Copyright'' s \<or> contains ''copyright'' s \<or> contains ''ICP'' s \<or>
      (\<exists>x. NUL \<notin> set x \<and> contains (wd_rights @ x @ wd_grant) s)"
    unfolding contains_iff by blast
  also have "(\<exists>x. NUL \<notin> set x \<and> contains (wd_rights @ x @ wd_grant) s) \<longleftrightarrow> (\<exists>x. contains (wd_rights @ x @ wd_grant) s)"
    using nul unfolding contains_iff by fastforce
  finally show ?thesis by (simp only: s_def)
qed


section \<open>The rules of a cluster\<close>

text \<open>The gaps between the numbers of a date have at least one byte, as the pattern says.\<close>

definition gaps_ok :: "matcher \<Rightarrow> bool" where
  "gaps_ok rx \<longleftrightarrow>
     (\<forall>s pm. rx date_pat 20 s = Some pm \<longrightarrow>
        list_all (\<lambda>i. fst (pm ! i) \<noteq> - 1 \<longrightarrow> fst (pm ! i) < snd (pm ! i)) [2, 10])"

lemma is_date_format_total:
  assumes "matcher_ok rx" "gaps_ok rx"
  shows "\<exists>p. is_date_format rx d = Inr p"
proof (cases "rx date_pat 20 (c_str d)")
  case None
  then show ?thesis by (simp add: is_date_format_def is_date_format2_def)
next
  case (Some pm)
  then have pm: "length pm = 20" "\<And>i. i < 20 \<Longrightarrow> fst (pm ! i) \<noteq> - 1 \<Longrightarrow> 0 \<le> fst (pm ! i) \<and> snd (pm ! i) \<le> int (length d)"
    using assms(1) length_c_str [of d] unfolding matcher_ok_def list_all_length by (blast, fastforce simp: split_beta)
  have gap: "fst (pm ! i) \<noteq> - 1 \<Longrightarrow> fst (pm ! i) < snd (pm ! i)" if "i = 2 \<or> i = 10" for i
    using assms(2) Some that by (auto simp: gaps_ok_def)
  have "\<exists>b'. separator_test d pm i b = Inr b'" if i: "i = 2 \<or> i = 10" for i b
  proof (cases "fst (pm ! i) = - 1")
    case False
    have "i < 20" using i by auto
    then have "0 \<le> group_length pm i - 1" "group_length pm i - 1 \<le> int (length d)"
      using False gap [OF i] pm(2) [of i] by (simp_all add: group_length_def)
    then show ?thesis by (simp add: separator_test_def Let_def)
  qed (simp add: separator_test_def)
  then obtain b b' where "separator_test d pm 2 False = Inr b" "separator_test d pm 10 b = Inr b'" by blast
  then show ?thesis using Some by (simp add: is_date_format_def is_date_format2_def Let_def)
qed

lemma all_words_relate_date_total: "\<exists>p. all_words_relate_date rx text = Some (Inr p)"
proof -
  have "\<exists>s'. string_replace text blank_run_pat [] = Some s' \<and> regexec blank_run_pat (c_str s') = None \<and> length s' \<le> length text"
  proof (rule string_replace_total)
    fix u w v :: bytes
    assume "w \<in> lang blank_run_pat"
    then have "w \<noteq> []" by (auto simp: blank_run_pat_def Plus_def lang_Lit wide_space_def)
    then show "length (u @ [] @ v) < length (u @ w @ v)" by simp
  qed
  then show ?thesis by (auto simp: all_words_relate_date_def Let_def)
qed

lemma is_date_node_total:
  assumes "matcher_ok rx" "gaps_ok rx"
  shows "\<exists>p. is_date_node rx d = Some (Inr p)"
  using is_date_format_total [OF assms, of d] all_words_relate_date_total [of rx d]
  by (auto simp: is_date_node_def)

lemma role_of_path_result:
  assumes "matcher_ok rx" "gaps_ok rx"
  shows "\<exists>r. role_of_path rx bls e th = Some (Inr r)
    \<and> is_author r = list_ex (\<lambda>bl. is_author_node (GetPathText bl (fst e))) bls
    \<and> is_source r = list_ex (\<lambda>bl. is_source_node (GetPathText bl (fst e))) bls"
proof -
  have one: "\<exists>s'. role_step rx (fst e) (snd e) n bl s = Some (Inr s')
      \<and> is_author s' = (is_author s \<or> is_author_node (GetPathText bl (fst e)))
      \<and> is_source s' = (is_source s \<or> is_source_node (GetPathText bl (fst e)))" for n bl s
    using is_date_node_total [OF assms, of "GetPathText bl (fst e)"] by (auto simp: role_step_def Let_def)
  have "\<exists>r. foldR (role_step rx (fst e) (snd e) n) bls' s = Some (Inr r)
      \<and> is_author r = (is_author s \<or> list_ex (\<lambda>bl. is_author_node (GetPathText bl (fst e))) bls')
      \<and> is_source r = (is_source s \<or> list_ex (\<lambda>bl. is_source_node (GetPathText bl (fst e))) bls')" for n bls' s
  proof (induction bls' arbitrary: s)
    case (Cons bl bls')
    obtain s' where "role_step rx (fst e) (snd e) n bl s = Some (Inr s')"
      "is_author s' = (is_author s \<or> is_author_node (GetPathText bl (fst e)))"
      "is_source s' = (is_source s \<or> is_source_node (GetPathText bl (fst e)))" using one by blast
    then show ?case using Cons [of s'] by auto
  qed simp
  then show ?thesis by (fastforce simp: role_of_path_def)
qed

text \<open>The key under which a path is noted, besides that of a date.\<close>

definition role_key :: "block_cluster \<Rightarrow> bytes \<Rightarrow> bytes option" where
  "role_key c path =
     (if path = main_section_path c then None
      else
        let a = list_ex (\<lambda>bl. is_author_node (GetPathText bl path)) (pages c);
            s = list_ex (\<lambda>bl. is_source_node (GetPathText bl path)) (pages c)
        in if a \<and> s then Some RULE_AUTHOR_SOURCE else if a then Some RULE_AUTHOR else if s then Some RULE_SOURCE else None)"

definition last_with_key :: "block_cluster \<Rightarrow> bytes list \<Rightarrow> bytes \<Rightarrow> bytes option" where
  "last_with_key c ps k = find (\<lambda>p. role_key c p = Some k) (rev ps)"

lemma cmap_find_SetRule:
  "cmap_ok (wrap_rule c) \<Longrightarrow> cmap_find (wrap_rule (SetRule k v c)) k' = (if k' = k then Some v else cmap_find (wrap_rule c) k')"
  "cmap_ok (wrap_rule c) \<Longrightarrow> cmap_ok (wrap_rule (SetRule k v c))"
  using replace.fetch_store [of "wrap_rule c" k v k'] replace.inv_store [of "wrap_rule c" k v] by (simp_all add: SetRule_def)

lemma set_role_rules:
  assumes "cmap_ok (wrap_rule c)"
  shows "cmap_ok (wrap_rule (set_role path r c)) \<and> pages (set_role path r c) = pages c
    \<and> main_section_path (set_role path r c) = main_section_path c
    \<and> set_role path r c = c\<lparr>wrap_rule := wrap_rule (set_role path r c)\<rparr>
    \<and> (\<forall>k. k \<noteq> RULE_DATE \<longrightarrow> cmap_find (wrap_rule (set_role path r c)) k =
         (if k = (if is_author r \<and> is_source r then RULE_AUTHOR_SOURCE else if is_author r then RULE_AUTHOR
                  else if is_source r then RULE_SOURCE else RULE_DATE) then Some path else cmap_find (wrap_rule c) k))"
proof -
  let ?c = "if is_date r then SetRule RULE_DATE path c else c"
  have c: "cmap_ok (wrap_rule ?c)" "\<And>k. k \<noteq> RULE_DATE \<Longrightarrow> cmap_find (wrap_rule ?c) k = cmap_find (wrap_rule c) k"
    using cmap_find_SetRule [OF assms] assms by auto
  have "pages (SetRule k v d) = pages d \<and> main_section_path (SetRule k v d) = main_section_path d
      \<and> SetRule k v d = d\<lparr>wrap_rule := wrap_rule (SetRule k v d)\<rparr>" for k v d
    by (simp add: SetRule_def)
  then show ?thesis
    using cmap_find_SetRule [OF c(1)] c unfolding set_role_def Let_def by (auto simp: SetRule_def)
qed


lemma find_append: "find P (xs @ ys) = (case find P xs of Some x \<Rightarrow> Some x | None \<Rightarrow> find P ys)"
  by (induction xs) simp_all

lemma role_key_same: "pages c' = pages c \<Longrightarrow> main_section_path c' = main_section_path c \<Longrightarrow> role_key c' = role_key c"
  by (simp add: role_key_def fun_eq_iff)

lemma role_paths_rules:
  assumes "matcher_ok rx" "gaps_ok rx" "cmap_ok (wrap_rule c)"
  shows "\<exists>th' c'. foldR (role_path rx) es (th, c) = Some (Inr (th', c')) \<and> c' = c\<lparr>wrap_rule := wrap_rule c'\<rparr>
    \<and> (\<forall>k. k \<noteq> RULE_DATE \<longrightarrow> cmap_find (wrap_rule c') k =
         (case last_with_key c (map fst es) k of Some p \<Rightarrow> Some p | None \<Rightarrow> cmap_find (wrap_rule c) k))"
  using assms(3)
proof (induction es arbitrary: th c)
  case Nil
  then show ?case by (simp add: last_with_key_def)
next
  case (Cons e es)
  have last: "last_with_key c (map fst (e # es)) k =
      (case last_with_key c (map fst es) k of
         Some p \<Rightarrow> Some p | None \<Rightarrow> if role_key c (fst e) = Some k then Some (fst e) else None)" for k
    by (simp add: last_with_key_def find_append split: option.split)
  have "\<exists>th1 c1. role_path rx e (th, c) = Some (Inr (th1, c1)) \<and> c1 = c\<lparr>wrap_rule := wrap_rule c1\<rparr> \<and> cmap_ok (wrap_rule c1)
    \<and> (\<forall>k. k \<noteq> RULE_DATE \<longrightarrow> cmap_find (wrap_rule c1) k =
         (if role_key c (fst e) = Some k then Some (fst e) else cmap_find (wrap_rule c) k))"
  proof (cases "fst e = main_section_path c")
    case True
    then show ?thesis using Cons.prems by (simp add: role_path_def role_key_def)
  next
    case False
    obtain r where r: "role_of_path rx (pages c) e th = Some (Inr r)"
      "is_author r = list_ex (\<lambda>bl. is_author_node (GetPathText bl (fst e))) (pages c)"
      "is_source r = list_ex (\<lambda>bl. is_source_node (GetPathText bl (fst e))) (pages c)"
      using role_of_path_result [OF assms(1,2)] by blast
    have "role_path rx e (th, c) = Some (Inr (if is_date r \<and> is_source r then Fin 2 else date_th r, set_role (fst e) r c))"
      using False r(1) by (simp add: role_path_def)
    moreover have "\<forall>k. k \<noteq> RULE_DATE \<longrightarrow> cmap_find (wrap_rule (set_role (fst e) r c)) k =
         (if role_key c (fst e) = Some k then Some (fst e) else cmap_find (wrap_rule c) k)"
      using set_role_rules [OF Cons.prems, of "fst e" r] False unfolding role_key_def r(2,3) [symmetric] Let_def by auto
    ultimately show ?thesis using set_role_rules [OF Cons.prems, of "fst e" r] by blast
  qed
  then obtain th1 c1 where one: "role_path rx e (th, c) = Some (Inr (th1, c1))" "c1 = c\<lparr>wrap_rule := wrap_rule c1\<rparr>"
    "cmap_ok (wrap_rule c1)" "\<forall>k. k \<noteq> RULE_DATE \<longrightarrow> cmap_find (wrap_rule c1) k =
         (if role_key c (fst e) = Some k then Some (fst e) else cmap_find (wrap_rule c) k)"
    by blast
  have "pages c1 = pages c" "main_section_path c1 = main_section_path c" 
    using arg_cong [OF one(2), of pages] arg_cong [OF one(2), of main_section_path] by simp_all
  then have key: "last_with_key c1 = last_with_key c" using role_key_same [of c1 c] by (simp add: last_with_key_def fun_eq_iff)
  obtain th' c' where rest: "foldR (role_path rx) es (th1, c1) = Some (Inr (th', c'))" "c' = c1\<lparr>wrap_rule := wrap_rule c'\<rparr>"
    "\<forall>k. k \<noteq> RULE_DATE \<longrightarrow> cmap_find (wrap_rule c') k =
         (case last_with_key c (map fst es) k of Some p \<Rightarrow> Some p | None \<Rightarrow> cmap_find (wrap_rule c1) k)"
    using Cons.IH [OF one(3), of th1] unfolding key by blast
  have "c1\<lparr>wrap_rule := x\<rparr> = c\<lparr>wrap_rule := x\<rparr>" for x
    using arg_cong [OF one(2), of "\<lambda>d. d\<lparr>wrap_rule := x\<rparr>"] by simp
  then have "c' = c\<lparr>wrap_rule := wrap_rule c'\<rparr>" using rest(2) by metis
  moreover have "\<forall>k. k \<noteq> RULE_DATE \<longrightarrow> cmap_find (wrap_rule c') k =
         (case last_with_key c (map fst (e # es)) k of Some p \<Rightarrow> Some p | None \<Rightarrow> cmap_find (wrap_rule c) k)"
    using rest(3) one(4) unfolding last by (simp split: option.split)
  ultimately show ?case using one(1) rest(1) by auto
qed

text \<open>C24.  The analysis of dates, authors and sources ends, changes only rules, and the rule for an author, a
  source or both names the last path with a page on which it is one, if there is such a path besides that of the
  main section.
\<close>

theorem analyze_date_author_source_rules:
  assumes "matcher_ok rx" "gaps_ok rx" "cmap_ok (wrap_rule c)"
  shows "\<exists>c'. analyze_date_author_source rx c = Some (Inr c') \<and> c' = c\<lparr>wrap_rule := wrap_rule c'\<rparr>
    \<and> (\<forall>k. k \<noteq> RULE_DATE \<longrightarrow> cmap_find (wrap_rule c') k =
         (case last_with_key c (map fst (all_valid_node c)) k of Some p \<Rightarrow> Some p | None \<Rightarrow> cmap_find (wrap_rule c) k))"
proof -
  obtain th c' where "foldR (role_path rx) (all_valid_node c) (Fin (1 / 2), c) = Some (Inr (th, c'))" "c' = c\<lparr>wrap_rule := wrap_rule c'\<rparr>"
    "\<forall>k. k \<noteq> RULE_DATE \<longrightarrow> cmap_find (wrap_rule c') k =
         (case last_with_key c (map fst (all_valid_node c)) k of Some p \<Rightarrow> Some p | None \<Rightarrow> cmap_find (wrap_rule c) k)"
    using role_paths_rules [OF assms] by blast
  then show ?thesis by (simp add: analyze_date_author_source_def)
qed

definition whole_text :: matcher where
  "whole_text pat n s = (if pat = s then Some (replicate n (0, int (length s))) else None)"

definition author_cluster :: block_cluster where
  "author_cluster = new_BlockCluster\<lparr>pages := [new_BlockList\<lparr>blocks := [new_BlockNode\<lparr>node_path := ''P'', node_text := wd_author\<rparr>]\<rparr>],
     all_valid_node := [(''P'', 1)]\<rparr>"

lemma analyze_date_author_source_rules_witness:
  "\<exists>c'. analyze_date_author_source whole_text author_cluster = Some (Inr c') \<and> c' = author_cluster\<lparr>wrap_rule := wrap_rule c'\<rparr>
    \<and> (\<forall>k. k \<noteq> RULE_DATE \<longrightarrow> cmap_find (wrap_rule c') k =
         (case last_with_key author_cluster (map fst (all_valid_node author_cluster)) k of
            Some p \<Rightarrow> Some p | None \<Rightarrow> cmap_find (wrap_rule author_cluster) k))"
proof (rule analyze_date_author_source_rules)
  show "matcher_ok whole_text" by (auto simp: matcher_ok_def whole_text_def list_all_iff split: if_splits)
  show "gaps_ok whole_text" by (auto simp: gaps_ok_def whole_text_def date_pat_def bre_def split: if_splits)
  show "cmap_ok (wrap_rule author_cluster)"
    by (simp add: author_cluster_def new_BlockCluster_def new_BlockCluster_name_def)
qed


section \<open>What is extracted\<close>

text \<open>An author or a source is a piece of one line, the fifth sub-match; extraction always ends.\<close>

theorem extract_line:
  assumes "matcher_ok rx"
  shows "\<exists>s. extract_author rx d = Some (Inr s) \<and> NL \<notin> set s"
    and "\<exists>s. extract_source rx d = Some (Inr s) \<and> NL \<notin> set s"
proof -
  have "\<exists>s. extract_fifth rx pat d = Some (Inr s) \<and> NL \<notin> set s" for pat
  proof -
    obtain d' where d': "string_replace d newline_pat ''  '' = Some d'" "NL \<notin> set (c_str d')"
      using string_replace_newlines_spaces by blast
    have "NL \<notin> set (sub_text d' p)" for p
      using d'(2) by (auto simp: sub_text_def split_beta dest: in_set_takeD in_set_dropD)
    then show ?thesis using d'(1) by (auto simp: extract_fifth_def split: option.split)
  qed
  then show "\<exists>s. extract_author rx d = Some (Inr s) \<and> NL \<notin> set s" "\<exists>s. extract_source rx d = Some (Inr s) \<and> NL \<notin> set s"
    by (simp_all add: extract_author_def extract_source_def)
qed

text \<open>The names and attributes that are passed over are static sets.\<close>

definition set_ignore_node :: "bytes \<Rightarrow> bytes set \<Rightarrow> bytes set" where
  "set_ignore_node node ignore_node = insert node ignore_node"

definition set_trusted_unknown_node :: "bytes \<Rightarrow> bytes set \<Rightarrow> bytes set" where
  "set_trusted_unknown_node node trusted_unknown_node = insert node trusted_unknown_node"

definition set_ignore_attr :: "bytes \<Rightarrow> bytes set \<Rightarrow> bytes set" where
  "set_ignore_attr a ignore_attr = insert a ignore_attr"

end
