(* ===== verification/NodeTree.thy ===== *)
theory NodeTree
  imports Dom FloatArith "HOL-Library.Multiset"
begin

text \<open>
  \<open>DisCrawler/StatCom/NodeTree.h\<close>: the nodes of a page that were clustered together, arranged as a
  tree in which a node stands above the nodes it contains.  The list of sub-trees is a \<open>std::list\<close>:
  an iterator is a position, and \<open>end()\<close> the length.
\<close>

section \<open>The tree\<close>

datatype 'n node_tree = NodeTree (tnode: "'n option") (area: flt) (subs: "'n node_tree list")

definition new_NodeTree :: "'n node_tree" where
  "new_NodeTree = NodeTree None (Fin 0) []"

definition set_subs :: "'n node_tree list \<Rightarrow> 'n node_tree \<Rightarrow> 'n node_tree" where
  "set_subs xs t = NodeTree (tnode t) (area t) xs"

definition SetArea :: "flt \<Rightarrow> 'n node_tree \<Rightarrow> 'n node_tree" where
  "SetArea a t = NodeTree (tnode t) a (subs t)"

definition SetTreeNode :: "'n option \<Rightarrow> 'n node_tree \<Rightarrow> 'n node_tree" where
  "SetTreeNode n t = NodeTree n (area t) (subs t)"

fun GetAll :: "'n node_tree \<Rightarrow> 'n list" where
  "GetAll (NodeTree n a xs) = (case n of None \<Rightarrow> [] | Some m \<Rightarrow> [m]) @ concat (map GetAll xs)"

text \<open>The loop of \<open>IsAncest\<close> goes up from \<open>node\<close> to \<open>anc\<close> or to the root.\<close>

partial_function (option) IsAncest :: "'n dom \<Rightarrow> 'n option \<Rightarrow> 'n option \<Rightarrow> bool option" where
  "IsAncest d anc pNode =
     (case pNode of
        None \<Rightarrow> Some (anc = None)
      | Some n \<Rightarrow> if pNode = anc then Some True else IsAncest d anc (parentNode d n))"

text \<open>
  The loop of \<open>AddSub\<close>: \<open>xs\<close> are the sub-trees, \<open>a\<close> is the new tree, which grows by the sub-trees that
  belong below it.  After the first element is erased, \<open>it\<close> is the new first element and the \<open>++it\<close>
  of the loop passes over it; when there is none, \<open>++it\<close> moves an end iterator.
\<close>

partial_function (option) add_loop ::
  "'n dom \<Rightarrow> 'n node_tree \<Rightarrow> 'n node_tree list \<Rightarrow> nat \<Rightarrow> nat \<Rightarrow> 'n node_tree list run" where
  "add_loop d a xs it prev =
     (if length xs \<le> it then Some (Inr (xs @ [a]))
      else
        let s = xs ! it
        in Option.bind (IsAncest d (tnode a) (tnode s)) (\<lambda>b.
           if b then
             bindR (add_loop d s (subs a) 0 0) (\<lambda>ys.
               let a = set_subs ys a; xs = erase_nth it xs
               in if it = 0 then
                    (if xs = [] then Some (Inl BadIterator) else add_loop d a xs 1 0)
                  else add_loop d a xs (Suc prev) prev)
           else
             Option.bind (IsAncest d (tnode s) (tnode a)) (\<lambda>b.
             if b then bindR (add_loop d a (subs s) 0 0) (\<lambda>ys. Some (Inr (xs[it := set_subs ys s])))
             else add_loop d a xs (Suc it) it)))"

definition AddSub :: "'n dom \<Rightarrow> 'n node_tree \<Rightarrow> 'n node_tree \<Rightarrow> 'n node_tree run" where
  "AddSub d a t = bindR (add_loop d a (subs t) 0 0) (\<lambda>xs. Some (Inr (set_subs xs t)))"

text \<open>
  \<open>ArrangeTree\<close> replaces a node by its sub-trees when these cover it; \<open>ex\<close> is \<open>exp\<close> of the C library.
\<close>

definition covered :: "(flt \<Rightarrow> flt) \<Rightarrow> 'n node_tree \<Rightarrow> bool" where
  "covered ex s \<longleftrightarrow>
     (let subSum = fold (\<lambda>u sum. fadd f64 sum (ex (fmul f64 (fneg (area u)) (Fin 10)))) (subs s) (Fin 0)
      in flt_less (f64 (95 / 100)) (fdiv f64 subSum (ex (fmul f64 (fneg (area s)) (Fin 5)))))"

partial_function (option) arrange_loop ::
  "(flt \<Rightarrow> flt) \<Rightarrow> 'n node_tree list \<Rightarrow> nat \<Rightarrow> nat \<Rightarrow> 'n node_tree list option" where
  "arrange_loop ex xs it prev =
     (if length xs \<le> it then Some xs
      else
        Option.bind (arrange_loop ex (subs (xs ! it)) 0 0) (\<lambda>ys.
          let s = set_subs ys (xs ! it); xs = xs[it := s]
          in if covered ex s then
               let xs = erase_nth it (xs @ ys)
               in if it = 0 then arrange_loop ex xs 0 0 else arrange_loop ex xs (Suc prev) prev
             else arrange_loop ex xs (Suc it) it))"

definition ArrangeTree :: "(flt \<Rightarrow> flt) \<Rightarrow> 'n node_tree \<Rightarrow> 'n node_tree option" where
  "ArrangeTree ex t = map_option (\<lambda>xs. set_subs xs t) (arrange_loop ex (subs t) 0 0)"

section \<open>Ancestors\<close>

context dom_tree
begin

lemma IsAncest_iff: "IsAncest d (Some a) (Some n) = Some ((is_parent d)\<^sup>*\<^sup>* n a)"
proof (induction "up n" arbitrary: n rule: less_induct)
  case less
  show ?case
  proof (cases "n = a")
    case True
    then show ?thesis by (simp add: IsAncest.simps)
  next
    case False
    then have iff: "(is_parent d)\<^sup>*\<^sup>* n a \<longleftrightarrow> (\<exists>p. parentNode d n = Some p \<and> (is_parent d)\<^sup>*\<^sup>* p a)"
      by (auto simp: is_parent_def intro: converse_rtranclp_into_rtranclp elim: converse_rtranclpE)
    show ?thesis
    proof (cases "parentNode d n")
      case None
      then show ?thesis using False iff by (simp add: IsAncest.simps)
    next
      case (Some p)
      then show ?thesis using False iff less.hyps [OF up [OF Some]] by (subst IsAncest.simps) simp
    qed
  qed
qed

end

section \<open>Nodes and sizes\<close>

definition all_nodes :: "'n node_tree list \<Rightarrow> 'n multiset" where
  "all_nodes xs = mset (concat (map GetAll xs))"

lemma all_nodes_simps [simp]:
  "all_nodes [] = {#}" "all_nodes (x # xs) = mset (GetAll x) + all_nodes xs"
  "all_nodes (xs @ ys) = all_nodes xs + all_nodes ys"
  by (simp_all add: all_nodes_def)

lemma GetAll_tree: "mset (GetAll t) = (case tnode t of None \<Rightarrow> {#} | Some m \<Rightarrow> {#m#}) + all_nodes (subs t)"
  by (cases t) (auto simp: all_nodes_def split: option.split)

text \<open>The number of trees, null nodes included.\<close>

fun tsize :: "'n node_tree \<Rightarrow> nat" where
  "tsize (NodeTree n a xs) = Suc (sum_list (map tsize xs))"

definition tsizes :: "'n node_tree list \<Rightarrow> nat" where
  "tsizes xs = sum_list (map tsize xs)"

lemma tsizes_simps [simp]:
  "tsizes [] = 0" "tsizes (x # xs) = tsize x + tsizes xs" "tsizes (xs @ ys) = tsizes xs + tsizes ys"
  by (simp_all add: tsizes_def)

lemma tsize_tree: "tsize t = Suc (tsizes (subs t))"
  by (cases t) (simp add: tsizes_def)

lemma set_subs_simps [simp]:
  "tnode (set_subs xs t) = tnode t" "area (set_subs xs t) = area t" "subs (set_subs xs t) = xs"
  by (simp_all add: set_subs_def)

lemma erase_nth_nodes:
  assumes "i < length xs"
  shows "all_nodes xs = mset (GetAll (xs ! i)) + all_nodes (erase_nth i xs)"
    and "tsizes xs = tsize (xs ! i) + tsizes (erase_nth i xs)"
proof -
  show "all_nodes xs = mset (GetAll (xs ! i)) + all_nodes (erase_nth i xs)"
    by (subst split_at [OF assms]) (simp add: erase_nth_def)
  show "tsizes xs = tsize (xs ! i) + tsizes (erase_nth i xs)"
    by (subst split_at [OF assms]) (simp add: erase_nth_def)
qed

lemma update_nodes:
  assumes "i < length xs"
  shows "all_nodes (xs[i := s]) + mset (GetAll (xs ! i)) = all_nodes xs + mset (GetAll s)"
    and "tsizes (xs[i := s]) + tsize (xs ! i) = tsizes xs + tsize s"
proof -
  have u: "xs[i := s] = take i xs @ s # drop (Suc i) xs" using assms by (rule upd_conv_take_nth_drop)
  show "all_nodes (xs[i := s]) + mset (GetAll (xs ! i)) = all_nodes xs + mset (GetAll s)"
    by (subst (2) split_at [OF assms]) (simp add: u)
  show "tsizes (xs[i := s]) + tsize (xs ! i) = tsizes xs + tsize s"
    by (subst (2) split_at [OF assms]) (simp add: u)
qed

section \<open>\<open>AddSub\<close> keeps nodes and order\<close>

text \<open>Every sub-tree has a node, which lies below the node it is filed under.\<close>

fun placed :: "'n dom \<Rightarrow> 'n node_tree \<Rightarrow> bool" where
  "placed d (NodeTree n a xs) \<longleftrightarrow>
     list_all (\<lambda>s. placed d s \<and> tnode s \<noteq> None
       \<and> (case n of None \<Rightarrow> True | Some p \<Rightarrow> (is_parent d)\<^sup>*\<^sup>* (the (tnode s)) p)) xs"

definition placed_list :: "'n dom \<Rightarrow> 'n node_tree list \<Rightarrow> bool" where
  "placed_list d xs \<longleftrightarrow> (\<forall>s \<in> set xs. placed d s \<and> tnode s \<noteq> None)"

lemma placed_tree:
  "placed d t \<longleftrightarrow> placed_list d (subs t)
     \<and> (\<forall>p. tnode t = Some p \<longrightarrow> (\<forall>c. Some c \<in> tnode ` set (subs t) \<longrightarrow> (is_parent d)\<^sup>*\<^sup>* c p))"
  by (cases t) (fastforce simp: placed_list_def list_all_iff image_iff split: option.splits)

text \<open>What one call of the loop gives.\<close>

definition added :: "'n dom \<Rightarrow> 'n node_tree \<Rightarrow> 'n node_tree list \<Rightarrow> 'n node_tree list res \<Rightarrow> bool" where
  "added d a xs r \<longleftrightarrow>
     (case r of
        Inl e \<Rightarrow> e = BadIterator
      | Inr ys \<Rightarrow> all_nodes ys = all_nodes xs + mset (GetAll a) \<and> tsizes ys = tsizes xs + tsize a
          \<and> placed_list d ys \<and> tnode ` set ys \<subseteq> insert (tnode a) (tnode ` set xs))"

lemma added_move:
  assumes "added d s (subs a) (Inr ys)" "placed d a" "tnode a = Some m" "tnode s = Some c" "(is_parent d)\<^sup>*\<^sup>* c m"
  shows "placed d (set_subs ys a)" "mset (GetAll (set_subs ys a)) = mset (GetAll a) + mset (GetAll s)"
    "tsize (set_subs ys a) = tsize a + tsize s"
proof -
  show "placed d (set_subs ys a)"
    using assms unfolding placed_tree [of d a] placed_tree [of d "set_subs ys a"] added_def by fastforce
  show "mset (GetAll (set_subs ys a)) = mset (GetAll a) + mset (GetAll s)"
    using assms(1) by (simp add: added_def GetAll_tree [of a] GetAll_tree [of "set_subs ys a"])
  show "tsize (set_subs ys a) = tsize a + tsize s"
    using assms(1) by (simp add: added_def tsize_tree [of a] tsize_tree [of "set_subs ys a"])
qed

lemma added_erase:
  assumes "i < length xs" "added d a' (erase_nth i xs) r" "mset (GetAll a') = mset (GetAll a) + mset (GetAll (xs ! i))"
    "tsize a' = tsize a + tsize (xs ! i)" "tnode a' = tnode a"
  shows "added d a xs r"
proof -
  have "tnode ` set (erase_nth i xs) \<subseteq> tnode ` set xs"
    by (auto simp: erase_nth_def dest: in_set_takeD in_set_dropD)
  note sub = insert_mono [OF this, of "tnode a"]
  show ?thesis
    using assms(2-5) erase_nth_nodes [OF assms(1)]
    by (cases r) (simp_all add: added_def subset_trans [OF _ sub])
qed

lemma added_update:
  assumes "i < length xs" "added d a (subs (xs ! i)) (Inr ys)" "placed_list d xs" "tnode a = Some m"
    "tnode (xs ! i) = Some c" "(is_parent d)\<^sup>*\<^sup>* m c"
  shows "added d a xs (Inr (xs[i := set_subs ys (xs ! i)]))"
proof -
  have "placed d (xs ! i)" using assms(1,3) by (simp add: placed_list_def)
  from added_move [OF assms(2) this assms(5,4,6)]
  have new: "placed d (set_subs ys (xs ! i))" "mset (GetAll (set_subs ys (xs ! i))) = mset (GetAll (xs ! i)) + mset (GetAll a)"
    "tsize (set_subs ys (xs ! i)) = tsize (xs ! i) + tsize a" .
  have "placed_list d (xs[i := set_subs ys (xs ! i)])"
    using assms(3,5) new(1) set_update_subset_insert [of xs i "set_subs ys (xs ! i)"]
    unfolding placed_list_def by fastforce
  moreover have "tnode ` set (xs[i := set_subs ys (xs ! i)]) \<subseteq> tnode ` set xs"
    using assms(1) set_update_subset_insert [of xs i "set_subs ys (xs ! i)"] by auto
  ultimately show ?thesis
    using update_nodes [OF assms(1), of "set_subs ys (xs ! i)"] new(2,3)
    by (auto simp: added_def)
qed

context dom_tree
begin

lemma add_loop_added:
  assumes "tsizes xs + tsize a = N" "length xs - it = k" "it = 0 \<or> Suc prev = it"
    and "placed d a" "tnode a = Some m" "placed_list d xs"
  shows "\<exists>r. add_loop d a xs it prev = Some r \<and> added d a xs r"
  using assms
proof (induction N arbitrary: a m xs it prev k rule: less_induct)
  case (less N)
  note outer = less.IH
  from less.prems show ?case
  proof (induction k arbitrary: a xs it prev rule: less_induct)
    case (less k)
    note inner = less.IH and prems = less.prems
    show ?case
    proof (cases "length xs \<le> it")
      case True
      then show ?thesis
        using prems(4-6) by (subst add_loop.simps) (auto simp: added_def placed_list_def)
    next
      case False
      then have it: "it < length xs" by simp
      let ?s = "xs ! it"
      obtain c where c: "tnode ?s = Some c" and s: "placed d ?s"
        using prems(6) it by (fastforce simp: placed_list_def)
      have size: "tsize ?s \<le> tsizes xs" using erase_nth_nodes(2) [OF it] by simp
      show ?thesis
      proof (cases "(is_parent d)\<^sup>*\<^sup>* c m")
        case above: True
        have "tsizes (subs a) + tsize ?s < N" using size prems(1) tsize_tree [of a] by simp
        from outer [OF this refl refl _ s c, of 0 0] prems(4)
        obtain r where r: "add_loop d ?s (subs a) 0 0 = Some r" "added d ?s (subs a) r"
          by (auto simp: placed_tree [of d a])
        show ?thesis
        proof (cases r)
          case (Inl e)
          then show ?thesis
            using r it c prems(5) above
            by (subst add_loop.simps) (auto simp: IsAncest_iff added_def Let_def)
        next
          case (Inr ys)
          let ?a = "set_subs ys a" and ?xs = "erase_nth it xs"
          note new = added_move [OF r(2) [unfolded Inr] prems(4,5) c above]
          have step: "add_loop d a xs it prev =
              (if it = 0 then if ?xs = [] then Some (Inl BadIterator) else add_loop d ?a ?xs 1 0
               else add_loop d ?a ?xs (Suc prev) prev)"
            using r(1) Inr it c prems(5) above by (subst add_loop.simps) (simp add: IsAncest_iff Let_def)
          have N: "tsizes ?xs + tsize ?a = N" using erase_nth_nodes(2) [OF it] new(3) prems(1) by simp
          have xs: "placed_list d ?xs"
            using prems(6) by (auto simp: placed_list_def erase_nth_def dest: in_set_takeD in_set_dropD)
          have go: "\<exists>r. add_loop d ?a ?xs j p = Some r \<and> added d a xs r"
            if "length ?xs - j < k" "Suc p = j" for j p
            using inner [OF that(1) N refl _ new(1) _ xs, of p] that(2) prems(5)
              added_erase [OF it _ new(2) new(3)] by force
          show ?thesis
          proof (cases "it = 0 \<and> ?xs = []")
            case True
            then have "add_loop d a xs it prev = Some (Inl BadIterator)" by (subst step) auto
            then show ?thesis by (simp add: added_def)
          next
            case False
            have len: "length ?xs = length xs - 1" using it by simp
            show ?thesis
            proof (cases "it = 0")
              case True
              then have eq: "add_loop d a xs it prev = add_loop d ?a ?xs (Suc 0) 0"
                using False by (subst step) simp
              have "length ?xs - Suc 0 < k" using len prems(2) True it by simp
              from go [OF this refl] show ?thesis unfolding eq .
            next
              case it0: False
              then have prev: "Suc prev = it" using prems(3) by simp
              have eq: "add_loop d a xs it prev = add_loop d ?a ?xs (Suc prev) prev"
                using it0 by (subst step) simp
              have "length ?xs - Suc prev < k" using len prems(2) it prev by linarith
              from go [OF this refl] show ?thesis unfolding eq .
            qed
          qed
        qed
      next
        case not_above: False
        show ?thesis
        proof (cases "(is_parent d)\<^sup>*\<^sup>* m c")
          case below: True
          have "tsizes (subs ?s) + tsize a < N" using size prems(1) tsize_tree [of ?s] by simp
          from outer [OF this refl refl _ prems(4,5), of 0 0] s
          obtain r where r: "add_loop d a (subs ?s) 0 0 = Some r" "added d a (subs ?s) r"
            by (auto simp: placed_tree [of d ?s])
          have step: "add_loop d a xs it prev = bindR (Some r) (\<lambda>ys. Some (Inr (xs[it := set_subs ys ?s])))"
            using r(1) it c prems(5) below not_above by (subst add_loop.simps) (simp add: IsAncest_iff Let_def)
          show ?thesis
            using step r(2) added_update [OF it _ prems(6,5) c below] by (cases r) (auto simp: added_def)
        next
          case False
          have "add_loop d a xs it prev = add_loop d a xs (Suc it) it"
            using it c prems(5) False not_above by (subst add_loop.simps) (simp add: IsAncest_iff Let_def)
          then show ?thesis
            using inner [of "length xs - Suc it" xs a "Suc it" it] prems it by simp
        qed
      qed
    qed
  qed
qed

end

text \<open>
  Adding a tree always returns.  Either a list that has become empty is left through its end iterator,
  or all nodes are kept, the new ones among them, and every node is filed below one of its ancestors.
\<close>

theorem AddSub_placed:
  assumes "dom_tree d up down" "placed d t" "placed d a" "tnode a \<noteq> None"
  shows "\<exists>r. AddSub d a t = Some r \<and>
    (case r of
       Inl e \<Rightarrow> e = BadIterator
     | Inr t' \<Rightarrow> mset (GetAll t') = mset (GetAll t) + mset (GetAll a) \<and> tnode t' = tnode t
         \<and> (if tnode t = None then placed d t' else True))"
proof -
  obtain m where m: "tnode a = Some m" using assms(4) by auto
  have "placed_list d (subs t)" using assms(2) by (simp add: placed_tree [of d t])
  from dom_tree.add_loop_added [OF assms(1) refl refl _ assms(3) m this, of 0 0]
  obtain r where r: "add_loop d a (subs t) 0 0 = Some r" "added d a (subs t) r" by blast
  show ?thesis
  proof (cases r)
    case (Inl e)
    then show ?thesis using r by (auto simp: AddSub_def added_def)
  next
    case (Inr xs)
    then have "mset (GetAll (set_subs xs t)) = mset (GetAll t) + mset (GetAll a)"
      using r(2) by (simp add: added_def GetAll_tree [of t] GetAll_tree [of "set_subs xs t"])
    moreover have "placed d (set_subs xs t)" if "tnode t = None"
      using that r(2) Inr by (simp add: placed_tree [of d "set_subs xs t"] added_def)
    ultimately show ?thesis using r(1) Inr by (simp add: AddSub_def)
  qed
qed

lemma AddSub_placed_witness:
  "\<exists>r. AddSub (dom_of sample_page) (NodeTree (Some [0]) (Fin 0) []) (NodeTree None (Fin 0) [NodeTree (Some [0, 0]) (Fin 0) []]) = Some r \<and>
    (case r of
       Inl e \<Rightarrow> e = BadIterator
     | Inr t' \<Rightarrow> mset (GetAll t') = {#[0, 0]#} + {#[0]#} \<and> tnode t' = None \<and> placed (dom_of sample_page) t')"
  using AddSub_placed [OF markup_dom.dom_tree_axioms, of sample_page "NodeTree None (Fin 0) [NodeTree (Some [0, 0]) (Fin 0) []]"
      "NodeTree (Some [0]) (Fin 0) []"]
  by (simp cong: sum.case_cong)

text \<open>
  Both happen: a node added above the only sub-tree of the list fails, and one added above two
  brothers takes only the first of them.
\<close>

definition leaf_tree :: "'n \<times> flt \<Rightarrow> 'n node_tree" where
  "leaf_tree p = NodeTree (Some (fst p)) (snd p) []"

section \<open>The hierarchy of a page\<close>

text \<open>\<open>GenVar\<close> of \<open>nsColVarGenerator.cpp\<close> adds the nodes of one document one after another.\<close>

fun add_each :: "'n dom \<Rightarrow> 'n node_tree \<Rightarrow> ('n \<times> flt) list \<Rightarrow> 'n node_tree run" where
  "add_each d t [] = Some (Inr t)"
| "add_each d t (p # ps) = bindR (AddSub d (leaf_tree p) t) (\<lambda>t. add_each d t ps)"

fun all_trees :: "'n node_tree \<Rightarrow> 'n node_tree list" where
  "all_trees (NodeTree n a xs) = NodeTree n a xs # concat (map all_trees xs)"

text \<open>No tree of a list lies below another one.\<close>

definition unrelated :: "'n dom \<Rightarrow> 'n node_tree \<Rightarrow> 'n node_tree \<Rightarrow> bool" where
  "unrelated d s u \<longleftrightarrow> \<not> (is_parent d)\<^sup>*\<^sup>* (the (tnode s)) (the (tnode u)) \<and> \<not> (is_parent d)\<^sup>*\<^sup>* (the (tnode u)) (the (tnode s))"

fun separate :: "'n dom \<Rightarrow> 'n node_tree \<Rightarrow> bool" where
  "separate d (NodeTree n a xs) \<longleftrightarrow> list_all (separate d) xs \<and> sorted_wrt (unrelated d) xs"

definition separate_list :: "'n dom \<Rightarrow> 'n node_tree list \<Rightarrow> bool" where
  "separate_list d xs \<longleftrightarrow> list_all (separate d) xs \<and> sorted_wrt (unrelated d) xs"

lemma separate_tree: "separate d t \<longleftrightarrow> separate_list d (subs t)"
  by (cases t) (simp add: separate_list_def)

lemma sorted_wrt_unrelated:
  "sorted_wrt R xs \<Longrightarrow> x \<in> set xs \<Longrightarrow> y \<in> set xs \<Longrightarrow> x = y \<or> R x y \<or> R y x"
  by (induction xs) auto

lemma separate_update:
  assumes "separate_list d xs" "separate d s" "tnode s = tnode (xs ! i)"
  shows "separate_list d (xs[i := s])"
proof (cases "i < length xs")
  case True
  have "list_all (separate d) (xs[i := s])"
    using assms(1,2) set_update_subset_insert [of xs i s] by (fastforce simp: separate_list_def list_all_iff)
  moreover have "sorted_wrt (unrelated d) (xs[i := s])"
    using assms(1,3) True by (auto simp: separate_list_def sorted_wrt_iff_nth_less nth_list_update unrelated_def)
  ultimately show ?thesis by (simp add: separate_list_def)
next
  case False
  then show ?thesis using assms(1) by (simp add: list_update_beyond)
qed

lemma GetAll_subs: "s \<in> set (subs t) \<Longrightarrow> set (GetAll s) \<subseteq> set (GetAll t)"
  by (cases t) auto

lemma ancestors_linear:
  "(is_parent d)\<^sup>*\<^sup>* y a \<Longrightarrow> (is_parent d)\<^sup>*\<^sup>* y b \<Longrightarrow> (is_parent d)\<^sup>*\<^sup>* a b \<or> (is_parent d)\<^sup>*\<^sup>* b a"
proof (induction rule: converse_rtranclp_induct)
  case (step y z)
  from step.prems show ?case
  proof (cases rule: converse_rtranclpE)
    case base
    then show ?thesis using step.hyps by (meson converse_rtranclp_into_rtranclp)
  next
    case (step z')
    then have "z' = z" using \<open>is_parent d y z\<close> by (simp add: is_parent_def)
    then show ?thesis using step(2) by (simp add: \<open>(is_parent d)\<^sup>*\<^sup>* z b \<Longrightarrow> _\<close>)
  qed
qed simp

lemma placed_below:
  "placed d s \<Longrightarrow> tnode s = Some c \<Longrightarrow> y \<in> set (GetAll s) \<Longrightarrow> (is_parent d)\<^sup>*\<^sup>* y c"
proof (induction s arbitrary: c)
  case (NodeTree n a xs)
  then consider "y = c" | s where "s \<in> set xs" "y \<in> set (GetAll s)" by auto
  then show ?case
  proof cases
    case 2
    then obtain e where e: "tnode s = Some e" "placed d s" "(is_parent d)\<^sup>*\<^sup>* e c"
      using NodeTree.prems by (auto simp: list_all_iff)
    then show ?thesis using NodeTree.IH [OF 2(1) e(2,1) 2(2)] by (meson rtranclp_trans)
  qed simp
qed

lemma all_trees_node:
  "placed d t \<Longrightarrow> s \<in> set (all_trees t) \<Longrightarrow> s = t \<or> tnode s \<noteq> None"
proof (induction t)
  case (NodeTree n a xs)
  then show ?case by (fastforce simp: list_all_iff)
qed

context dom_tree
begin

lemma ancestors_antisym:
  assumes "(is_parent d)\<^sup>*\<^sup>* x y" "(is_parent d)\<^sup>*\<^sup>* y x"
  shows "x = y"
proof -
  have "a = b \<or> up b < up a" if "(is_parent d)\<^sup>*\<^sup>* a b" for a b
    using that by (induction rule: rtranclp_induct) (auto simp: is_parent_def dest: up order_less_trans)
  from this [OF assms(1)] this [OF assms(2)] show ?thesis by auto
qed

lemma add_loop_separate:
  assumes "tsizes xs = N" "length xs - it = k" "tnode a = Some m" "subs a = []"
    and "placed_list d xs" "separate_list d xs"
    and "\<forall>y. y \<in># all_nodes xs \<longrightarrow> \<not> (is_parent d)\<^sup>*\<^sup>* y m"
    and "\<forall>s \<in> set (take it xs). \<not> (is_parent d)\<^sup>*\<^sup>* m (the (tnode s))"
  shows "\<exists>ys. add_loop d a xs it prev = Some (Inr ys) \<and> separate_list d ys"
  using assms
proof (induction N arbitrary: xs it prev k rule: less_induct)
  case (less N)
  note outer = less.IH
  from less.prems show ?case
  proof (induction k arbitrary: it prev rule: less_induct)
    case (less k)
    note inner = less.IH and prems = less.prems
    have top: "\<exists>c. tnode s = Some c \<and> \<not> (is_parent d)\<^sup>*\<^sup>* c m" if s: "s \<in> set xs" for s
    proof -
      obtain c where c: "tnode s = Some c" using prems(5) s by (auto simp: placed_list_def)
      then have "c \<in> set (GetAll s)" by (cases s) auto
      then have "c \<in># all_nodes xs" using s by (auto simp: all_nodes_def)
      then show ?thesis using c prems(7) by blast
    qed
    show ?case
    proof (cases "length xs \<le> it")
      case True
      have "sorted_wrt (unrelated d) (xs @ [a])"
        using prems(3,6,8) True top by (fastforce simp: separate_list_def sorted_wrt_append unrelated_def)
      moreover have "separate d a" using prems(4) by (simp add: separate_tree separate_list_def)
      ultimately have "separate_list d (xs @ [a])" using prems(6) by (simp add: separate_list_def)
      then show ?thesis using True by (subst add_loop.simps) simp
    next
      case False
      then have it: "it < length xs" by simp
      let ?s = "xs ! it"
      have s: "?s \<in> set xs" using it by simp
      from top [OF s] obtain c where c: "tnode ?s = Some c" "\<not> (is_parent d)\<^sup>*\<^sup>* c m" by blast
      show ?thesis
      proof (cases "(is_parent d)\<^sup>*\<^sup>* m c")
        case True
        have "tsizes (subs ?s) < N"
          using erase_nth_nodes(2) [OF it] prems(1) tsize_tree [of ?s] by simp
        moreover have "placed d ?s" "separate d ?s"
          using s prems(5,6) by (auto simp: placed_list_def separate_list_def list_all_iff)
        then have "placed_list d (subs ?s)" "separate_list d (subs ?s)"
          by (simp_all add: placed_tree [of d ?s] separate_tree [of d ?s])
        moreover have "y \<in># all_nodes xs" if "y \<in># all_nodes (subs ?s)" for y
          using that erase_nth_nodes(1) [OF it] by (simp add: GetAll_tree [of ?s])
        ultimately obtain ys where ys: "add_loop d a (subs ?s) 0 0 = Some (Inr ys)" "separate_list d ys"
          using outer [OF _ refl refl prems(3,4), of "subs ?s" 0 0] prems(7) by auto
        have "separate_list d (xs[it := set_subs ys ?s])"
          using separate_update [OF prems(6)] ys(2) by (simp add: separate_tree)
        moreover have "add_loop d a xs it prev = Some (Inr (xs[it := set_subs ys ?s]))"
          using it c True prems(3) by (subst add_loop.simps) (simp add: IsAncest_iff Let_def ys(1))
        ultimately show ?thesis by blast
      next
        case not_below: False
        have eq: "add_loop d a xs it prev = add_loop d a xs (Suc it) it"
          using it c not_below prems(3) by (subst add_loop.simps) (simp add: IsAncest_iff Let_def)
        have "\<forall>s \<in> set (take (Suc it) xs). \<not> (is_parent d)\<^sup>*\<^sup>* m (the (tnode s))"
          using prems(8) not_below c it by (simp add: take_Suc_conv_app_nth)
        moreover have "length xs - Suc it < k" using prems(2) it by simp
        ultimately show ?thesis unfolding eq by (intro inner [OF _ prems(1) refl prems(3-7)])
      qed
    qed
  qed
qed

lemma add_each_separate:
  assumes "tnode t = None" "placed d t" "separate d t" "sorted_wrt (\<lambda>x y. \<not> (is_parent d)\<^sup>*\<^sup>* x y) (map fst ps)"
    and "\<forall>x \<in> set (GetAll t). \<forall>y \<in> set (map fst ps). \<not> (is_parent d)\<^sup>*\<^sup>* x y"
  shows "\<exists>t'. add_each d t ps = Some (Inr t') \<and> mset (GetAll t') = mset (GetAll t @ map fst ps)
    \<and> tnode t' = None \<and> placed d t' \<and> separate d t'"
  using assms
proof (induction ps arbitrary: t)
  case (Cons p ps)
  let ?a = "leaf_tree p"
  have a: "tnode ?a = Some (fst p)" "subs ?a = []" "placed d ?a" "GetAll ?a = [fst p]"
    by (simp_all add: leaf_tree_def)
  have t: "placed_list d (subs t)" "separate_list d (subs t)" "mset (GetAll t) = all_nodes (subs t)"
    using Cons.prems(1-3) by (simp_all add: placed_tree [of d t] separate_tree [of d t] GetAll_tree [of t])
  have old: "\<forall>y. y \<in># all_nodes (subs t) \<longrightarrow> \<not> (is_parent d)\<^sup>*\<^sup>* y (fst p)"
    using Cons.prems(5) by (simp flip: t(3))
  obtain xs where xs: "add_loop d ?a (subs t) 0 0 = Some (Inr xs)" "separate_list d xs"
    using add_loop_separate [OF refl refl a(1,2) t(1,2) old, of 0 0] by auto
  moreover obtain r where "add_loop d ?a (subs t) 0 0 = Some r" "added d ?a (subs t) r"
    using add_loop_added [OF refl refl _ a(3,1) t(1), of 0 0] by auto
  ultimately have added: "added d ?a (subs t) (Inr xs)" by simp
  let ?t = "set_subs xs t"
  have new: "mset (GetAll ?t) = mset (GetAll t @ [fst p])"
    using added a(4) Cons.prems(1) t(3) by (simp add: added_def GetAll_tree [of ?t])
  have "set (GetAll ?t) = set (GetAll t) \<union> {fst p}"
    using arg_cong [OF new, of set_mset] by simp
  then have "\<forall>x \<in> set (GetAll ?t). \<forall>y \<in> set (map fst ps). \<not> (is_parent d)\<^sup>*\<^sup>* x y"
    using Cons.prems(4,5) by auto
  then obtain t' where "add_each d ?t ps = Some (Inr t')" "mset (GetAll t') = mset (GetAll ?t @ map fst ps)"
      "tnode t' = None" "placed d t'" "separate d t'"
    using Cons.IH [of ?t] Cons.prems(1,4) added xs(2)
    by (auto simp: added_def placed_tree [of d ?t] separate_tree [of d ?t])
  then show ?case using xs(1) new by (auto simp: AddSub_def)
qed simp

lemma tree_holds_its_descendants:
  assumes "s \<in> set (all_trees t)" "tnode s = Some x" "placed d t" "separate d t" "distinct (GetAll t)"
  shows "set (GetAll s) = {y \<in> set (GetAll t). (is_parent d)\<^sup>*\<^sup>* y x}"
  using assms
proof (induction t)
  case (NodeTree n a xs)
  show ?case
  proof (cases "s = NodeTree n a xs")
    case True
    then show ?thesis using placed_below NodeTree.prems(2,3) by fast
  next
    case False
    then obtain u where u: "u \<in> set xs" "s \<in> set (all_trees u)" using NodeTree.prems(1) by auto
    then obtain c where c: "tnode u = Some c" "placed d u" "separate d u"
      using NodeTree.prems(3,4) by (auto simp: list_all_iff)
    have "distinct (GetAll u)"
      using NodeTree.prems(5) u(1) by (auto simp: distinct_concat_iff)
    from NodeTree.IH [OF u NodeTree.prems(2) c(2,3) this]
    have s: "set (GetAll s) = {y \<in> set (GetAll u). (is_parent d)\<^sup>*\<^sup>* y x}" .
    have "x \<in> set (GetAll s)" using NodeTree.prems(2) by (cases s) simp
    then have x: "(is_parent d)\<^sup>*\<^sup>* x c" using s placed_below [OF c(2,1)] by blast
    have "y \<in> set (GetAll u)" if y: "y \<in> set (GetAll (NodeTree n a xs))" "(is_parent d)\<^sup>*\<^sup>* y x" for y
    proof -
      have yc: "(is_parent d)\<^sup>*\<^sup>* y c" using y(2) x by (rule rtranclp_trans)
      from y(1) consider "n = Some y" | v where "v \<in> set xs" "y \<in> set (GetAll v)" by (auto split: option.splits)
      then show ?thesis
      proof cases
        case 1
        then have "(is_parent d)\<^sup>*\<^sup>* c y" using NodeTree.prems(3) u(1) c(1) by (auto simp: list_all_iff)
        then have "c = y" using yc by (rule ancestors_antisym)
        moreover have "c \<in> set (GetAll u)" using c(1) by (cases u) simp
        ultimately show ?thesis by simp
      next
        case 2
        then obtain e where e: "tnode v = Some e" "placed d v"
          using NodeTree.prems(3) by (auto simp: list_all_iff)
        have "(is_parent d)\<^sup>*\<^sup>* y e" using placed_below [OF e(2,1) 2(2)] .
        then have "\<not> unrelated d u v \<and> \<not> unrelated d v u"
          using ancestors_linear [OF yc] c(1) e(1) by (auto simp: unrelated_def)
        then have "u = v"
          using NodeTree.prems(4) u(1) 2(1) sorted_wrt_unrelated [of "unrelated d" xs u v] by auto
        then show ?thesis using 2(2) by simp
      qed
    qed
    moreover have "set (GetAll u) \<subseteq> set (GetAll (NodeTree n a xs))" using u(1) by auto
    ultimately show ?thesis using s by blast
  qed
qed

end

text \<open>C12.  When no node is added after a node it contains, as in document order, adding always succeeds, keeps
  the nodes, and gives the hierarchy of the page: a tree holds exactly the added nodes that its own
  node contains.
\<close>

theorem add_each_hierarchy:
  assumes "dom_tree d up down" "sorted_wrt (\<lambda>x y. \<not> (is_parent d)\<^sup>*\<^sup>* x y) (map fst ps)"
  shows "\<exists>t. add_each d new_NodeTree ps = Some (Inr t) \<and> mset (GetAll t) = mset (map fst ps)
    \<and> list_all (\<lambda>s. case tnode s of None \<Rightarrow> s = t
        | Some x \<Rightarrow> set (GetAll s) = {y \<in> set (map fst ps). (is_parent d)\<^sup>*\<^sup>* y x}) (all_trees t)"
proof -
  have new: "tnode new_NodeTree = (None :: 'a option)" "placed d new_NodeTree" "separate d new_NodeTree"
    "GetAll new_NodeTree = ([] :: 'a list)"
    by (simp_all add: new_NodeTree_def)
  from dom_tree.add_each_separate [OF assms(1) new(1-3) assms(2)] new(4)
  obtain t where t: "add_each d new_NodeTree ps = Some (Inr t)" "mset (GetAll t) = mset (map fst ps)"
    "tnode t = None" "placed d t" "separate d t" by auto
  have "distinct (map fst ps)" using assms(2) by (induction ps) auto
  then have dist: "distinct (GetAll t)" using t(2) mset_eq_imp_distinct_iff by metis
  have nodes: "set (GetAll t) = set (map fst ps)" using t(2) by (rule mset_eq_setD)
  have "case tnode s of None \<Rightarrow> s = t
      | Some x \<Rightarrow> set (GetAll s) = {y \<in> set (map fst ps). (is_parent d)\<^sup>*\<^sup>* y x}" if s: "s \<in> set (all_trees t)" for s
  proof (cases "tnode s")
    case None
    then show ?thesis using all_trees_node [OF t(4) s] by auto
  next
    case (Some x)
    then show ?thesis
      using dom_tree.tree_holds_its_descendants [OF assms(1) s Some t(4,5) dist] nodes by simp
  qed
  then show ?thesis using t(1,2) by (auto simp: list_all_iff)
qed

lemma add_each_hierarchy_witness:
  "\<exists>t. add_each (dom_of sample_page) new_NodeTree [([0], Fin 0), ([0, 0], Fin 1)] = Some (Inr t)
    \<and> mset (GetAll t) = {#[0], [0, 0]#}
    \<and> list_all (\<lambda>s. case tnode s of None \<Rightarrow> s = t
        | Some x \<Rightarrow> set (GetAll s) = {y \<in> {[0], [0, 0]}. (is_parent (dom_of sample_page))\<^sup>*\<^sup>* y x}) (all_trees t)"
proof -
  have "is_parent (dom_of sample_page) [0] y \<longleftrightarrow> y = []" "\<not> is_parent (dom_of sample_page) [] y" for y
    by (auto simp: is_parent_def dom_of_simps sample_page_def)
  then have "\<not> (is_parent (dom_of sample_page))\<^sup>*\<^sup>* [0] [0, 0]"
    by (metis converse_rtranclpE list.distinct(1) not_Cons_self2)
  then show ?thesis
    using add_each_hierarchy [OF markup_dom.dom_tree_axioms, of sample_page "[([0], Fin 0), ([0, 0], Fin 1)]"]
    by (simp cong: option.case_cong)
qed

section \<open>\<open>ArrangeTree\<close>\<close>

text \<open>The nodes of the trees without sub-trees, and: no tree below the root is covered by its sub-trees.\<close>

fun tips :: "'n node_tree \<Rightarrow> 'n option list" where
  "tips (NodeTree n a xs) = (if xs = [] then [n] else concat (map tips xs))"

definition all_tips :: "'n node_tree list \<Rightarrow> 'n option multiset" where
  "all_tips xs = mset (concat (map tips xs))"

fun settled :: "(flt \<Rightarrow> flt) \<Rightarrow> 'n node_tree \<Rightarrow> bool" where
  "settled ex (NodeTree n a xs) \<longleftrightarrow> list_all (\<lambda>s. settled ex s \<and> \<not> covered ex s) xs"

lemma all_tips_simps [simp]:
  "all_tips [] = {#}" "all_tips (x # xs) = mset (tips x) + all_tips xs" "all_tips (xs @ ys) = all_tips xs + all_tips ys"
  by (simp_all add: all_tips_def)

lemma tips_tree: "tips t = (if subs t = [] then [tnode t] else concat (map tips (subs t)))"
  by (cases t) simp

lemma tips_not_Nil [simp]: "tips t \<noteq> []"
proof (induction t)
  case (NodeTree n a xs)
  then show ?case by (cases xs) auto
qed

lemma all_tips_empty [simp]: "all_tips xs = {#} \<longleftrightarrow> xs = []"
  by (cases xs) auto

lemma mset_tips_subs:
  assumes "all_tips ys = all_tips (subs s)"
  shows "mset (tips (set_subs ys s)) = mset (tips s)"
proof -
  have "ys = [] \<longleftrightarrow> subs s = []" using all_tips_empty [of ys] all_tips_empty [of "subs s"] assms by simp
  then show ?thesis using assms by (simp add: tips_tree [of s] tips_tree [of "set_subs ys s"] all_tips_def)
qed

lemma covered_subs: "covered ex s \<Longrightarrow> subs s \<noteq> []"
proof
  assume s: "covered ex s" "subs s = []"
  obtain r where r: "f64 (95 / 100) = Fin r" "0 \<le> r"
    unfolding f64_def using round_to_le_int [of "95 / 100" 1 52 1024 "- 1022"] by (auto simp: pow2_def)
  have "\<not> flt_less (Fin r) (fdiv f64 (Fin 0) y)" for y using r(2) by (cases y) auto
  then show False using s r(1) by (simp add: covered_def)
qed

lemma erase_nth_tips:
  assumes "i < length xs"
  shows "all_tips xs = mset (tips (xs ! i)) + all_tips (erase_nth i xs)"
  by (subst split_at [OF assms]) (simp add: erase_nth_def)

lemma update_tips:
  assumes "i < length xs" "mset (tips s) = mset (tips (xs ! i))"
  shows "all_tips (xs[i := s]) = all_tips xs"
  using assms(2) by (subst (2) split_at [OF assms(1)]) (simp add: upd_conv_take_nth_drop [OF assms(1)])

lemma erase_nth_append: "i < length xs \<Longrightarrow> erase_nth i (xs @ ys) = erase_nth i xs @ ys"
  by (simp add: erase_nth_def)

lemma arrange_loop_settled:
  assumes "tsizes xs = N" "length xs - it = k" "it = 0 \<or> Suc prev = it"
    and "\<forall>s \<in> set (take it xs). settled ex s \<and> \<not> covered ex s"
  shows "\<exists>ys. arrange_loop ex xs it prev = Some ys \<and> all_tips ys = all_tips xs \<and> tsizes ys \<le> tsizes xs
    \<and> (\<forall>s \<in> set ys. settled ex s \<and> \<not> covered ex s)"
  using assms
proof (induction N arbitrary: xs it prev k rule: less_induct)
  case (less N)
  note outer = less.IH
  from less.prems show ?case
  proof (induction k arbitrary: xs it prev rule: less_induct)
    case (less k)
    note inner = less.IH and prems = less.prems
    show ?case
    proof (cases "length xs \<le> it")
      case True
      then show ?thesis using prems(4) by (subst arrange_loop.simps) simp
    next
      case False
      then have it: "it < length xs" by simp
      let ?s = "xs ! it"
      have "tsizes (subs ?s) < N" using erase_nth_nodes(2) [OF it] prems(1) tsize_tree [of ?s] by simp
      from outer [OF this refl refl, of 0 0] obtain ys where ys: "arrange_loop ex (subs ?s) 0 0 = Some ys"
        "all_tips ys = all_tips (subs ?s)" "tsizes ys \<le> tsizes (subs ?s)" "\<forall>s \<in> set ys. settled ex s \<and> \<not> covered ex s"
        by auto
      let ?t = "set_subs ys ?s"
      let ?xs = "xs[it := ?t]"
      have tips: "mset (tips ?t) = mset (tips ?s)" using ys(2) by (rule mset_tips_subs)
      have step: "arrange_loop ex xs it prev =
          (if covered ex ?t then
             if it = 0 then arrange_loop ex (erase_nth it (?xs @ ys)) 0 0
             else arrange_loop ex (erase_nth it (?xs @ ys)) (Suc prev) prev
           else arrange_loop ex ?xs (Suc it) it)"
        using it ys(1) by (subst arrange_loop.simps) (simp add: Let_def)
      have size: "tsizes ?xs \<le> tsizes xs" "all_tips ?xs = all_tips xs"
        using update_nodes(2) [OF it, of ?t] ys(3) update_tips [OF it tips]
        by (simp_all add: tsize_tree [of ?s] tsize_tree [of ?t])
      show ?thesis
      proof (cases "covered ex ?t")
        case True
        let ?zs = "erase_nth it (?xs @ ys)"
        have len: "it < length ?xs" using it by simp
        have zs: "?zs = erase_nth it ?xs @ ys" using len by (rule erase_nth_append)
        have t: "tsizes ?xs = Suc (tsizes ys) + tsizes (erase_nth it ?xs)" "all_tips ?xs = all_tips ys + all_tips (erase_nth it ?xs)"
          using erase_nth_nodes(2) [OF len] erase_nth_tips [OF len] covered_subs [OF True] it
          by (simp_all add: tsize_tree [of ?t] tips_tree [of ?t] all_tips_def)
        then have less: "tsizes ?zs < N" and eq: "all_tips ?zs = all_tips xs"
          using size prems(1) by (simp_all add: zs)
        have "take it ?zs = take it xs" using it by (simp add: zs erase_nth_def)
        then have "\<exists>zs. arrange_loop ex ?zs it prev' = Some zs \<and> all_tips zs = all_tips ?zs \<and> tsizes zs \<le> tsizes ?zs
            \<and> (\<forall>s \<in> set zs. settled ex s \<and> \<not> covered ex s)" if "it = 0 \<or> Suc prev' = it" for prev'
          using outer [OF less refl refl that] prems(4) by simp
        moreover have "\<exists>p. arrange_loop ex xs it prev = arrange_loop ex ?zs it p \<and> (it = 0 \<or> Suc p = it)"
          using True prems(3) unfolding step by (cases "it = 0") auto
        moreover have "tsizes ?zs \<le> tsizes xs" using less prems(1) by simp
        ultimately show ?thesis using eq by fastforce
      next
        case False
        have "settled ex ?t" using ys(4) by (cases ?s) (simp add: set_subs_def list_all_iff)
        then have pre: "\<forall>s \<in> set (take (Suc it) ?xs). settled ex s \<and> \<not> covered ex s"
          using prems(4) False it by (simp add: take_Suc_conv_app_nth)
        have eq: "arrange_loop ex xs it prev = arrange_loop ex ?xs (Suc it) it" using False step by simp
        show ?thesis
        proof (cases "tsizes ?xs = N")
          case True
          have "length ?xs - Suc it < k" using prems(2) it by simp
          from inner [OF this True refl _ pre, of it] show ?thesis unfolding eq size(2) using True prems(1) by simp
        next
          case False
          then have "tsizes ?xs < N" using size(1) prems(1) by simp
          from outer [OF this refl refl _ pre, of it] show ?thesis
            unfolding eq size(2) using size(1) le_trans by fastforce
        qed
      qed
    qed
  qed
qed

text \<open>C28.  \<open>ArrangeTree\<close> always ends, keeps every node that has no sub-tree, and leaves no tree below the root
  that its sub-trees cover.
\<close>

theorem ArrangeTree_settles:
  "\<exists>t'. ArrangeTree ex t = Some t' \<and> settled ex t' \<and> mset (tips t') = mset (tips t) \<and> tnode t' = tnode t \<and> tsize t' \<le> tsize t"
proof -
  obtain ys where ys: "arrange_loop ex (subs t) 0 0 = Some ys" "all_tips ys = all_tips (subs t)"
    "tsizes ys \<le> tsizes (subs t)" "\<forall>s \<in> set ys. settled ex s \<and> \<not> covered ex s"
    using arrange_loop_settled [OF refl refl, of 0 0 "subs t" ex] by auto
  have "settled ex (set_subs ys t)" using ys(4) by (cases t) (simp add: set_subs_def list_all_iff)
  then show ?thesis
    using ys mset_tips_subs [OF ys(2)] by (simp add: ArrangeTree_def tsize_tree [of t] tsize_tree [of "set_subs ys t"])
qed

text \<open>
  A node added after two nodes it contains takes the first of them only: the loop passes over the
  sub-tree that follows an erased first one.  With one sub-tree it leaves the list at its end.
\<close>

lemma IsAncest_sample:
  "IsAncest (dom_of sample_page) (Some [0, 0]) (Some [0, 0, i]) = Some (i < 2)"
  by (simp add: IsAncest.simps dom_of_simps sample_page_def)

lemma AddSub_skips:
  "AddSub (dom_of sample_page) (leaf_tree ([0, 0], Fin 0)) (NodeTree None (Fin 0) [leaf_tree ([0, 0, 0], Fin 0), leaf_tree ([0, 0, 1], Fin 0)])
   = Some (Inr (NodeTree None (Fin 0) [leaf_tree ([0, 0, 1], Fin 0), NodeTree (Some [0, 0]) (Fin 0) [leaf_tree ([0, 0, 0], Fin 0)]]))"
  "AddSub (dom_of sample_page) (leaf_tree ([0, 0], Fin 0)) (NodeTree None (Fin 0) [leaf_tree ([0, 0, 0], Fin 0)]) = Some (Inl BadIterator)"
  by (simp_all add: AddSub_def leaf_tree_def add_loop.simps [of _ _ "[]"] add_loop.simps [of _ _ "_ # _"] IsAncest_sample
      set_subs_def erase_nth_def)

end
