(* ===== verification/LayerCluster.thy ===== *)
theory LayerCluster
  imports Distance CxxMap FloatArith "HOL-Library.Multiset"
begin

text \<open>
  \<open>DisCrawler/DOMAttUtil/LayerCluster.cpp\<close>: agglomerative clusters of indexed lists of strings under
  the edit distance \<open>LD(string)\<close>, whose values are remembered under the key \<open>i * 10000 + j\<close>.  A class
  is its centre and its members; a position in the list of classes is an index, the iterators
  \<open>it\<close>, \<open>sit\<close> and \<open>last\<close> of \<open>Cluster\<close> are the positions \<open>i\<close>, \<open>j\<close> and \<open>l\<close>, and the use of an iterator to an
  erased class is \<open>BadIterator\<close>.  (The functions declared \<open>bool\<close> that return nothing are modelled by
  their effect.)
\<close>

type_synonym lclass = "int \<times> int list"

record layer_cluster =
  vatts :: "(int, bytes list) cmap"
  lc_classes :: "lclass list"
  distMap :: "(int, flt) cmap"

definition new_LayerCluster :: layer_cluster where
  "new_LayerCluster = \<lparr>vatts = [], lc_classes = [], distMap = []\<rparr>"

section \<open>Strings and classes\<close>

definition GetAtt :: "int \<Rightarrow> layer_cluster \<Rightarrow> bytes list \<times> layer_cluster" where
  "GetAtt index s = (let (l, m) = cmap_at index [] (vatts s) in (l, s\<lparr>vatts := m\<rparr>))"

definition AddString :: "bytes \<Rightarrow> int \<Rightarrow> layer_cluster \<Rightarrow> layer_cluster" where
  "AddString str index s =
     s\<lparr>vatts := (case cmap_find (vatts s) index of
        Some l \<Rightarrow> cmap_set index (l @ [str]) (vatts s)
      | None \<Rightarrow> cmap_insert index [str] (vatts s))\<rparr>"

definition AddString_list :: "bytes list \<Rightarrow> int \<Rightarrow> layer_cluster \<Rightarrow> layer_cluster" where
  "AddString_list strs index s =
     s\<lparr>vatts := (case cmap_find (vatts s) index of
        Some l \<Rightarrow> cmap_set index (l @ strs) (vatts s)
      | None \<Rightarrow> cmap_insert index strs (vatts s))\<rparr>"

definition AddString_map :: "(int, bytes list) cmap \<Rightarrow> layer_cluster \<Rightarrow> layer_cluster" where
  "AddString_map strs s = s\<lparr>vatts := fold (\<lambda>(k, v). cmap_insert k v) strs (vatts s)\<rparr>"

definition GetClassID :: "layer_cluster \<Rightarrow> int list" where
  "GetClassID s = map fst (lc_classes s)"

definition GetClassByID :: "int \<Rightarrow> layer_cluster \<Rightarrow> int list" where
  "GetClassByID i s = (case find (\<lambda>c. fst c = i) (lc_classes s) of Some c \<Rightarrow> snd c | None \<Rightarrow> [])"

section \<open>Distances\<close>

text \<open>The loop runs over the strings of \<open>i\<close>; the iterator over those of \<open>j\<close> is not tested.\<close>

fun sum_LD :: "bytes list \<Rightarrow> bytes list \<Rightarrow> flt \<Rightarrow> flt res" where
  "sum_LD [] js ret = Inr ret"
| "sum_LD (a # is) [] ret = Inl BadIterator"
| "sum_LD (a # is) (b # js) ret = bindE (LD_string a b) (\<lambda>d. sum_LD is js (fadd f64 ret (f64 (of_int d))))"

definition fits_int :: "int \<Rightarrow> bool" where
  "fits_int i \<longleftrightarrow> - (2 ^ 31) \<le> i \<and> i < 2 ^ 31"

definition combine :: "int \<Rightarrow> int \<Rightarrow> int res" where
  "combine i j =
     (if fits_int (i * 10000) \<and> fits_int (i * 10000 + j) then Inr (i * 10000 + j) else Inl SizeOverflow)"

definition AttDist :: "int \<Rightarrow> int \<Rightarrow> layer_cluster \<Rightarrow> (flt \<times> layer_cluster) res" where
  "AttDist i j s =
     bindE (combine i j) (\<lambda>k.
       case cmap_find (distMap s) k of
         Some d \<Rightarrow> Inr (d, s)
       | None \<Rightarrow>
           (let (li, m) = cmap_at i [] (vatts s); (lj, m) = cmap_at j [] m
            in bindE (sum_LD li lj (Fin 0)) (\<lambda>ret.
                 Inr (ret, s\<lparr>vatts := m, distMap := cmap_insert k ret (distMap s)\<rparr>))))"

definition CacuTDist :: "int list \<Rightarrow> int \<Rightarrow> layer_cluster \<Rightarrow> (flt \<times> layer_cluster) res" where
  "CacuTDist indexs index s =
     foldE (\<lambda>x (ret, s). bindE (AttDist index x s) (\<lambda>(d, s). Inr (fadd f64 ret d, s))) indexs (Fin 0, s)"

abbreviation INT_MAX :: flt where "INT_MAX \<equiv> Fin 2147483647"

definition CacuCenter :: "int list \<Rightarrow> layer_cluster \<Rightarrow> (int \<times> layer_cluster) res" where
  "CacuCenter indexs s =
     bindE (foldE (\<lambda>x (mn, ret, s). bindE (CacuTDist indexs x s) (\<lambda>(cur, s).
              Inr (if flt_less cur mn then (cur, x, s) else (mn, ret, s)))) indexs (INT_MAX, 0, s))
       (\<lambda>(mn, ret, s). Inr (ret, s))"

definition MergeClass :: "lclass \<Rightarrow> lclass \<Rightarrow> layer_cluster \<Rightarrow> (lclass \<times> layer_cluster) res" where
  "MergeClass class1 class2 s =
     (let tmp = snd class1 @ snd class2
      in bindE (CacuCenter tmp s) (\<lambda>(cen, s). Inr ((cen, tmp), s)))"

definition GetClassDist :: "int \<Rightarrow> layer_cluster \<Rightarrow> (flt \<times> layer_cluster) res" where
  "GetClassDist i s =
     (case find (\<lambda>c. fst c = i) (lc_classes s) of
        Some c \<Rightarrow> bindE (CacuTDist (snd c) (fst c) s) (\<lambda>(dist, s).
                    Inr (fdiv f64 dist (f64 (of_nat (length (snd c)))), s))
      | None \<Rightarrow> Inr (Fin (- 1), s))"

text \<open>One class: the member nearest to \<open>dest\<close>, by the first string.\<close>

definition nearest_member :: "bytes \<Rightarrow> int list \<Rightarrow> layer_cluster \<Rightarrow> (int \<times> layer_cluster) res" where
  "nearest_member dest ms s =
     bindE (foldE (\<lambda>x (mn, tarCen, s).
              let (l, s) = GetAtt x s
              in case l of
                   [] \<Rightarrow> Inl BadIterator
                 | str # _ \<Rightarrow> bindE (LD_string dest str) (\<lambda>d.
                     let cur = f64 (of_int d)
                     in Inr (if flt_less cur mn then (cur, x, s) else (mn, tarCen, s)))) ms (INT_MAX, - 1, s))
       (\<lambda>(mn, tarCen, s). Inr (tarCen, s))"

fun change_centers :: "bytes \<Rightarrow> lclass list \<Rightarrow> layer_cluster \<Rightarrow> (lclass list \<times> layer_cluster) res" where
  "change_centers dest [] s = Inr ([], s)"
| "change_centers dest (c # cs) s =
     bindE (nearest_member dest (snd c) s) (\<lambda>(tarCen, s).
       bindE (change_centers dest cs s) (\<lambda>(cs', s).
         Inr ((if 0 < tarCen then (tarCen, snd c) else c) # cs', s)))"

definition ChangeCenter :: "bytes \<Rightarrow> layer_cluster \<Rightarrow> layer_cluster res" where
  "ChangeCenter dest s =
     bindE (change_centers dest (lc_classes s) s) (\<lambda>(cs, s). Inr (s\<lparr>lc_classes := cs\<rparr>))"

section \<open>\<open>Cluster\<close>\<close>

text \<open>
  The inner loop over \<open>sit\<close>.  Its result: the classes, the position of \<open>it\<close>, the least distance not
  below \<open>dy_low\<close> with its pair, and whether classes were merged.
\<close>

type_synonym scan = "lclass list \<times> nat \<times> flt \<times> (nat \<times> nat) option \<times> bool \<times> layer_cluster"

function cluster_inner :: "int \<Rightarrow> lclass list \<Rightarrow> nat \<Rightarrow> nat \<Rightarrow> nat \<Rightarrow> flt \<Rightarrow> (nat \<times> nat) option \<Rightarrow> bool \<Rightarrow>
    layer_cluster \<Rightarrow> scan res" where
  "cluster_inner dy_low cls i j l mn tit hasMerg s =
     (if length cls \<le> j then Inr (cls, i, mn, tit, hasMerg, s)
      else if fst (cls ! i) = fst (cls ! j) then cluster_inner dy_low cls i (j + 1) l mn tit hasMerg s
      else
        bindE (AttDist (fst (cls ! i)) (fst (cls ! j)) s) (\<lambda>(dist, s).
          if flt_less dist (Fin (of_int dy_low)) then
            bindE (MergeClass (cls ! i) (cls ! j) s) (\<lambda>(newclass, s).
              if l = j then Inl BadIterator
              else cluster_inner dy_low (erase_nth j (cls[i := newclass])) (if j < i then i - 1 else i) (l + 1) l mn tit True s)
          else if flt_less dist mn then cluster_inner dy_low cls i (j + 1) j dist (Some (i, j)) hasMerg s
          else cluster_inner dy_low cls i (j + 1) j mn tit hasMerg s))"
  by pat_completeness auto
termination
  by (relation "measures [\<lambda>(_, cls, _, _, _, _, _, _, _). length cls, \<lambda>(_, cls, _, j, _, _, _, _, _). length cls - j]") auto

declare cluster_inner.simps [simp del]

text \<open>The invariant rule of the inner loop: what each of its three steps keeps holds at its end.\<close>

lemma cluster_inner_inv:
  assumes run: "cluster_inner dy_low cls i j l mn tit hasMerg s = Inr (cls', i', mn', tit', hasMerg', s')"
    and P: "P cls i j l mn tit hasMerg s"
    and same: "\<And>cls i j l mn tit hasMerg s. P cls i j l mn tit hasMerg s \<Longrightarrow> j < length cls \<Longrightarrow>
       fst (cls ! i) = fst (cls ! j) \<Longrightarrow> P cls i (j + 1) l mn tit hasMerg s"
    and merge: "\<And>cls i j l mn tit hasMerg s dist s1 newclass s2. P cls i j l mn tit hasMerg s \<Longrightarrow> j < length cls \<Longrightarrow>
       fst (cls ! i) \<noteq> fst (cls ! j) \<Longrightarrow> AttDist (fst (cls ! i)) (fst (cls ! j)) s = Inr (dist, s1) \<Longrightarrow>
       flt_less dist (Fin (of_int dy_low)) \<Longrightarrow> MergeClass (cls ! i) (cls ! j) s1 = Inr (newclass, s2) \<Longrightarrow> l \<noteq> j \<Longrightarrow>
       P (erase_nth j (cls[i := newclass])) (if j < i then i - 1 else i) (l + 1) l mn tit True s2"
    and far: "\<And>cls i j l mn tit hasMerg s dist s1. P cls i j l mn tit hasMerg s \<Longrightarrow> j < length cls \<Longrightarrow>
       fst (cls ! i) \<noteq> fst (cls ! j) \<Longrightarrow> AttDist (fst (cls ! i)) (fst (cls ! j)) s = Inr (dist, s1) \<Longrightarrow>
       \<not> flt_less dist (Fin (of_int dy_low)) \<Longrightarrow>
       P cls i (j + 1) j (if flt_less dist mn then dist else mn) (if flt_less dist mn then Some (i, j) else tit) hasMerg s1"
  shows "\<exists>j' l'. P cls' i' j' l' mn' tit' hasMerg' s' \<and> length cls' \<le> j'"
  using assms
proof (induction dy_low cls i j l mn tit hasMerg s rule: cluster_inner.induct)
  case (1 dy_low cls i j l mn tit hasMerg s)
  note run = 1(5) and P = 1(6) and same = 1(7) and merge = 1(8) and far = 1(9)
  show ?case
  proof (cases "length cls \<le> j")
    case True
    then show ?thesis using run P by (auto simp: cluster_inner.simps [of dy_low cls])
  next
    case False
    then have j: "j < length cls" by simp
    show ?thesis
    proof (cases "fst (cls ! i) = fst (cls ! j)")
      case True
      then have "cluster_inner dy_low cls i (j + 1) l mn tit hasMerg s = Inr (cls', i', mn', tit', hasMerg', s')"
        using run False by (simp add: cluster_inner.simps [of dy_low cls i j])
      from 1(1) [OF False True this same [OF P j True] same merge far] show ?thesis .
    next
      case differ: False
      obtain dist s1 where d: "AttDist (fst (cls ! i)) (fst (cls ! j)) s = Inr (dist, s1)"
        using run False differ
        by (cases "AttDist (fst (cls ! i)) (fst (cls ! j)) s") (auto simp: cluster_inner.simps [of dy_low cls i j])
      show ?thesis
      proof (cases "flt_less dist (Fin (of_int dy_low))")
        case True
        obtain newclass s2 where m: "MergeClass (cls ! i) (cls ! j) s1 = Inr (newclass, s2)" and lj: "l \<noteq> j"
          using run False differ d True
          by (cases "MergeClass (cls ! i) (cls ! j) s1") (auto simp: cluster_inner.simps [of dy_low cls i j] split: if_splits)
        have r: "cluster_inner dy_low (erase_nth j (cls[i := newclass])) (if j < i then i - 1 else i) (l + 1) l mn tit True s2 =
            Inr (cls', i', mn', tit', hasMerg', s')"
          using run False differ d True m lj by (simp add: cluster_inner.simps [of dy_low cls i j])
        from 1(2) [OF False differ d refl True m refl lj r merge [OF P j differ d True m lj] same merge far] show ?thesis .
      next
        case far': False
        have r: "cluster_inner dy_low cls i (j + 1) j (if flt_less dist mn then dist else mn)
            (if flt_less dist mn then Some (i, j) else tit) hasMerg s1 = Inr (cls', i', mn', tit', hasMerg', s')"
          using run False differ d far' by (simp add: cluster_inner.simps [of dy_low cls i j] split: if_splits)
        note P' = far [OF P j differ d far']
        show ?thesis
        proof (cases "flt_less dist mn")
          case True
          from 1(3) [OF False differ d refl far' True] r P' same merge far show ?thesis by (simp add: True)
        next
          case nless: False
          from 1(4) [OF False differ d refl far' nless] r P' same merge far show ?thesis by (simp add: nless)
        qed
      qed
    qed
  qed
qed

lemma cluster_inner_sizes:
  assumes "cluster_inner dy_low cls i j l mn tit hasMerg s = Inr (cls', i', mn', tit', hasMerg', s')" and "i < length cls"
  shows "i' < length cls' \<and> length cls' - i' \<le> length cls - i \<and> length cls' \<le> length cls \<and>
     (hasMerg' \<longrightarrow> hasMerg \<or> length cls' < length cls) \<and> (hasMerg \<longrightarrow> hasMerg')"
proof -
  define P where "P cls1 i1 (j1 :: nat) (l1 :: nat) (mn1 :: flt) (tit1 :: (nat \<times> nat) option) hasMerg1 (s1 :: layer_cluster) \<longleftrightarrow>
      i1 < length (cls1 :: lclass list) \<and> length cls1 - i1 \<le> length cls - i \<and> length cls1 \<le> length cls \<and>
      (hasMerg1 \<longrightarrow> hasMerg \<or> length cls1 < length cls) \<and> (hasMerg \<longrightarrow> hasMerg1)"
    for cls1 i1 j1 l1 mn1 tit1 hasMerg1 s1
  have "\<exists>j' l'. P cls' i' j' l' mn' tit' hasMerg' s' \<and> length cls' \<le> j'"
  proof (rule cluster_inner_inv [OF assms(1), where P = P])
    show "P cls i j l mn tit hasMerg s" using assms(2) by (simp add: P_def)
  next
    fix cls1 i1 j1 l1 mn1 tit1 hasMerg1 s1 dist s2 newclass s3
    assume "P cls1 i1 j1 l1 mn1 tit1 hasMerg1 s1" "j1 < length cls1" "fst (cls1 ! i1) \<noteq> fst (cls1 ! j1)"
    then show "P (erase_nth j1 (cls1[i1 := newclass])) (if j1 < i1 then i1 - 1 else i1) (l1 + 1) l1 mn1 tit1 True s3"
      by (cases "i1 = j1") (auto simp: P_def)
  qed (simp_all add: P_def)
  then show ?thesis by (simp add: P_def)
qed

text \<open>The loop over \<open>it\<close>: after a merge the inner loop starts at the first class again.\<close>

function cluster_outer :: "int \<Rightarrow> lclass list \<Rightarrow> nat \<Rightarrow> flt \<Rightarrow> (nat \<times> nat) option \<Rightarrow> bool \<Rightarrow> layer_cluster \<Rightarrow>
    (lclass list \<times> flt \<times> (nat \<times> nat) option \<times> bool \<times> layer_cluster) res" where
  "cluster_outer dy_low cls i mn tit hasMerg s =
     (if length cls \<le> i then Inr (cls, mn, tit, hasMerg, s)
      else
        let beg = (if hasMerg then 0 else i)
        in bindE (cluster_inner dy_low cls i beg beg mn tit hasMerg s) (\<lambda>(cls', i', mn', tit', hasMerg', s').
             cluster_outer dy_low cls' (i' + 1) mn' tit' hasMerg' s'))"
  by pat_completeness auto
termination
  by (relation "measure (\<lambda>(_, cls, i, _). length cls - i)") (auto dest!: cluster_inner_sizes)

declare cluster_outer.simps [simp del]

lemma cluster_outer_inv:
  assumes run: "cluster_outer dy_low cls i mn tit hasMerg s = Inr (cls', mn', tit', hasMerg', s')"
    and P: "P cls i mn tit hasMerg s"
    and step: "\<And>cls i mn tit hasMerg s cls1 i1 mn1 tit1 hasMerg1 s1. P cls i mn tit hasMerg s \<Longrightarrow> i < length cls \<Longrightarrow>
       cluster_inner dy_low cls i (if hasMerg then 0 else i) (if hasMerg then 0 else i) mn tit hasMerg s =
         Inr (cls1, i1, mn1, tit1, hasMerg1, s1) \<Longrightarrow> P cls1 (i1 + 1) mn1 tit1 hasMerg1 s1"
  shows "\<exists>i'. P cls' i' mn' tit' hasMerg' s' \<and> length cls' \<le> i'"
  using assms
proof (induction dy_low cls i mn tit hasMerg s rule: cluster_outer.induct)
  case (1 dy_low cls i mn tit hasMerg s)
  note run = 1(2) and P = 1(3) and step = 1(4)
  show ?case
  proof (cases "length cls \<le> i")
    case True
    then show ?thesis using run P by (auto simp: cluster_outer.simps [of dy_low cls])
  next
    case False
    let ?b = "if hasMerg then 0 else i"
    obtain cls1 i1 mn1 tit1 hasMerg1 s1 where r: "cluster_inner dy_low cls i ?b ?b mn tit hasMerg s = Inr (cls1, i1, mn1, tit1, hasMerg1, s1)"
      using run False
      by (cases "cluster_inner dy_low cls i ?b ?b mn tit hasMerg s") (auto simp: cluster_outer.simps [of dy_low cls] Let_def)
    have run': "cluster_outer dy_low cls1 (i1 + 1) mn1 tit1 hasMerg1 s1 = Inr (cls', mn', tit', hasMerg', s')"
      using run False r by (simp add: cluster_outer.simps [of dy_low cls] Let_def)
    have "i < length cls" using False by simp
    from 1(1) [OF False refl r refl refl refl refl refl run' step [OF P this r] step] show ?thesis .
  qed
qed

lemma cluster_outer_sizes:
  assumes "cluster_outer dy_low cls i mn tit hasMerg s = Inr (cls', mn', tit', hasMerg', s')"
  shows "length cls' \<le> length cls \<and> (hasMerg' \<longrightarrow> hasMerg \<or> length cls' < length cls)"
proof -
  define P where "P cls1 (i1 :: nat) (mn1 :: flt) (tit1 :: (nat \<times> nat) option) hasMerg1 (s1 :: layer_cluster) \<longleftrightarrow>
      length (cls1 :: lclass list) \<le> length cls \<and> (hasMerg1 \<longrightarrow> hasMerg \<or> length cls1 < length cls)"
    for cls1 i1 mn1 tit1 hasMerg1 s1
  have "\<exists>i'. P cls' i' mn' tit' hasMerg' s' \<and> length cls' \<le> i'"
  proof (rule cluster_outer_inv [OF assms(1), where P = P])
    fix cls1 i1 mn1 tit1 hasMerg1 s1 cls2 i2 mn2 tit2 hasMerg2 s2
    assume "P cls1 i1 mn1 tit1 hasMerg1 s1" and i: "i1 < length cls1"
      and r: "cluster_inner dy_low cls1 i1 (if hasMerg1 then 0 else i1) (if hasMerg1 then 0 else i1) mn1 tit1 hasMerg1 s1 =
         Inr (cls2, i2, mn2, tit2, hasMerg2, s2)"
    then show "P cls2 (i2 + 1) mn2 tit2 hasMerg2 s2"
      using cluster_inner_sizes [OF r i] by (auto simp: P_def)
  qed (simp add: P_def)
  then show ?thesis by (simp add: P_def)
qed

text \<open>The \<open>while\<close> loop.  When nothing was merged, the nearest pair is merged unless it is farther apart
  than \<open>dy_high\<close>; \<open>tit1\<close> and \<open>tit2\<close> are not set when no pair was compared below \<open>INT_MAX\<close>.\<close>

function cluster_rounds :: "int \<Rightarrow> int \<Rightarrow> lclass list \<Rightarrow> layer_cluster \<Rightarrow> (lclass list \<times> layer_cluster) res" where
  "cluster_rounds dy_high dy_low cls s =
     bindE (cluster_outer dy_low cls 0 INT_MAX None False s) (\<lambda>(cls', mn, tit, hasMerg, s').
       if length cls' \<le> 1 then Inr (cls', s')
       else if hasMerg then cluster_rounds dy_high dy_low cls' s'
       else if flt_less (Fin (of_int dy_high)) mn then Inr (cls', s')
       else
         (case tit of
            None \<Rightarrow> Inl BadIterator
          | Some (a, b) \<Rightarrow>
              (if length cls' \<le> b then Inl BadIterator
               else
                 bindE (MergeClass (cls' ! a) (cls' ! b) s') (\<lambda>(newclass, s'').
                   cluster_rounds dy_high dy_low (erase_nth b (cls'[a := newclass])) s''))))"
  by pat_completeness auto
termination
  by (relation "measure (\<lambda>(_, _, cls, _). length cls)") (fastforce dest: cluster_outer_sizes)+

declare cluster_rounds.simps [simp del]

definition Cluster :: "int \<Rightarrow> int \<Rightarrow> layer_cluster \<Rightarrow> layer_cluster res" where
  "Cluster dy_high dy_low s =
     bindE (cluster_rounds dy_high dy_low (lc_classes s @ map (\<lambda>(i, _). (i, [i])) (vatts s)) s) (\<lambda>(cls, s).
       Inr (s\<lparr>lc_classes := cls\<rparr>))"

section \<open>Distances are remembered\<close>

definition keeps :: "layer_cluster \<Rightarrow> layer_cluster \<Rightarrow> bool" where
  "keeps s s' \<longleftrightarrow> (cmap_ok (distMap s) \<longrightarrow> cmap_ok (distMap s')) \<and>
     (cmap_ok (distMap s) \<longrightarrow> (\<forall>k d. cmap_find (distMap s) k = Some d \<longrightarrow> cmap_find (distMap s') k = Some d))"

lemma keeps_refl [simp]: "keeps s s"
  by (simp add: keeps_def)

lemma keeps_trans: "keeps s s1 \<Longrightarrow> keeps s1 s2 \<Longrightarrow> keeps s s2"
  by (simp add: keeps_def)

lemma AttDist_keeps: "AttDist i j s = Inr (d, s') \<Longrightarrow> keeps s s'"
  by (cases "combine i j")
    (auto simp: AttDist_def keeps_def cmap_at_def cxx_simps split: option.splits prod.splits)

lemma foldE_keeps:
  assumes "\<And>x a b. f x a = Inr b \<Longrightarrow> keeps (st a) (st b)"
  shows "foldE f xs a = Inr b \<Longrightarrow> keeps (st a) (st b)"
proof (induction xs arbitrary: a)
  case (Cons x xs)
  then obtain c where "f x a = Inr c" "foldE f xs c = Inr b" by (cases "f x a") auto
  then show ?case using assms Cons.IH keeps_trans by blast
qed simp

lemma CacuTDist_keeps: "CacuTDist xs i s = Inr (d, s') \<Longrightarrow> keeps s s'"
  unfolding CacuTDist_def
  by (drule foldE_keeps [where st = snd, rotated]) (auto simp: cxx_simps dest: AttDist_keeps)

lemma CacuCenter_keeps: "CacuCenter xs s = Inr (c, s') \<Longrightarrow> keeps s s'"
proof -
  assume "CacuCenter xs s = Inr (c, s')"
  then obtain mn where "foldE (\<lambda>x (mn, ret, s). bindE (CacuTDist xs x s) (\<lambda>(cur, s).
      Inr (if flt_less cur mn then (cur, x, s) else (mn, ret, s)))) xs (INT_MAX, 0, s) = Inr (mn, c, s')"
    by (auto simp: CacuCenter_def cxx_simps)
  then show ?thesis
    by (drule_tac foldE_keeps [where st = "snd \<circ> snd", rotated]) (auto simp: cxx_simps dest: CacuTDist_keeps split: if_splits)
qed

lemma MergeClass_keeps: "MergeClass a b s = Inr (c, s') \<Longrightarrow> keeps s s'"
  by (auto simp: MergeClass_def Let_def cxx_simps dest: CacuCenter_keeps)

lemma MergeClass_members: "MergeClass a b s = Inr (c, s') \<Longrightarrow> snd c = snd a @ snd b"
  by (auto simp: MergeClass_def Let_def cxx_simps)

section \<open>Members\<close>

definition all_members :: "lclass list \<Rightarrow> int multiset" where
  "all_members cls = sum_list (map (mset \<circ> snd) cls)"

lemma all_members_concat: "all_members cls = mset (concat (map snd cls))"
  by (induction cls) (simp_all add: all_members_def)

lemma all_members_erase:
  "j < length cls \<Longrightarrow> all_members cls = mset (snd (cls ! j)) + all_members (erase_nth j cls)"
  by (subst id_take_nth_drop [of j cls]) (simp_all add: all_members_def erase_nth_def)

lemma all_members_update:
  "i < length cls \<Longrightarrow> all_members (cls[i := c]) + mset (snd (cls ! i)) = all_members cls + mset (snd c)"
proof -
  assume i: "i < length cls"
  have "all_members (cls[i := c]) = mset (snd c) + all_members (erase_nth i cls)"
    using all_members_erase [of i "cls[i := c]"] i by (simp add: erase_nth_def)
  then show ?thesis using all_members_erase [OF i] by (simp add: ac_simps)
qed

lemma all_members_merge:
  assumes "i < length cls" "j < length cls" "i \<noteq> j" and "snd c = snd (cls ! i) @ snd (cls ! j)"
  shows "all_members (erase_nth j (cls[i := c])) = all_members cls"
proof -
  have "all_members (cls[i := c]) = mset (snd (cls ! j)) + all_members (erase_nth j (cls[i := c]))"
    using all_members_erase [of j "cls[i := c]"] assms by simp
  moreover have "all_members (cls[i := c]) + mset (snd (cls ! i)) = all_members cls + mset (snd c)"
    using all_members_update assms(1) .
  ultimately show ?thesis by (simp add: assms(4) ac_simps)
qed

section \<open>A round without a merge\<close>

lemma flt_less_trans: "flt_less x y \<Longrightarrow> flt_less y z \<Longrightarrow> flt_less x z"
  by (cases x; cases y; cases z) auto

lemma flt_less_irrefl [simp]: "\<not> flt_less x x"
  by (cases x) auto

text \<open>The pair was compared: its distance is remembered and is below neither bound.\<close>

definition compared :: "int \<Rightarrow> flt \<Rightarrow> layer_cluster \<Rightarrow> int \<Rightarrow> int \<Rightarrow> bool" where
  "compared dy_low mn s a b \<longleftrightarrow>
     (\<exists>k d. combine a b = Inr k \<and> cmap_find (distMap s) k = Some d \<and>
        \<not> flt_less d (Fin (of_int dy_low)) \<and> \<not> flt_less d mn)"

lemma compared_mono:
  "compared dy_low mn s a b \<Longrightarrow> keeps s s' \<Longrightarrow> cmap_ok (distMap s) \<Longrightarrow> mn' = mn \<or> flt_less mn' mn \<Longrightarrow>
     compared dy_low mn' s' a b"
  unfolding compared_def keeps_def by (metis flt_less_trans)

lemma AttDist_stores:
  "AttDist i j s = Inr (d, s') \<Longrightarrow> cmap_ok (distMap s) \<Longrightarrow>
     \<exists>k. combine i j = Inr k \<and> cmap_find (distMap s') k = Some d"
  by (cases "combine i j") (auto simp: AttDist_def cmap_at_def cxx_simps split: option.splits prod.splits)

definition pair_ok :: "(nat \<times> nat) option \<Rightarrow> lclass list \<Rightarrow> bool" where
  "pair_ok tit cls \<longleftrightarrow> (case tit of None \<Rightarrow> True | Some (a, b) \<Rightarrow> a < b \<and> b < length cls)"

lemma cluster_inner_unmerged:
  assumes "cluster_inner dy_low cls i i i mn tit False s = Inr (cls', i', mn', tit', False, s')"
    and "i < length cls" and "cmap_ok (distMap s)" and "pair_ok tit cls"
  shows "cls' = cls \<and> i' = i \<and> keeps s s' \<and> (mn' = mn \<or> flt_less mn' mn) \<and> pair_ok tit' cls \<and>
     (\<forall>b. i < b \<and> b < length cls \<and> fst (cls ! i) \<noteq> fst (cls ! b) \<longrightarrow> compared dy_low mn' s' (fst (cls ! i)) (fst (cls ! b)))"
proof -
  define P where "P cls1 i1 j1 (l1 :: nat) mn1 tit1 hasMerg1 s1 \<longleftrightarrow>
      hasMerg1 \<or> (cls1 = cls \<and> i1 = i \<and> i \<le> j1 \<and> keeps s s1 \<and> (mn1 = mn \<or> flt_less mn1 mn) \<and> pair_ok tit1 cls \<and>
        (\<forall>b. i < b \<and> b < j1 \<and> fst (cls ! i) \<noteq> fst (cls ! b) \<longrightarrow> compared dy_low mn1 s1 (fst (cls ! i)) (fst (cls ! b))))"
    for cls1 i1 j1 l1 mn1 tit1 hasMerg1 s1
  have "\<exists>j' l'. P cls' i' j' l' mn' tit' False s' \<and> length cls' \<le> j'"
  proof (rule cluster_inner_inv [OF assms(1), where P = P])
    show "P cls i i i mn tit False s" using assms(4) by (auto simp: P_def)
  next
    fix cls1 i1 j1 l1 mn1 tit1 hasMerg1 s1
    assume "P cls1 i1 j1 l1 mn1 tit1 hasMerg1 s1" "fst (cls1 ! i1) = fst (cls1 ! j1)"
    then show "P cls1 i1 (j1 + 1) l1 mn1 tit1 hasMerg1 s1" by (auto simp: P_def less_Suc_eq)
  next
    fix cls1 l1 mn1 tit1 hasMerg1 s1 dist s2 and i1 j1 :: nat
    let ?mn = "if flt_less dist mn1 then dist else mn1" and ?tit = "if flt_less dist mn1 then Some (i1, j1) else tit1"
    assume old: "P cls1 i1 j1 l1 mn1 tit1 hasMerg1 s1" and j: "j1 < length cls1" and ne: "fst (cls1 ! i1) \<noteq> fst (cls1 ! j1)"
      and d: "AttDist (fst (cls1 ! i1)) (fst (cls1 ! j1)) s1 = Inr (dist, s2)" and low: "\<not> flt_less dist (Fin (of_int dy_low))"
    show "P cls1 i1 (j1 + 1) j1 ?mn ?tit hasMerg1 s2"
    proof (cases hasMerg1)
      case False
      with old have o: "cls1 = cls" "i1 = i" "i \<le> j1" "keeps s s1" "mn1 = mn \<or> flt_less mn1 mn" "pair_ok tit1 cls"
        and seen: "\<And>b. i < b \<Longrightarrow> b < j1 \<Longrightarrow> fst (cls ! i) \<noteq> fst (cls ! b) \<Longrightarrow> compared dy_low mn1 s1 (fst (cls ! i)) (fst (cls ! b))"
        by (simp_all add: P_def)
      have k: "keeps s1 s2" using d by (rule AttDist_keeps)
      have ok: "cmap_ok (distMap s1)" using o(4) assms(3) by (simp add: keeps_def)
      have "i \<noteq> j1" using ne o(2) by auto
      then have p: "pair_ok ?tit cls" using o j by (simp add: pair_ok_def)
      have m: "?mn = mn1 \<or> flt_less ?mn mn1" by simp
      have "compared dy_low ?mn s2 (fst (cls ! i)) (fst (cls ! j1))"
        using AttDist_stores [OF d ok] low o(1,2) by (auto simp: compared_def)
      then have "compared dy_low ?mn s2 (fst (cls ! i)) (fst (cls ! b))"
        if "i < b" "b < j1 + 1" "fst (cls ! i) \<noteq> fst (cls ! b)" for b
        using that seen [of b] compared_mono [OF _ k ok m] by (cases "b = j1") auto
      then show ?thesis
        using o p keeps_trans [OF o(4) k] m by (auto simp: P_def dest: flt_less_trans)
    qed (simp add: P_def)
  qed (simp add: P_def)
  then show ?thesis by (auto simp: P_def)
qed

lemma cluster_outer_unmerged:
  assumes "cluster_outer dy_low cls 0 mn None False s = Inr (cls', mn', tit', False, s')" and "cmap_ok (distMap s)"
  shows "cls' = cls \<and> keeps s s' \<and> pair_ok tit' cls \<and>
     (\<forall>a b. a < b \<and> b < length cls \<and> fst (cls ! a) \<noteq> fst (cls ! b) \<longrightarrow> compared dy_low mn' s' (fst (cls ! a)) (fst (cls ! b)))"
proof -
  define P where "P cls1 i1 mn1 tit1 hasMerg1 s1 \<longleftrightarrow>
      hasMerg1 \<or> (cls1 = cls \<and> keeps s s1 \<and> pair_ok tit1 cls \<and>
        (\<forall>a b. a < i1 \<and> a < b \<and> b < length cls \<and> fst (cls ! a) \<noteq> fst (cls ! b) \<longrightarrow>
           compared dy_low mn1 s1 (fst (cls ! a)) (fst (cls ! b))))"
    for cls1 i1 mn1 tit1 hasMerg1 s1
  have "\<exists>i'. P cls' i' mn' tit' False s' \<and> length cls' \<le> i'"
  proof (rule cluster_outer_inv [OF assms(1), where P = P])
    show "P cls 0 mn None False s" by (simp add: P_def pair_ok_def)
  next
    fix cls1 i1 mn1 tit1 hasMerg1 s1 cls2 i2 mn2 tit2 hasMerg2 s2
    assume old: "P cls1 i1 mn1 tit1 hasMerg1 s1" and i: "i1 < length cls1"
      and r: "cluster_inner dy_low cls1 i1 (if hasMerg1 then 0 else i1) (if hasMerg1 then 0 else i1) mn1 tit1 hasMerg1 s1 =
         Inr (cls2, i2, mn2, tit2, hasMerg2, s2)"
    show "P cls2 (i2 + 1) mn2 tit2 hasMerg2 s2"
    proof (cases hasMerg2)
      case False
      then have "\<not> hasMerg1" using cluster_inner_sizes [OF r i] by blast
      with old have o: "cls1 = cls" "keeps s s1" "pair_ok tit1 cls"
        and seen: "\<And>a b. a < i1 \<Longrightarrow> a < b \<Longrightarrow> b < length cls \<Longrightarrow> fst (cls ! a) \<noteq> fst (cls ! b) \<Longrightarrow>
           compared dy_low mn1 s1 (fst (cls ! a)) (fst (cls ! b))"
        by (simp_all add: P_def)
      have ok: "cmap_ok (distMap s1)" using o(2) assms(2) by (simp add: keeps_def)
      have "cluster_inner dy_low cls i1 i1 i1 mn1 tit1 False s1 = Inr (cls2, i2, mn2, tit2, False, s2)"
        using r False \<open>\<not> hasMerg1\<close> by (simp add: o(1))
      from cluster_inner_unmerged [OF this _ ok o(3)] i o(1)
      have n: "cls2 = cls" "i2 = i1" "keeps s1 s2" "mn2 = mn1 \<or> flt_less mn2 mn1" "pair_ok tit2 cls"
        "\<And>b. i1 < b \<Longrightarrow> b < length cls \<Longrightarrow> fst (cls ! i1) \<noteq> fst (cls ! b) \<Longrightarrow> compared dy_low mn2 s2 (fst (cls ! i1)) (fst (cls ! b))"
        by simp_all
      have "compared dy_low mn2 s2 (fst (cls ! a)) (fst (cls ! b))"
        if "a < i1 + 1" "a < b" "b < length cls" "fst (cls ! a) \<noteq> fst (cls ! b)" for a b
        using that seen [of a b] n(6) [of b] compared_mono [OF _ n(3) ok n(4)] by (cases "a = i1") auto
      then show ?thesis using n keeps_trans [OF o(2) n(3)] by (simp add: P_def)
    qed (simp add: P_def)
  qed
  then show ?thesis by (auto simp: P_def)
qed

section \<open>What \<open>Cluster\<close> establishes\<close>

lemma cluster_outer_keeps:
  assumes "cluster_outer dy_low cls i mn tit hasMerg s = Inr (cls', mn', tit', hasMerg', s')"
  shows "keeps s s' \<and> all_members cls' = all_members cls"
proof -
  define Q where "Q cls1 (s1 :: layer_cluster) \<longleftrightarrow> keeps s s1 \<and> all_members cls1 = all_members cls" for cls1 s1
  have inner: "Q cls2 s2"
    if Q: "Q cls1 s1" and i: "i1 < length cls1"
      and r: "cluster_inner dy_low cls1 i1 j1 l1 mn1 tit1 hasMerg1 s1 = Inr (cls2, i2, mn2, tit2, hasMerg2, s2)"
    for cls1 i1 j1 l1 mn1 tit1 hasMerg1 s1 cls2 i2 mn2 tit2 hasMerg2 s2
  proof -
    define P where "P cls1 (i1 :: nat) (j1 :: nat) (l1 :: nat) (mn1 :: flt) (tit1 :: (nat \<times> nat) option) (hasMerg1 :: bool) s1 \<longleftrightarrow>
        i1 < length cls1 \<and> Q cls1 s1" for cls1 i1 j1 l1 mn1 tit1 hasMerg1 s1
    have "\<exists>j' l'. P cls2 i2 j' l' mn2 tit2 hasMerg2 s2 \<and> length cls2 \<le> j'"
    proof (rule cluster_inner_inv [OF r, where P = P])
      fix cls3 i3 j3 l3 mn3 tit3 hasMerg3 s3 dist s4 newclass s5
      assume old: "P cls3 i3 j3 l3 mn3 tit3 hasMerg3 s3" and j: "j3 < length cls3" and ne: "fst (cls3 ! i3) \<noteq> fst (cls3 ! j3)"
        and d: "AttDist (fst (cls3 ! i3)) (fst (cls3 ! j3)) s3 = Inr (dist, s4)"
        and m: "MergeClass (cls3 ! i3) (cls3 ! j3) s4 = Inr (newclass, s5)"
      have ij: "i3 \<noteq> j3" using ne by auto
      have "keeps s3 s5" using AttDist_keeps [OF d] MergeClass_keeps [OF m] by (rule keeps_trans)
      then show "P (erase_nth j3 (cls3[i3 := newclass])) (if j3 < i3 then i3 - 1 else i3) (l3 + 1) l3 mn3 tit3 True s5"
        using old j ij all_members_merge [OF _ j ij MergeClass_members [OF m]] keeps_trans
        by (auto simp: P_def Q_def)
    next
      fix cls3 i3 j3 l3 mn3 tit3 hasMerg3 s3 dist s4
      assume "P cls3 i3 j3 l3 mn3 tit3 hasMerg3 s3"
        and d: "AttDist (fst (cls3 ! i3)) (fst (cls3 ! j3)) s3 = Inr (dist, s4)"
      then show "P cls3 i3 (j3 + 1) j3 (if flt_less dist mn3 then dist else mn3)
          (if flt_less dist mn3 then Some (i3, j3) else tit3) hasMerg3 s4"
        using keeps_trans [OF _ AttDist_keeps [OF d]] by (auto simp: P_def Q_def)
    qed (use Q i in \<open>simp_all add: P_def\<close>)
    then show ?thesis by (simp add: P_def)
  qed
  have "\<exists>i'. Q cls' s' \<and> length cls' \<le> i'"
  proof (rule cluster_outer_inv [OF assms, where P = "\<lambda>cls i mn tit hasMerg s. Q cls s"])
    show "Q cls s" by (simp add: Q_def)
  next
    fix cls1 i1 mn1 tit1 hasMerg1 s1 cls2 i2 mn2 tit2 hasMerg2 s2
    assume "Q cls1 s1" "i1 < length cls1"
      "cluster_inner dy_low cls1 i1 (if hasMerg1 then 0 else i1) (if hasMerg1 then 0 else i1) mn1 tit1 hasMerg1 s1 =
         Inr (cls2, i2, mn2, tit2, hasMerg2, s2)"
    then show "Q cls2 s2" by (rule inner)
  qed
  then show ?thesis by (simp add: Q_def)
qed

text \<open>What the loop itself has checked: the remembered distance of two different centres is not within
  \<open>dy_high\<close>.  That the table remembers the distances of the strings, and that no two classes have the same
  centre, is shown further down.\<close>

definition apart :: "int \<Rightarrow> layer_cluster \<Rightarrow> lclass \<Rightarrow> lclass \<Rightarrow> bool" where
  "apart dy_high s c c' \<longleftrightarrow>
     fst c = fst c' \<or>
     (\<exists>k d. combine (fst c) (fst c') = Inr k \<and> cmap_find (distMap s) k = Some d \<and> \<not> flt_le d (Fin (of_int dy_high)))"

lemma not_within: "\<not> flt_less d mn \<Longrightarrow> flt_less h mn \<Longrightarrow> \<not> flt_le d h"
  by (cases d; cases mn; cases h) auto

lemma cluster_rounds_result:
  "cluster_rounds dy_high dy_low cls s = Inr (cls', s') \<Longrightarrow> cmap_ok (distMap s) \<Longrightarrow>
     keeps s s' \<and> all_members cls' = all_members cls \<and> (length cls' \<le> 1 \<or> sorted_wrt (apart dy_high s') cls')"
proof (induction dy_high dy_low cls s rule: cluster_rounds.induct)
  case (1 dy_high dy_low cls s)
  note run = 1(3) and ok = 1(4)
  obtain cls1 mn tit hasMerg s1 where o: "cluster_outer dy_low cls 0 INT_MAX None False s = Inr (cls1, mn, tit, hasMerg, s1)"
    using run by (cases "cluster_outer dy_low cls 0 INT_MAX None False s") (auto simp: cluster_rounds.simps [of dy_high])
  note k = cluster_outer_keeps [OF o]
  have ok1: "cmap_ok (distMap s1)" using k ok by (simp add: keeps_def)
  show ?case
  proof (cases "length cls1 \<le> 1")
    case True
    then show ?thesis using run o k by (simp add: cluster_rounds.simps [of dy_high])
  next
    case big: False
    show ?thesis
    proof (cases hasMerg)
      case True
      then have "cluster_rounds dy_high dy_low cls1 s1 = Inr (cls', s')"
        using run o big by (simp add: cluster_rounds.simps [of dy_high dy_low cls])
      from 1(1) [OF o refl refl refl refl big True this ok1] k keeps_trans show ?thesis by auto
    next
      case False
      have "cluster_outer dy_low cls 0 INT_MAX None False s = Inr (cls1, mn, tit, False, s1)" using o False by simp
      note un = cluster_outer_unmerged [OF this ok]
      show ?thesis
      proof (cases "flt_less (Fin (of_int dy_high)) mn")
        case True
        then have r: "cls' = cls1" "s' = s1" using run o big False by (simp_all add: cluster_rounds.simps [of dy_high])
        have "apart dy_high s1 (cls1 ! a) (cls1 ! b)" if "a < b" "b < length cls1" for a b
        proof (cases "fst (cls1 ! a) = fst (cls1 ! b)")
          case False
          then have "compared dy_low mn s1 (fst (cls1 ! a)) (fst (cls1 ! b))" using un that by simp
          then show ?thesis
            using not_within [OF _ True] by (auto simp: compared_def apart_def)
        qed (simp add: apart_def)
        then show ?thesis using k r by (simp add: sorted_wrt_iff_nth_less)
      next
        case near: False
        then obtain a b where ab: "tit = Some (a, b)" "b < length cls1"
          using run o big False by (auto simp: cluster_rounds.simps [of dy_high] split: option.splits if_splits)
        then obtain newclass s2 where m: "MergeClass (cls1 ! a) (cls1 ! b) s1 = Inr (newclass, s2)"
          using run o big False near
          by (cases "MergeClass (cls1 ! a) (cls1 ! b) s1") (auto simp: cluster_rounds.simps [of dy_high])
        then have r: "cluster_rounds dy_high dy_low (erase_nth b (cls1[a := newclass])) s2 = Inr (cls', s')"
          using run o big False near ab by (simp add: cluster_rounds.simps [of dy_high dy_low cls])
        have lt: "a < b" using un ab by (simp add: pair_ok_def)
        have mem: "all_members (erase_nth b (cls1[a := newclass])) = all_members cls1"
          using all_members_merge [OF _ ab(2) _ MergeClass_members [OF m]] lt ab(2) by simp
        have k2: "keeps s1 s2" using m by (rule MergeClass_keeps)
        then have "cmap_ok (distMap s2)" using ok1 by (simp add: keeps_def)
        moreover have "\<not> length cls1 \<le> b" using ab(2) by simp
        ultimately have ih: "keeps s2 s' \<and> all_members cls' = all_members (erase_nth b (cls1[a := newclass])) \<and>
            (length cls' \<le> 1 \<or> sorted_wrt (apart dy_high s') cls')"
          using 1(2) [OF o refl refl refl refl big False near ab(1) refl _ m refl r] by simp
        then show ?thesis using mem k keeps_trans [OF keeps_trans [OF conjunct1 [OF k] k2]] by simp
      qed
    qed
  qed
qed

text \<open>Strings of one letter, of the given lengths, one for each index.\<close>

definition unary :: "nat list \<Rightarrow> layer_cluster" where
  "unary ns = fold (\<lambda>(i, n). AddString (replicate n CHR ''a'') (int i)) (enumerate 0 ns) new_LayerCluster"

lemma unary_LD:
  "LD_string ''aa'' ''aaa'' = Inr 1" "LD_string ''aaa'' ''aa'' = Inr 1"
  "LD_string ''aaaaa'' ''aa'' = Inr 3" "LD_string ''aaaaa'' ''aaa'' = Inr 2"
  "LD_string ''aa'' ''aaaaa'' = Inr 3" "LD_string ''aaa'' ''aaaaa'' = Inr 2"
  "LD_string ''a'' ''aaaaa'' = Inr 4" "LD_string ''aaaaa'' ''a'' = Inr 4"
  by code_simp+

lemmas cluster_eval = Cluster_def cluster_rounds.simps cluster_outer.simps cluster_inner.simps AttDist_def combine_def fits_int_def
  cmap_at_def cmap_find_def unary_LD LD_string_self LD_string_Nil MergeClass_def CacuCenter_def CacuTDist_def Let_def erase_nth_def

lemma unary_eval:
  "unary [0, 5, 2, 3] = \<lparr>vatts = [(0, [[]]), (1, [''aaaaa'']), (2, [''aa'']), (3, [''aaa''])], lc_classes = [], distMap = []\<rparr>"
  "unary [0, 1, 5] = \<lparr>vatts = [(0, [[]]), (1, [''a'']), (2, [''aaaaa''])], lc_classes = [], distMap = []\<rparr>"
  by (simp_all add: unary_def new_LayerCluster_def AddString_def cmap_find_def numeral_eq_Suc)

text \<open>\<open>Cluster\<close> can use an iterator to an erased class: with the distance bound 4 the class of the first,
  third and fourth string moves its centre to the third, the second string is then near the first
  class in the list, which is erased while \<open>last\<close> still refers to it.\<close>

theorem Cluster_erased_iterator: "Cluster 10 4 (unary [0, 5, 2, 3]) = Inl BadIterator"
  unfolding unary_eval by (simp add: cluster_eval)

lemma unary_clustered:
  "\<exists>s'. Cluster 3 2 (unary [0, 1, 5]) = Inr s' \<and> map snd (lc_classes s') = [[0, 1], [2]]"
  unfolding unary_eval by (simp add: cluster_eval)

section \<open>The remembered distances\<close>

definition strings :: "layer_cluster \<Rightarrow> int \<Rightarrow> bytes list" where
  "strings s i = (case cmap_find (vatts s) i of Some l \<Rightarrow> l | None \<Rightarrow> [])"

text \<open>What is remembered was computed, for two indexes below 10000.\<close>

definition memo_ok :: "layer_cluster \<Rightarrow> bool" where
  "memo_ok s \<longleftrightarrow> (\<forall>k d. cmap_find (distMap s) k = Some d \<longrightarrow>
     (\<exists>i j. 0 \<le> i \<and> 0 \<le> j \<and> j < 10000 \<and> k = i * 10000 + j \<and> sum_LD (strings s i) (strings s j) (Fin 0) = Inr d))"

lemma combine_small: "0 \<le> i \<Longrightarrow> i < 10000 \<Longrightarrow> 0 \<le> j \<Longrightarrow> j < 10000 \<Longrightarrow> combine i j = Inr (i * 10000 + j)"
  by (simp add: combine_def fits_int_def)

lemma combine_inj:
  fixes i j :: int
  assumes "i * 10000 + j = i' * 10000 + j'" "0 \<le> j" "j < 10000" "0 \<le> j'" "j' < 10000"
  shows "i = i' \<and> j = j'"
proof -
  have "(i * 10000 + j) div 10000 = i" "(i' * 10000 + j') div 10000 = i'" using assms(2-5) by simp_all
  then have "i = i'" using assms(1) by simp
  then show ?thesis using assms(1) by simp
qed

lemma cmap_at_strings:
  "cmap_ok m \<Longrightarrow> cmap_at i [] m = (l, m') \<Longrightarrow> cmap_ok m' \<and> l = (case cmap_find m i of Some l \<Rightarrow> l | None \<Rightarrow> []) \<and>
     (\<forall>x. (case cmap_find m' x of Some l \<Rightarrow> l | None \<Rightarrow> []) = (case cmap_find m x of Some l \<Rightarrow> l | None \<Rightarrow> []))"
  by (auto simp: cmap_at_def split: option.splits if_splits)

text \<open>For indexes below 10000 the keys do not collide.\<close>

lemma AttDist_exact:
  assumes "memo_ok s" "cmap_ok (distMap s)" "cmap_ok (vatts s)" and "0 \<le> i" "i < 10000" "0 \<le> j" "j < 10000"
  shows "case AttDist i j s of
      Inr (d, s') \<Rightarrow> sum_LD (strings s i) (strings s j) (Fin 0) = Inr d \<and> memo_ok s' \<and> strings s' = strings s \<and> cmap_ok (vatts s')
    | Inl e \<Rightarrow> sum_LD (strings s i) (strings s j) (Fin 0) = Inl e"
proof (cases "cmap_find (distMap s) (i * 10000 + j)")
  case (Some d)
  then obtain i' j' where m: "0 \<le> j'" "j' < 10000" "i * 10000 + j = i' * 10000 + j'"
      "sum_LD (strings s i') (strings s j') (Fin 0) = Inr d"
    using assms(1) unfolding memo_ok_def by blast
  then have "i = i' \<and> j = j'" using assms(6,7) by (intro combine_inj) simp_all
  then show ?thesis using Some m(4) assms(1,3-7) by (simp add: AttDist_def combine_small)
next
  case None
  let ?k = "i * 10000 + j"
  obtain li m lj m' where l: "cmap_at i [] (vatts s) = (li, m)" "cmap_at j [] m = (lj, m')"
    by (metis surj_pair)
  have v: "li = strings s i" "lj = strings s j" "strings (s\<lparr>vatts := m', distMap := x\<rparr>) = strings s" "cmap_ok m'" for x
    using cmap_at_strings [OF assms(3) l(1)] cmap_at_strings [OF _ l(2)] by (auto simp: strings_def fun_eq_iff)
  show ?thesis
  proof (cases "sum_LD (strings s i) (strings s j) (Fin 0)")
    case (Inr d)
    let ?s = "s\<lparr>vatts := m', distMap := cmap_insert ?k d (distMap s)\<rparr>"
    have "memo_ok ?s"
      unfolding memo_ok_def v(3)
      using assms(1,2,4-7) None Inr unfolding memo_ok_def by auto
    then show ?thesis using None Inr assms(4-7) l v by (simp add: AttDist_def combine_small)
  qed (use None assms(4-7) l v in \<open>simp add: AttDist_def combine_small\<close>)
qed

text \<open>For indexes below 10000 the remembered distances are transparent: \<open>AttDist\<close> yields the sum of the
  distances of the strings (or its error) and keeps the table sound.  From 10000 on the keys
  collide: after the distance of 0 and 10000 was computed, that of 1 and 0 is the same value.\<close>

theorem AttDist_memo:
  assumes "memo_ok s" "cmap_ok (distMap s)" "cmap_ok (vatts s)" and "0 \<le> i" "i < 10000" "0 \<le> j" "j < 10000"
    and "AttDist 0 10000 t = Inr (d0, t1)" "cmap_ok (distMap t)"
  shows "(case AttDist i j s of
      Inr (d, s') \<Rightarrow> sum_LD (strings s i) (strings s j) (Fin 0) = Inr d \<and> memo_ok s' \<and> strings s' = strings s
    | Inl e \<Rightarrow> sum_LD (strings s i) (strings s j) (Fin 0) = Inl e) \<and>
    AttDist 1 0 t1 = Inr (d0, t1)"
proof
  show "case AttDist i j s of
      Inr (d, s') \<Rightarrow> sum_LD (strings s i) (strings s j) (Fin 0) = Inr d \<and> memo_ok s' \<and> strings s' = strings s
    | Inl e \<Rightarrow> sum_LD (strings s i) (strings s j) (Fin 0) = Inl e"
    using AttDist_exact [OF assms(1-7)] by (auto split: sum.splits)
  have "combine 0 10000 = Inr 10000" "combine 1 0 = Inr 10000" by (simp_all add: combine_def fits_int_def)
  then show "AttDist 1 0 t1 = Inr (d0, t1)"
    using AttDist_stores [OF assms(8,9)] by (simp add: AttDist_def)
qed

lemma AttDist_memo_witness:
  "\<exists>d t1. AttDist 0 10000 (AddString ''a'' 0 (AddString ''abc'' 10000 new_LayerCluster)) = Inr (d, t1) \<and>
     AttDist 1 0 t1 = Inr (d, t1)"
proof -
  let ?t = "AddString ''a'' 0 (AddString ''abc'' 10000 new_LayerCluster)"
  have "LD_string ''a'' ''abc'' = Inr 2" by code_simp
  then obtain d t1 where d: "AttDist 0 10000 ?t = Inr (d, t1)"
    by (simp add: AttDist_def combine_def fits_int_def AddString_def new_LayerCluster_def cmap_find_def cmap_at_def)
  have "AttDist 1 0 t1 = Inr (d, t1)"
    by (rule conjunct2 [OF AttDist_memo [of new_LayerCluster 0 0, OF _ _ _ _ _ _ _ d]])
      (simp_all add: new_LayerCluster_def AddString_def memo_ok_def)
  with d show ?thesis by blast
qed


section \<open>What the classes are\<close>

text \<open>
  The distance of two lists of strings, without tables and rounding: the edit distances of the strings,
  layer by layer.
\<close>

definition string_dist :: "bytes \<Rightarrow> bytes \<Rightarrow> nat" where
  "string_dist s t = (case LD_string s t of Inr d \<Rightarrow> nat d | Inl e \<Rightarrow> 0)"

definition layer_dist :: "bytes list \<Rightarrow> bytes list \<Rightarrow> nat" where
  "layer_dist ss ts = sum_list (map2 string_dist ss ts)"

definition index_dist :: "layer_cluster \<Rightarrow> int \<Rightarrow> int \<Rightarrow> nat" where
  "index_dist s i j = layer_dist (strings s i) (strings s j)"

definition spread :: "layer_cluster \<Rightarrow> int list \<Rightarrow> int \<Rightarrow> nat" where
  "spread s ms i = sum_list (map (index_dist s i) ms)"

text \<open>The centre of a class is a member from which the sum of the distances to all members is least.\<close>

definition medoid :: "layer_cluster \<Rightarrow> lclass \<Rightarrow> bool" where
  "medoid s c \<longleftrightarrow> fst c \<in> set (snd c) \<and> (\<forall>m\<in>set (snd c). spread s (snd c) (fst c) \<le> spread s (snd c) m)"

lemma string_dist: "LD_string s t = Inr (int (string_dist s t))" "string_dist s t \<le> length s + length t"
proof -
  obtain d where "LD_string s t = Inr (int d)" "d \<le> max (length s) (length t)" using LD_string_bounds by blast
  then show "LD_string s t = Inr (int (string_dist s t))" "string_dist s t \<le> length s + length t"
    by (auto simp: string_dist_def)
qed

lemma layer_dist_Cons [simp]: "layer_dist (a # ss) (b # ts) = string_dist a b + layer_dist ss ts"
  and layer_dist_Nil [simp]: "layer_dist [] ts = 0"
  by (simp_all add: layer_dist_def)

lemma layer_dist_le: "layer_dist ss ts \<le> length (concat ss) + length (concat ts)"
proof (induction ss arbitrary: ts)
  case (Cons a ss)
  show ?case
  proof (cases ts)
    case (Cons b ts')
    then show ?thesis using Cons.IH [of ts'] string_dist(2) [of a b] by simp
  qed (simp add: layer_dist_def)
qed simp

lemma sum_LD_exact:
  "sum_LD ss ts (Fin (of_nat a)) = Inr d \<Longrightarrow> a + layer_dist ss ts < 2 ^ 53 \<Longrightarrow> d = Fin (of_nat (a + layer_dist ss ts))"
proof (induction ss ts "Fin (of_nat a) :: flt" arbitrary: a rule: sum_LD.induct)
  case (3 a' ss b ts a)
  have f: "f64 (of_int (int (string_dist a' b))) = Fin (of_nat (string_dist a' b))"
      "f64 (of_nat (a + string_dist a' b)) = Fin (of_nat (a + string_dist a' b))"
    using 3(3) f64_of_nat_exact [of "string_dist a' b"] f64_of_nat_exact [of "a + string_dist a' b"] by simp_all
  have step: "fadd f64 (Fin (of_nat a)) (f64 (of_int (int (string_dist a' b)))) = Fin (of_nat (a + string_dist a' b))"
    using f by (simp only: fadd.simps flip: of_nat_add)
  show ?case
    using 3(1) [OF string_dist(1) step] 3(2,3) step by (simp add: string_dist(1) add.assoc)
qed simp_all

section \<open>The table stays sound\<close>

text \<open>Indexes the keys of the table tell apart, with strings whose distances add up exactly.\<close>

definition small_index :: "layer_cluster \<Rightarrow> int \<Rightarrow> bool" where
  "small_index s i \<longleftrightarrow> 0 \<le> i \<and> i < 10000 \<and> length (concat (strings s i)) \<le> 100000"

definition sound :: "layer_cluster \<Rightarrow> layer_cluster \<Rightarrow> bool" where
  "sound s0 s \<longleftrightarrow> memo_ok s \<and> cmap_ok (distMap s) \<and> cmap_ok (vatts s) \<and> strings s = strings s0"

lemma index_dist_le: "small_index s i \<Longrightarrow> small_index s j \<Longrightarrow> index_dist s i j \<le> 200000"
  using layer_dist_le [of "strings s i" "strings s j"] by (simp add: small_index_def index_dist_def)

lemma spread_le:
  "small_index s i \<Longrightarrow> list_all (small_index s) ms \<Longrightarrow> spread s ms i \<le> 200000 * length ms"
proof (induction ms)
  case (Cons m ms)
  then show ?case using index_dist_le [of s i m] by (simp add: spread_def)
qed (simp add: spread_def)

lemma AttDist_sound:
  assumes "AttDist i j s = Inr (d, s')" and "sound s0 s" and "small_index s0 i" and "small_index s0 j"
  shows "d = Fin (of_nat (index_dist s0 i j)) \<and> sound s0 s'"
proof -
  have "sum_LD (strings s0 i) (strings s0 j) (Fin 0) = Inr d \<and> memo_ok s' \<and> strings s' = strings s0 \<and> cmap_ok (vatts s')"
    using AttDist_exact [of s i j] assms by (auto simp: sound_def small_index_def)
  moreover have "cmap_ok (distMap s')" using AttDist_keeps [OF assms(1)] assms(2) by (simp add: keeps_def sound_def)
  ultimately show ?thesis
    using sum_LD_exact [of "strings s0 i" "strings s0 j" 0 d] index_dist_le [OF assms(3,4)]
    by (simp add: sound_def index_dist_def)
qed

lemma CacuTDist_loop:
  assumes "foldE (\<lambda>x (ret, s). bindE (AttDist i x s) (\<lambda>(d, s). Inr (fadd f64 ret d, s))) xs (Fin (of_nat a), s) = Inr (d, s')"
    and "sound s0 s" and "small_index s0 i" and "list_all (small_index s0) xs" and "a + 200000 * length xs < 2 ^ 53"
  shows "d = Fin (of_nat (a + spread s0 xs i)) \<and> sound s0 s'"
  using assms
proof (induction xs arbitrary: a s)
  case (Cons x xs)
  obtain d1 s1 where d1: "AttDist i x s = Inr (d1, s1)" using Cons.prems(1) by (cases "AttDist i x s") auto
  have x: "small_index s0 x" using Cons.prems(4) by simp
  note sd = AttDist_sound [OF d1 Cons.prems(2,3) x]
  have le: "index_dist s0 i x \<le> 200000" using index_dist_le Cons.prems(3) x .
  then have "fadd f64 (Fin (of_nat a)) d1 = Fin (of_nat (a + index_dist s0 i x))"
    using sd Cons.prems(5) f64_of_nat_exact [of "a + index_dist s0 i x"] by simp
  then show ?case
    using Cons.IH [of "a + index_dist s0 i x" s1] Cons.prems d1 sd le by (simp add: spread_def add.assoc)
qed (simp add: spread_def)

lemma CacuTDist_sound:
  assumes "CacuTDist xs i s = Inr (d, s')" and "sound s0 s" and "small_index s0 i" and "list_all (small_index s0) xs"
    and "length xs \<le> 10000"
  shows "d = Fin (of_nat (spread s0 xs i)) \<and> sound s0 s'"
  using CacuTDist_loop [of i xs 0 s d s' s0] assms by (simp add: CacuTDist_def)

lemma CacuCenter_loop:
  assumes "foldE (\<lambda>x (mn, ret, s). bindE (CacuTDist xs x s) (\<lambda>(cur, s).
      Inr (if flt_less cur mn then (cur, x, s) else (mn, ret, s)))) ys (mn, c, s) = Inr (mn', c', s')"
    and "sound s0 s" and "list_all (small_index s0) ys" and "list_all (small_index s0) xs" and "length xs \<le> 10000"
    and "zs = [] \<and> mn = INT_MAX \<or> c \<in> set zs \<and> mn = Fin (of_nat (spread s0 xs c)) \<and> (\<forall>z\<in>set zs. spread s0 xs c \<le> spread s0 xs z)"
    and "zs @ ys \<noteq> []"
  shows "sound s0 s' \<and> c' \<in> set (zs @ ys) \<and> (\<forall>z\<in>set (zs @ ys). spread s0 xs c' \<le> spread s0 xs z)"
  using assms
proof (induction ys arbitrary: zs mn c s)
  case (Cons y ys)
  obtain d s1 where d: "CacuTDist xs y s = Inr (d, s1)" using Cons.prems(1) by (cases "CacuTDist xs y s") auto
  have y: "small_index s0 y" using Cons.prems(3) by simp
  note sd = CacuTDist_sound [OF d Cons.prems(2) y Cons.prems(4,5)]
  have "spread s0 xs y \<le> 200000 * 10000" using spread_le [OF y Cons.prems(4)] Cons.prems(5) by linarith
  then have "(of_nat (spread s0 xs y) :: rat) \<le> of_nat (200000 * 10000)" by (simp only: of_nat_le_iff)
  then have lt: "(of_nat (spread s0 xs y) :: rat) < 2147483647" by simp
  let ?b = "flt_less d mn"
  have "(if ?b then y else c) \<in> set (zs @ [y]) \<and> (if ?b then d else mn) = Fin (of_nat (spread s0 xs (if ?b then y else c))) \<and>
      (\<forall>z\<in>set (zs @ [y]). spread s0 xs (if ?b then y else c) \<le> spread s0 xs z)"
    using Cons.prems(6) sd lt by (auto intro: order.trans less_imp_le)
  moreover have "foldE (\<lambda>x (mn, ret, s). bindE (CacuTDist xs x s) (\<lambda>(cur, s).
      Inr (if flt_less cur mn then (cur, x, s) else (mn, ret, s)))) ys (if ?b then d else mn, if ?b then y else c, s1) = Inr (mn', c', s')"
    using Cons.prems(1) d by (simp split: if_splits)
  ultimately show ?case
    using Cons.IH [of "if ?b then d else mn" "if ?b then y else c" s1 "zs @ [y]"] Cons.prems(3,4,5) sd by simp
qed simp

lemma MergeClass_sound:
  assumes "MergeClass a b s = Inr (c, s')" and "sound s0 s" and "list_all (small_index s0) (snd a @ snd b)"
    and "length (snd a @ snd b) \<le> 10000" and "snd a @ snd b \<noteq> []"
  shows "sound s0 s' \<and> snd c = snd a @ snd b \<and> medoid s0 c"
proof -
  let ?xs = "snd a @ snd b"
  obtain mn where "foldE (\<lambda>x (mn, ret, s). bindE (CacuTDist ?xs x s) (\<lambda>(cur, s).
      Inr (if flt_less cur mn then (cur, x, s) else (mn, ret, s)))) ?xs (INT_MAX, 0, s) = Inr (mn, fst c, s')"
    and c: "snd c = ?xs"
    using assms(1) by (auto simp: MergeClass_def CacuCenter_def Let_def cxx_simps)
  from CacuCenter_loop [OF this(1) assms(2,3,3,4), of "[]"] assms(5) c show ?thesis by (simp add: medoid_def)
qed


section \<open>The classes stay classes\<close>

lemma member_of_all: "c \<in> set cls \<Longrightarrow> mset (snd c) \<subseteq># all_members cls"
  by (induction cls) (auto simp: all_members_def intro: subset_mset.trans)

lemma set_erase_nth: "i < length cls \<Longrightarrow> j < length cls \<Longrightarrow> i \<noteq> j \<Longrightarrow> cls ! i \<in> set (erase_nth j cls)"
proof -
  assume i: "i < length cls" and j: "j < length cls" and "i \<noteq> j"
  then consider "i < j" | "j < i" by linarith
  then show ?thesis
  proof cases
    case 1
    then have "take j cls ! i = cls ! i" "i < length (take j cls)" using j by simp_all
    then show ?thesis unfolding erase_nth_def by (metis UnCI nth_mem set_append)
  next
    case 2
    then have "drop (Suc j) cls ! (i - Suc j) = cls ! i" "i - Suc j < length (drop (Suc j) cls)" using i by simp_all
    then show ?thesis unfolding erase_nth_def by (metis UnCI nth_mem set_append)
  qed
qed

lemma two_classes:
  "i < length cls \<Longrightarrow> j < length cls \<Longrightarrow> i \<noteq> j \<Longrightarrow> mset (snd (cls ! i) @ snd (cls ! j)) \<subseteq># all_members cls"
  using member_of_all [OF set_erase_nth, of i cls j] all_members_erase [of j cls] by (simp add: union_commute)

text \<open>
  Every class is a list of members with a medoid, and the classes hold the indexes \<open>ks\<close> once; the table is
  sound for the strings of \<open>s0\<close>.
\<close>

definition classes_ok :: "layer_cluster \<Rightarrow> int list \<Rightarrow> lclass list \<Rightarrow> layer_cluster \<Rightarrow> bool" where
  "classes_ok s0 ks cls s \<longleftrightarrow>
     sound s0 s \<and> (\<forall>c\<in>set cls. medoid s0 c) \<and> all_members cls = mset ks \<and>
     distinct ks \<and> list_all (small_index s0) ks \<and> length ks \<le> 10000"

lemma classes_small: "classes_ok s0 ks cls s \<Longrightarrow> c \<in> set cls \<Longrightarrow> list_all (small_index s0) (snd c)"
  using member_of_all [of c cls] by (auto simp: classes_ok_def list_all_iff dest!: set_mset_mono)

lemma centre_small: "classes_ok s0 ks cls s \<Longrightarrow> c \<in> set cls \<Longrightarrow> small_index s0 (fst c)"
  using classes_small [of s0 ks cls s c] by (auto simp: classes_ok_def medoid_def list_all_iff)

lemma classes_apart:
  assumes "classes_ok s0 ks cls s" and "i < length cls" and "j < length cls" and "i \<noteq> j"
  shows "list_all (small_index s0) (snd (cls ! i) @ snd (cls ! j))" "length (snd (cls ! i) @ snd (cls ! j)) \<le> 10000"
    "snd (cls ! i) @ snd (cls ! j) \<noteq> []" "fst (cls ! i) \<noteq> fst (cls ! j)"
proof -
  let ?ij = "snd (cls ! i) @ snd (cls ! j)"
  have sub: "mset ?ij \<subseteq># mset ks" using two_classes [OF assms(2-4)] assms(1) by (simp add: classes_ok_def)
  show "list_all (small_index s0) ?ij"
    using classes_small [OF assms(1) nth_mem] assms(2,3) by simp
  show "length ?ij \<le> 10000" using size_mset_mono [OF sub] assms(1) by (simp add: classes_ok_def)
  have m: "medoid s0 (cls ! i)" "medoid s0 (cls ! j)" using assms(1-3) by (simp_all add: classes_ok_def)
  then show "?ij \<noteq> []" by (auto simp: medoid_def)
  have "mset ks = mset ?ij + (mset ks - mset ?ij)" using sub by (simp add: subset_mset.add_diff_inverse)
  moreover obtain zs where "mset ks - mset ?ij = mset zs" by (metis ex_mset)
  ultimately have "mset ks = mset (?ij @ zs)" by simp
  then have "distinct (?ij @ zs)" using assms(1) unfolding classes_ok_def by (metis mset_eq_imp_distinct_iff)
  then show "fst (cls ! i) \<noteq> fst (cls ! j)" using m by (auto simp: medoid_def)
qed

lemma classes_ok_dist:
  assumes "classes_ok s0 ks cls s" and "i < length cls" and "j < length cls"
    and "AttDist (fst (cls ! i)) (fst (cls ! j)) s = Inr (d, s')"
  shows "classes_ok s0 ks cls s'"
  using AttDist_sound [OF assms(4) _ centre_small [OF assms(1)] centre_small [OF assms(1)]] assms(1-3)
  by (simp add: classes_ok_def)

lemma classes_ok_merge:
  assumes "classes_ok s0 ks cls s" and "i < length cls" and "j < length cls" and "i \<noteq> j"
    and "MergeClass (cls ! i) (cls ! j) s = Inr (c, s')"
  shows "classes_ok s0 ks (erase_nth j (cls[i := c])) s'"
proof -
  have s: "sound s0 s" using assms(1) by (simp add: classes_ok_def)
  note m = MergeClass_sound [OF assms(5) s classes_apart(1-3) [OF assms(1-4)]]
  have "all_members (erase_nth j (cls[i := c])) = all_members cls"
    using all_members_merge [OF assms(2-4)] m by simp
  moreover have "set (erase_nth j (cls[i := c])) \<subseteq> insert c (set cls)"
    using set_take_subset [of j "cls[i := c]"] set_drop_subset [of "Suc j" "cls[i := c]"] set_update_subset_insert [of cls i c]
    unfolding erase_nth_def set_append by (auto simp del: set_drop_subset set_take_subset)
  ultimately show ?thesis using assms(1) m by (auto simp: classes_ok_def)
qed

lemma cluster_inner_ok:
  assumes "cluster_inner dy_low cls i j l mn tit hasMerg s = Inr (cls', i', mn', tit', hasMerg', s')"
    and "classes_ok s0 ks cls s" and "i < length cls"
  shows "classes_ok s0 ks cls' s' \<and> i' < length cls'"
proof -
  define P where "P cls1 i1 (j1 :: nat) (l1 :: nat) (mn1 :: flt) (tit1 :: (nat \<times> nat) option) (hasMerg1 :: bool) s1 \<longleftrightarrow>
      classes_ok s0 ks cls1 s1 \<and> i1 < length cls1"
    for cls1 i1 j1 l1 mn1 tit1 hasMerg1 s1
  have "\<exists>j' l'. P cls' i' j' l' mn' tit' hasMerg' s' \<and> length cls' \<le> j'"
  proof (rule cluster_inner_inv [OF assms(1), where P = P])
    show "P cls i j l mn tit hasMerg s" using assms(2,3) by (simp add: P_def)
  next
    fix cls1 i1 j1 l1 mn1 tit1 hasMerg1 s1 dist s2 newclass s3
    assume P: "P cls1 i1 j1 l1 mn1 tit1 hasMerg1 s1" and j: "j1 < length cls1" and ne: "fst (cls1 ! i1) \<noteq> fst (cls1 ! j1)"
      and d: "AttDist (fst (cls1 ! i1)) (fst (cls1 ! j1)) s1 = Inr (dist, s2)"
      and m: "MergeClass (cls1 ! i1) (cls1 ! j1) s2 = Inr (newclass, s3)"
    have i: "i1 < length cls1" "i1 \<noteq> j1" and ok: "classes_ok s0 ks cls1 s1" using P ne by (auto simp: P_def)
    have "classes_ok s0 ks cls1 s2" using classes_ok_dist [OF ok i(1) j d] .
    from classes_ok_merge [OF this i(1) j i(2) m] i j
    show "P (erase_nth j1 (cls1[i1 := newclass])) (if j1 < i1 then i1 - 1 else i1) (l1 + 1) l1 mn1 tit1 True s3"
      by (auto simp: P_def)
  qed (auto simp: P_def intro: classes_ok_dist)
  then show ?thesis by (simp add: P_def)
qed

lemma cluster_outer_ok:
  assumes "cluster_outer dy_low cls i mn tit hasMerg s = Inr (cls', mn', tit', hasMerg', s')" and "classes_ok s0 ks cls s"
  shows "classes_ok s0 ks cls' s'"
proof -
  have "\<exists>i'. classes_ok s0 ks cls' s' \<and> length cls' \<le> i'"
    by (rule cluster_outer_inv [OF assms(1), where P = "\<lambda>cls i mn tit hasMerg s. classes_ok s0 ks cls s"])
      (use assms(2) in \<open>auto dest: cluster_inner_ok\<close>)
  then show ?thesis by blast
qed

lemma cluster_rounds_ok:
  "cluster_rounds dy_high dy_low cls s = Inr (cls', s') \<Longrightarrow> classes_ok s0 ks cls s \<Longrightarrow> classes_ok s0 ks cls' s'"
proof (induction dy_high dy_low cls s rule: cluster_rounds.induct)
  case (1 dy_high dy_low cls s)
  note run = 1(3) and ok = 1(4)
  obtain cls1 mn tit hasMerg s1 where o: "cluster_outer dy_low cls 0 INT_MAX None False s = Inr (cls1, mn, tit, hasMerg, s1)"
    using run by (cases "cluster_outer dy_low cls 0 INT_MAX None False s") (auto simp: cluster_rounds.simps [of dy_high])
  note ok1 = cluster_outer_ok [OF o ok]
  consider "length cls1 \<le> 1" | "\<not> length cls1 \<le> 1" "hasMerg"
    | "\<not> length cls1 \<le> 1" "\<not> hasMerg" "flt_less (Fin (of_int dy_high)) mn"
    | "\<not> length cls1 \<le> 1" "\<not> hasMerg" "\<not> flt_less (Fin (of_int dy_high)) mn" by blast
  then show ?case
  proof cases
    case 1
    then show ?thesis using run o ok1 by (simp add: cluster_rounds.simps [of dy_high])
  next
    case 2
    then have "cluster_rounds dy_high dy_low cls1 s1 = Inr (cls', s')"
      using run o by (simp add: cluster_rounds.simps [of dy_high dy_low cls])
    then show ?thesis using "1.IH"(1) [OF o refl refl refl refl 2(1,2)] ok1 by blast
  next
    case 3
    then show ?thesis using run o ok1 by (simp add: cluster_rounds.simps [of dy_high])
  next
    case 4
    obtain a b where ab: "tit = Some (a, b)" "b < length cls1"
      using run o 4 by (auto simp: cluster_rounds.simps [of dy_high] split: option.splits if_splits)
    then obtain newclass s2 where m: "MergeClass (cls1 ! a) (cls1 ! b) s1 = Inr (newclass, s2)"
      using run o 4 by (cases "MergeClass (cls1 ! a) (cls1 ! b) s1") (auto simp: cluster_rounds.simps [of dy_high])
    then have r: "cluster_rounds dy_high dy_low (erase_nth b (cls1[a := newclass])) s2 = Inr (cls', s')"
      using run o 4 ab by (simp add: cluster_rounds.simps [of dy_high dy_low cls])
    have "cmap_ok (distMap s)" using ok by (simp add: classes_ok_def sound_def)
    moreover have "cluster_outer dy_low cls 0 INT_MAX None False s = Inr (cls1, mn, tit, False, s1)" using o 4 by simp
    ultimately have "a < b" using cluster_outer_unmerged ab(1) by (fastforce simp: pair_ok_def)
    then have "classes_ok s0 ks (erase_nth b (cls1[a := newclass])) s2"
      using classes_ok_merge [OF ok1 _ ab(2) _ m] ab(2) by simp
    moreover have "\<not> length cls1 \<le> b" using ab(2) by simp
    ultimately show ?thesis using "1.IH"(2) [OF o refl refl refl refl 4 ab(1) refl _ m refl r] by blast
  qed
qed


section \<open>The result of \<open>Cluster\<close>\<close>

text \<open>A remembered distance that is not within the bound is the distance of the strings.\<close>

lemma apart_dist:
  assumes "apart dy_high s c c'" and "fst c \<noteq> fst c'" and "sound s0 s" and "small_index s0 (fst c)" and "small_index s0 (fst c')"
  shows "dy_high < int (index_dist s0 (fst c) (fst c'))"
proof -
  let ?i = "fst c" and ?j = "fst c'"
  have ij: "0 \<le> ?i" "?i < 10000" "0 \<le> ?j" "?j < 10000" using assms(4,5) by (simp_all add: small_index_def)
  obtain d where d: "cmap_find (distMap s) (?i * 10000 + ?j) = Some d" "\<not> flt_le d (Fin (of_int dy_high))"
    using assms(1,2) combine_small [OF ij] by (auto simp: apart_def)
  then have "AttDist ?i ?j s = Inr (d, s)" by (simp add: AttDist_def combine_small [OF ij])
  from AttDist_sound [OF this assms(3-5)] have "d = Fin (of_nat (index_dist s0 ?i ?j))" by simp
  then have "\<not> (of_int (int (index_dist s0 ?i ?j)) :: rat) \<le> of_int dy_high" using d(2) by simp
  then show ?thesis by (simp only: of_int_le_iff not_le)
qed

lemma distinct_small:
  assumes "distinct ks" and "list_all (small_index s0) ks"
  shows "length ks \<le> 10000"
proof -
  have "set ks \<subseteq> {0..<10000}" using assms(2) by (auto simp: list_all_iff small_index_def)
  from card_mono [OF _ this] show ?thesis using distinct_card [OF assms(1)] by simp
qed

lemma first_classes:
  assumes "cmap_ok (vatts s)" and "distMap s = []" and "list_all (small_index s) (map fst (vatts s))"
  shows "classes_ok s (map fst (vatts s)) (map (\<lambda>(i, _). (i, [i])) (vatts s)) s"
proof -
  have "all_members (map (\<lambda>(i, _). (i, [i])) xs) = mset (map fst xs)" for xs :: "(int \<times> bytes list) list"
    by (induction xs) (auto simp: all_members_def)
  moreover have "distinct (map fst (vatts s))" using assms(1) by (simp add: cmap_ok_def strict_sorted_iff)
  moreover from distinct_small [OF this assms(3)] have "length (vatts s) \<le> 10000" by simp
  ultimately show ?thesis using assms by (auto simp: classes_ok_def sound_def memo_ok_def medoid_def)
qed

text \<open>C7.  When \<open>Cluster\<close> returns, starting without classes and without remembered distances, for indexes below
  10000 with at most 100000 bytes of strings each:
  the classes hold every inserted index exactly once (no index is lost or doubled by the merging and erasing);
  the centre of each class is a member from which the sum of the edit distances to all members of the class
  is least; and the edit distance of the strings of the centres of any two classes, summed over the layers, is
  greater than \<open>dy_high\<close>.\<close>

theorem Cluster_result:
  assumes "Cluster dy_high dy_low s = Inr s'" and "lc_classes s = []" and "distMap s = []" and "cmap_ok (vatts s)"
    and "\<forall>i\<in>set (map fst (vatts s)). 0 \<le> i \<and> i < 10000 \<and> length (concat (strings s i)) \<le> 100000"
  shows "mset (concat (map snd (lc_classes s'))) = mset (map fst (vatts s)) \<and>
     (\<forall>c\<in>set (lc_classes s'). medoid s c) \<and>
     sorted_wrt (\<lambda>c c'. dy_high < int (index_dist s (fst c) (fst c'))) (lc_classes s')"
proof -
  let ?cls = "map (\<lambda>(i, _). (i, [i])) (vatts s)"
  obtain cls t where r: "cluster_rounds dy_high dy_low ?cls s = Inr (cls, t)" and s': "s' = t\<lparr>lc_classes := cls\<rparr>"
    using assms(1,2) by (auto simp: Cluster_def cxx_simps)
  have "list_all (small_index s) (map fst (vatts s))" using assms(5) by (simp add: list_all_iff small_index_def)
  note ok = cluster_rounds_ok [OF r first_classes [OF assms(4,3) this]]
  have far: "length cls \<le> 1 \<or> sorted_wrt (apart dy_high t) cls" using cluster_rounds_result [OF r] assms(3) by simp
  have "dy_high < int (index_dist s (fst (cls ! a)) (fst (cls ! b)))" if "a < b" "b < length cls" for a b
  proof (rule apart_dist [where s = t])
    have ab: "a < length cls" "a \<noteq> b" using that by simp_all
    show "apart dy_high t (cls ! a) (cls ! b)" using far that by (auto simp: sorted_wrt_iff_nth_less)
    show "fst (cls ! a) \<noteq> fst (cls ! b)" using classes_apart(4) [OF ok ab(1) that(2) ab(2)] .
    show "sound s t" using ok by (simp add: classes_ok_def)
    show "small_index s (fst (cls ! a))" "small_index s (fst (cls ! b))"
      using centre_small [OF ok nth_mem] ab(1) that(2) by simp_all
  qed
  then show ?thesis using ok by (simp add: s' classes_ok_def all_members_concat sorted_wrt_iff_nth_less)
qed

lemma Cluster_result_witness:
  "\<exists>s'. Cluster 3 2 (unary [0, 1, 5]) = Inr s' \<and> map snd (lc_classes s') = [[0, 1], [2]] \<and>
     (\<forall>c\<in>set (lc_classes s'). medoid (unary [0, 1, 5]) c) \<and>
     sorted_wrt (\<lambda>c c'. 3 < int (index_dist (unary [0, 1, 5]) (fst c) (fst c'))) (lc_classes s')"
proof -
  obtain s' where s': "Cluster 3 2 (unary [0, 1, 5]) = Inr s'" "map snd (lc_classes s') = [[0, 1], [2]]"
    using unary_clustered by (elim exE conjE) (rule that)
  have "lc_classes (unary [0, 1, 5]) = []" "distMap (unary [0, 1, 5]) = []" "cmap_ok (vatts (unary [0, 1, 5]))"
    unfolding unary_eval by (simp_all add: cmap_ok_def)
  moreover have "\<forall>i\<in>set (map fst (vatts (unary [0, 1, 5]))).
      0 \<le> i \<and> i < 10000 \<and> length (concat (strings (unary [0, 1, 5]) i)) \<le> 100000"
    unfolding unary_eval by (simp add: strings_def cmap_find_def)
  ultimately have "(\<forall>c\<in>set (lc_classes s'). medoid (unary [0, 1, 5]) c) \<and>
      sorted_wrt (\<lambda>c c'. 3 < int (index_dist (unary [0, 1, 5]) (fst c) (fst c'))) (lc_classes s')"
    using Cluster_result [OF s'(1)] by (intro conjI) simp_all
  then show ?thesis using s' by (intro exI [of _ s']) simp
qed

end
