(* ===== verification/VarGen.thy ===== *)
theory VarGen
  imports DocAtt NodeTree LayerCluster
begin

text \<open>
  \<open>DisCrawler/StatCom/nsColVarGenerator.cpp\<close> and \<open>nsChlVarGenerator.cpp\<close>: from the clusters of the nodes
  of some pages, the variables by which the crawler extracts a list page (the XPath of the box that
  holds the links, and the paths of the links in it) and a content page (the box of the text).
  Documents are ordered by their addresses; \<open>ex\<close> is \<open>exp\<close> of the C library.
\<close>

section \<open>The generator\<close>

type_synonym 'n node_model = "('n node_vec, 'n node_vec att_set) clust_model"

record 'n var_gen =
  g_model :: "'n node_model option"
  g_vars :: "(bytes, bytes) cmap"
  g_parm :: "(bytes, bytes) cmap"
  g_attDim :: "att_dim option"

definition new_var_gen :: "'n var_gen" where
  "new_var_gen = \<lparr>g_model = None, g_vars = [], g_parm = [], g_attDim = None\<rparr>"

definition col_SetModel :: "'n node_model option \<Rightarrow> 'n var_gen \<Rightarrow> 'n var_gen" where
  "col_SetModel m g = g\<lparr>g_model := m\<rparr>"

definition col_SetAttDim :: "att_dim option \<Rightarrow> 'n var_gen \<Rightarrow> 'n var_gen" where
  "col_SetAttDim dims g = g\<lparr>g_attDim := dims\<rparr>"

definition col_SetParam :: "bytes \<Rightarrow> bytes \<Rightarrow> 'n var_gen \<Rightarrow> 'n var_gen" where
  "col_SetParam name v g = g\<lparr>g_parm := cmap_insert (c_str name) (c_str v) (g_parm g)\<rparr>"

definition col_GetVar :: "bytes \<Rightarrow> 'n var_gen \<Rightarrow> bytes \<times> 'n var_gen" where
  "col_GetVar name g = (let (v, m) = cmap_at (c_str name) [] (g_vars g) in (c_str v, g\<lparr>g_vars := m\<rparr>))"

definition chl_SetModel :: "'n node_model option \<Rightarrow> 'n var_gen \<Rightarrow> 'n var_gen" where
  "chl_SetModel m g = g\<lparr>g_model := m\<rparr>"

definition chl_SetAttDim :: "att_dim option \<Rightarrow> 'n var_gen \<Rightarrow> 'n var_gen" where
  "chl_SetAttDim dims g = g"

definition chl_SetParam :: "bytes \<Rightarrow> bytes \<Rightarrow> 'n var_gen \<Rightarrow> 'n var_gen" where
  "chl_SetParam name v g = g\<lparr>g_parm := cmap_insert (c_str name) (c_str v) (g_parm g)\<rparr>"

definition chl_GetVar :: "bytes \<Rightarrow> 'n var_gen \<Rightarrow> bytes \<times> 'n var_gen" where
  "chl_GetVar name g = (let (v, m) = cmap_at (c_str name) [] (g_vars g) in (c_str v, g\<lparr>g_vars := m\<rparr>))"

section \<open>Text helpers\<close>

partial_function (option) col_split_loop :: "bytes \<Rightarrow> bytes \<Rightarrow> nat \<Rightarrow> bytes list option" where
  "col_split_loop s c i =
     (case find_from c s i of
        Some j \<Rightarrow> Option.bind (col_split_loop s c (j + length c)) (\<lambda>ps. Some (take (j - i) (drop i s) # ps))
      | None \<Rightarrow> Some (if drop i s \<noteq> [] then [drop i s] else []))"

definition col_split :: "bytes \<Rightarrow> bytes \<Rightarrow> bytes list option" where
  "col_split s c = col_split_loop s c 0"

definition StrNumCount :: "bytes \<Rightarrow> int" where
  "StrNumCount s = int_of_size (length (filter (\<lambda>c. c \<in> set ''0123456789'') s))"

section \<open>The class with the least value\<close>

text \<open>\<open>attValue\<close> after the loop over the dimensions and the last call: the last value that was found.\<close>

definition class_value :: "'n node_vec \<Rightarrow> flt res" where
  "class_value vec =
     (case fold (\<lambda>j a. case GetValueByDim vec j of Some x \<Rightarrow> Some x | None \<Rightarrow> a) ([0..vec_GetLength vec - 1] @ [0]) None of
        None \<Rightarrow> Inl UninitRead
      | Some x \<Rightarrow> Inr x)"

definition class_count :: "'n node_model \<Rightarrow> int" where
  "class_count m = (case GetClassCount m of None \<Rightarrow> 0 | Some n \<Rightarrow> n)"

definition col_class :: "'n node_model \<Rightarrow> int res" where
  "col_class m =
     bindE (foldE (\<lambda>i (minValue, classid).
              bindE (GetClassAtt m i) (\<lambda>p. bindE (addref p) (\<lambda>vec. bindE (class_value vec) (\<lambda>attValue.
                Inr (if flt_less attValue minValue then (attValue, i) else (minValue, classid))))))
            [0..class_count m - 1] (INT_MAX, - 1))
       (\<lambda>(minValue, classid). Inr classid)"

section \<open>The box of the links\<close>

text \<open>The nodes of the class, as one tree per document.\<close>

definition add_block ::
  "'n :: linorder dom \<Rightarrow> int \<Rightarrow> 'n node_vec \<Rightarrow> ('n, 'n node_tree) cmap \<Rightarrow> ('n, 'n node_tree) cmap run" where
  "add_block d dimid cvec blockMap =
     bindR (Some (GetDoc cvec)) (\<lambda>doc. bindR (Some (GetNode cvec)) (\<lambda>node.
     bindR (Some (case GetValueByDim cvec dimid of None \<Rightarrow> Inl UninitRead | Some a \<Rightarrow> Inr a)) (\<lambda>area.
       case cmap_find blockMap doc of
         Some t \<Rightarrow> bindR (AddSub d (leaf_tree (node, area)) t) (\<lambda>t. Some (Inr (cmap_set doc t blockMap)))
       | None \<Rightarrow> bindR (AddSub d (leaf_tree (node, area)) new_NodeTree) (\<lambda>t. Some (Inr (cmap_insert doc t blockMap))))))"

definition add_blocks :: "'n :: linorder dom \<Rightarrow> int \<Rightarrow> 'n node_vec att_set \<Rightarrow> ('n, 'n node_tree) cmap run" where
  "add_blocks d dimid cset =
     foldR (\<lambda>i blockMap. bindR (Some (bindE (GetVectorByIndex cset i) addref)) (\<lambda>cvec. add_block d dimid cvec blockMap))
       [0..set_GetLength cset - 1] []"

text \<open>\<open>PrintTree\<close> asks for the path of every node.\<close>

definition PrintTree :: "'n dom \<Rightarrow> 'n node_tree \<Rightarrow> unit run" where
  "PrintTree d t = foldR (\<lambda>n _. bindR (GetXpath d [] (Some n) 1) (\<lambda>_. Some (Inr ()))) (GetAll t) ()"

definition arranged_nodes :: "(flt \<Rightarrow> flt) \<Rightarrow> 'n dom \<Rightarrow> 'n node_tree \<Rightarrow> 'n list run" where
  "arranged_nodes ex d t =
     bindR (PrintTree d t) (\<lambda>_. Option.bind (ArrangeTree ex t) (\<lambda>t.
       bindR (PrintTree d t) (\<lambda>_. Some (Inr (GetAll t)))))"

definition path_map :: "'n dom \<Rightarrow> 'n list \<Rightarrow> (bytes, 'n) cmap run" where
  "path_map d nodes =
     foldR (\<lambda>n nodemap. bindR (GetXpath d [] (Some n) 1) (\<lambda>xpath. Some (Inr (cmap_insert (c_str xpath) n nodemap)))) nodes []"

definition flt_of_int :: "int \<Rightarrow> flt" where
  "flt_of_int i = f64 (of_int i)"

text \<open>
  How much the texts of two nodes with the same path differ: their distance times the length of the
  path, less for texts full of digits.  The product is computed in \<open>unsigned long\<close> and stored in an \<open>int\<close>.
\<close>

definition text_dist :: "'n browser \<Rightarrow> bytes \<Rightarrow> 'n \<Rightarrow> 'n \<Rightarrow> int res" where
  "text_dist b path n1 n2 =
     (let textStr1 = c_str (GetNodeText_of b (Some n1)); textStr2 = c_str (GetNodeText_of b (Some n2))
      in if 0 < length textStr2 + length textStr1 then
           bindE (LD_string textStr1 textStr2) (\<lambda>k.
           bindE (check_int (StrNumCount textStr1 + StrNumCount textStr2)) (\<lambda>nums.
             let tmp = wrap_int (k * int (length path));
                 numRate = fdiv f64 (flt_of_int nums) (f64 (of_nat (length textStr1 + length textStr2)));
                 rest = fsub f64 (Fin 1) numRate
             in case int_of_flt (fmul f64 (fmul f64 (flt_of_int tmp) rest) rest) of
                  None \<Rightarrow> Inl BadConversion
                | Some i \<Rightarrow> Inr i))
         else Inr 0)"

text \<open>The node of the first document whose text differs most from the node at its path in another one.\<close>

definition better_node :: "'n browser \<Rightarrow> (bytes, 'n) cmap \<Rightarrow> bytes \<times> 'n \<Rightarrow> int \<times> 'n option \<Rightarrow> (int \<times> 'n option) res" where
  "better_node b first pn best =
     (case cmap_find first (fst pn) of
        None \<Rightarrow> Inr best
      | Some n2 \<Rightarrow> bindE (text_dist b (fst pn) (snd pn) n2) (\<lambda>tmp. Inr (if fst best < tmp then (tmp, Some n2) else best)))"

definition best_node :: "'n browser \<Rightarrow> (bytes, 'n) cmap list \<Rightarrow> 'n option res" where
  "best_node b mapList =
     (case mapList of
        [] \<Rightarrow> Inl BadIterator
      | first # others \<Rightarrow>
          bindE (foldE (foldE (better_node b first)) others (- (2 ^ 31), None)) (\<lambda>best. Inr (snd best)))"

definition col_CaculAtt ::
  "(flt \<Rightarrow> flt) \<Rightarrow> 'n :: linorder browser \<Rightarrow> ('n, 'n node_tree) cmap \<Rightarrow> 'n option run" where
  "col_CaculAtt ex b trees =
     bindR (foldR (\<lambda>(doc, t) resmap. bindR (arranged_nodes ex (page b) t) (\<lambda>ns. Some (Inr (cmap_insert doc ns resmap)))) trees [])
       (\<lambda>resmap.
     bindR (foldR (\<lambda>(doc, ns) mapList. bindR (path_map (page b) ns) (\<lambda>m. Some (Inr (mapList @ [m])))) resmap [])
       (\<lambda>mapList. Some (best_node b mapList)))"

section \<open>The links of the box\<close>

text \<open>A link is known by its address and its path from the box; its text is kept.\<close>

type_synonym link_state = "layer_cluster \<times> (int, bytes) cmap \<times> int"

definition add_url :: "'n browser \<Rightarrow> bytes list \<Rightarrow> 'n \<Rightarrow> 'n \<Rightarrow> link_state \<Rightarrow> link_state run" where
  "add_url b attlist boxnode urlnode st =
     (let (lc, textMap, curIndex) = st; url = GetLinkStr b (Some urlnode) 1
      in if url \<noteq> [] then
           let lc = AddString (c_str url) curIndex lc
           in bindR (GetSubpath (page b) attlist (Some boxnode) (Some urlnode)) (\<lambda>urlxpath.
                let lc = AddString (c_str urlxpath) curIndex lc;
                    textMap = cmap_insert curIndex (c_str (GetNodeText_of b (Some urlnode))) textMap
                in Some (bindE (check_int (curIndex + 1)) (\<lambda>i. Inr (lc, textMap, i))))
         else Some (Inr st))"

text \<open>The mean length of the texts of a class; \<open>textMap[i]\<close> inserts an empty text.\<close>

definition class_text :: "int list \<Rightarrow> (int, bytes) cmap \<Rightarrow> flt \<times> (int, bytes) cmap" where
  "class_text tmpclass textMap =
     (let (sumCount, textMap) =
            fold (\<lambda>i (sumCount, textMap). let (t, textMap) = cmap_at i [] textMap in (wrap_int (sumCount + int (length t)), textMap))
              tmpclass (0, textMap)
      in (fdiv f64 (flt_of_int sumCount) (flt_of_int (int_of_size (length tmpclass))), textMap))"

definition longest_class :: "layer_cluster \<Rightarrow> (int, bytes) cmap \<Rightarrow> int" where
  "longest_class lc textMap =
     (let (maxAvr, classindex, textMap) =
            fold (\<lambda>i (maxAvr, classindex, textMap).
                let (avr, textMap) = class_text (GetClassByID i lc) textMap
                in if flt_less maxAvr avr then (avr, i, textMap) else (maxAvr, classindex, textMap))
              (GetClassID lc) (Fin (- 2147483648), - 1, textMap)
      in classindex)"

text \<open>The last strings of the members of a class; an element without strings has no last one.\<close>

definition class_paths :: "int list \<Rightarrow> layer_cluster \<Rightarrow> (bytes list \<times> layer_cluster) res" where
  "class_paths classcon lc =
     foldE (\<lambda>i (pathSet, lc).
       let (strs, lc) = GetAtt i lc
       in if strs = [] then Inl BadIterator else Inr (insort_insert (last strs) pathSet, lc)) classcon ([], lc)"

fun bar_join :: "bytes list \<Rightarrow> bytes" where
  "bar_join [] = []"
| "bar_join (p # ps) = p @ (if ps \<noteq> [] then ''|'' @ bar_join ps else [])"

definition sub_path :: "layer_cluster \<Rightarrow> (int, bytes) cmap \<Rightarrow> bytes res" where
  "sub_path lc textMap =
     (let classindex = longest_class lc textMap
      in if 0 \<le> classindex then bindE (class_paths (GetClassByID classindex lc) lc) (\<lambda>(pathSet, lc). Inr (bar_join pathSet))
         else Inr [])"

text \<open>From the box to the variables \<open>box\<close> and \<open>sub\<close>.\<close>

definition box_vars :: "'n browser \<Rightarrow> bytes list \<Rightarrow> 'n \<Rightarrow> (bytes, bytes) cmap \<Rightarrow> (bytes, bytes) cmap run" where
  "box_vars b nameVec boxnode vars =
     (let attlist = fold (\<lambda>name. AddAttName (c_str name)) nameVec []
      in bindR (GetXpath (page b) attlist (Some boxnode) 1) (\<lambda>xpath.
           let vars = cmap_insert ''box'' (c_str xpath) vars
           in if ownerDocument b boxnode = None then Some (Inl NullDeref)
              else
                bindR (foldR (add_url b attlist boxnode) (GetSubNodes (evaluate b) boxnode ''.//a[@href]'')
                         (new_LayerCluster, [], 0)) (\<lambda>(lc, textMap, _).
                bindR (Some (Cluster 3 5 lc)) (\<lambda>lc.
                bindR (Some (sub_path lc textMap)) (\<lambda>subpath.
                  Some (Inr (if subpath \<noteq> [] then cmap_insert ''sub'' subpath vars else vars)))))))"

definition col_GenVar :: "(flt \<Rightarrow> flt) \<Rightarrow> 'n :: linorder browser \<Rightarrow> 'n var_gen \<Rightarrow> 'n var_gen run" where
  "col_GenVar ex b g =
     (let (attnames, parm) = cmap_at ''PATH_ATTS'' [] (g_parm g); g = g\<lparr>g_parm := parm\<rparr>
      in Option.bind (if attnames \<noteq> [] then col_split attnames '';'' else Some []) (\<lambda>nameVec.
         bindR (Some (addref (g_model g))) (\<lambda>m.
         bindR (Some (col_class m)) (\<lambda>classid.
           if 0 \<le> classid then
             bindR (Some (addref (g_attDim g))) (\<lambda>dims.
             bindR (Some (bindE (GetClassSet m classid) addref)) (\<lambda>cset.
             bindR (add_blocks (page b) (fst (GetDimId dims ''AREA_RATE'')) cset) (\<lambda>blockMap.
             bindR (col_CaculAtt ex b blockMap) (\<lambda>boxnode.
               case boxnode of
                 None \<Rightarrow> Some (Inr g)
               | Some n \<Rightarrow> bindR (box_vars b nameVec n (g_vars g)) (\<lambda>vars. Some (Inr (g\<lparr>g_vars := vars\<rparr>)))))))
           else Some (Inr g)))))"

section \<open>The box of a content page\<close>

text \<open>\<open>None\<close> is \<open>false\<close>.  \<open>int\<close> arithmetic may overflow or divide by zero; a box that is not known is read.\<close>

definition box_size :: "'n browser \<Rightarrow> 'n option \<Rightarrow> int res" where
  "box_size b ele = (case GetEleBox b ele of None \<Rightarrow> Inl UninitRead | Some (x, y, w, h) \<Rightarrow> check_int (w * h))"

definition text_share :: "bytes \<Rightarrow> bytes \<Rightarrow> flt" where
  "text_share nodeText docText = fdiv f64 (f64 (of_nat (length nodeText))) (f64 (of_nat (length docText)))"

definition chl_CaculAtt :: "'n browser \<Rightarrow> 'n node_vec \<Rightarrow> flt option res" where
  "chl_CaculAtt b vec =
     bindE (GetDoc vec) (\<lambda>doc. bindE (GetNode vec) (\<lambda>node.
     bindE (GetDocUrlCount b (Some doc)) (\<lambda>docurlcont. bindE (GetNodeUrlCount b (Some node)) (\<lambda>nodeurlcont.
     bindE (GetDocText b (Some doc)) (\<lambda>docText.
     let nodeText = GetNodeText_of b (Some node)
     in bindE (GetNodeUrlDistance b (Some node)) (\<lambda>urldist. bindE (GetDocUrlDistance b (Some doc)) (\<lambda>docdist.
     if nodeType (page b) node \<noteq> ELEMENT_NODE then Inl NullDeref
     else if 0 < nodeurlcont \<and> nodeText \<noteq> [] \<and> 0 \<le> urldist then
       bindE (box_size b (Some node)) (\<lambda>box. bindE (box_size b (documentElement b doc)) (\<lambda>docbox.
         Inr (Some (fmul f64 (flt_of_int (docurlcont div nodeurlcont))
           (fadd f64 (fadd f64 (text_share nodeText docText) (fdiv f64 (flt_of_int urldist) (flt_of_int docdist)))
              (fdiv f64 (flt_of_int box) (flt_of_int docbox)))))))
     else Inr None)))))))"

text \<open>The value 0 stands for no class yet.\<close>

definition chl_class :: "'n node_model \<Rightarrow> int res" where
  "chl_class m =
     bindE (foldE (\<lambda>i (maxValue, classid).
              bindE (GetClassAtt m i) (\<lambda>p. bindE (addref p) (\<lambda>vec.
              bindE (case GetValueByDim vec 0 of None \<Rightarrow> Inl UninitRead | Some a \<Rightarrow> Inr a) (\<lambda>attValue.
                Inr (if flt_eq maxValue (Fin 0) then (attValue, i)
                     else if flt_less attValue maxValue then (attValue, i) else (maxValue, classid))))))
            [0..class_count m - 1] (Fin 0, - 1))
       (\<lambda>(maxValue, classid). Inr classid)"

definition chl_choose :: "'n browser \<Rightarrow> 'n node_vec att_set \<Rightarrow> int res" where
  "chl_choose b cset =
     bindE (foldE (\<lambda>i (minatt, chose).
              bindE (GetVectorByIndex cset i) (\<lambda>p. bindE (addref p) (\<lambda>vec. bindE (chl_CaculAtt b vec) (\<lambda>r.
                Inr (case r of
                       None \<Rightarrow> (minatt, chose)
                     | Some att \<Rightarrow> (if flt_less att minatt then (att, i) else (minatt, chose)))))))
            [0..set_GetLength cset - 1] (INT_MAX, - 1))
       (\<lambda>(minatt, chose). Inr chose)"

definition chl_GenVar :: "'n browser \<Rightarrow> 'n var_gen \<Rightarrow> 'n var_gen run" where
  "chl_GenVar b g =
     bindR (Some (addref (g_model g))) (\<lambda>m.
     bindR (Some (chl_class m)) (\<lambda>classid.
       if 0 \<le> classid then
         bindR (Some (bindE (GetClassSet m classid) addref)) (\<lambda>cset.
         bindR (Some (chl_choose b cset)) (\<lambda>chose.
           if 0 \<le> chose then
             bindR (Some (bindE (GetVectorByIndex cset chose) addref)) (\<lambda>vec.
             bindR (Some (bindE (GetDoc vec) (\<lambda>_. GetNode vec))) (\<lambda>node.
             bindR (GetXpath (page b) [] (Some node) 1) (\<lambda>xpath.
               Some (Inr (g\<lparr>g_vars := cmap_insert ''box'' (c_str xpath) (g_vars g)\<rparr>)))))
           else Some (Inr g)))
       else Some (Inr g)))"

section \<open>Splitting\<close>

fun joined :: "char \<Rightarrow> bytes list \<Rightarrow> bytes" where
  "joined c [] = []"
| "joined c (p # ps) = p @ (if ps = [] then [] else c # joined c ps)"

lemma find_first_char:
  "find_first [c] s = (if c \<in> set s then Some (length (takeWhile (\<lambda>x. x \<noteq> c) s)) else None)"
  by (induction s) auto

lemma split_loop_joined:
  "list_all (\<lambda>p. c \<notin> set p) ps \<Longrightarrow> ps \<noteq> [] \<Longrightarrow> last ps \<noteq> [] \<Longrightarrow>
     col_split_loop (pre @ joined c ps) [c] (length pre) = Some ps"
proof (induction ps arbitrary: pre)
  case (Cons p ps)
  show ?case
  proof (cases ps)
    case Nil
    then have "find_from [c] (pre @ joined c (p # ps)) (length pre) = None"
      using Cons.prems(1) by (simp add: find_from_def find_first_char)
    then show ?thesis using Nil Cons.prems(3) by (subst col_split_loop.simps) simp
  next
    case (Cons q qs)
    have p: "c \<notin> set p" using Cons.prems(1) by simp
    have "takeWhile (\<lambda>x. x \<noteq> c) (p @ c # joined c ps) = p"
      using p by (auto simp: takeWhile_append)
    then have "find_from [c] (pre @ joined c (p # ps)) (length pre) = Some (length pre + length p)"
      using Cons by (simp add: find_from_def find_first_char)
    moreover have "col_split_loop ((pre @ p @ [c]) @ joined c ps) [c] (length (pre @ p @ [c])) = Some ps"
      using Cons.IH [of "pre @ p @ [c]"] Cons.prems Cons by simp
    ultimately show ?thesis using Cons by (subst col_split_loop.simps) simp
  qed
qed simp

text \<open>Names joined by semicolons are split again when the last of them is not empty.\<close>

theorem col_split_joined:
  assumes "list_all (\<lambda>p. CHR '';'' \<notin> set p) ps" "ps \<noteq> []" "last ps \<noteq> []"
  shows "col_split (joined CHR '';'' ps) '';'' = Some ps"
  using split_loop_joined [OF assms, of "[]"] by (simp add: col_split_def)

lemma col_split_joined_witness: "col_split (joined CHR '';'' [''id'', [], ''class'']) '';'' = Some [''id'', [], ''class'']"
  by (rule col_split_joined) simp_all

section \<open>The least value\<close>

text \<open>\<open>k\<close> is the first position of the least value below \<open>INT_MAX\<close>, or -1 when there is none.\<close>

definition is_least :: "flt option list \<Rightarrow> int \<Rightarrow> bool" where
  "is_least vs k \<longleftrightarrow>
     (if list_all (\<lambda>v. case v of None \<Rightarrow> True | Some a \<Rightarrow> \<not> flt_less a INT_MAX) vs then k = - 1
      else 0 \<le> k \<and> nat k < length vs \<and>
        (case vs ! nat k of
           None \<Rightarrow> False
         | Some m \<Rightarrow>
             list_all (\<lambda>v. case v of None \<Rightarrow> True | Some a \<Rightarrow> \<not> flt_less a m) vs \<and>
             list_all (\<lambda>v. case v of None \<Rightarrow> True | Some a \<Rightarrow> \<not> flt_le a m) (take (nat k) vs)))"

definition least_step :: "(int \<Rightarrow> flt option res) \<Rightarrow> int \<Rightarrow> flt \<times> int \<Rightarrow> (flt \<times> int) res" where
  "least_step f i s =
     bindE (f i) (\<lambda>r. Inr (case r of None \<Rightarrow> s | Some a \<Rightarrow> if flt_less a (fst s) then (a, i) else s))"

lemma flt_order:
  "flt_less a m \<Longrightarrow> \<not> flt_less v m \<Longrightarrow> \<not> flt_le v a" "flt_less a m \<Longrightarrow> \<not> flt_le v m \<Longrightarrow> \<not> flt_le v a"
  "\<not> flt_le v a \<Longrightarrow> \<not> flt_less v a"
  by (cases a; cases m; cases v; auto)+

definition least_so_far :: "flt option list \<Rightarrow> flt \<Rightarrow> int \<Rightarrow> bool" where
  "least_so_far vs mn k \<longleftrightarrow> (\<forall>w. Some w \<in> set vs \<longrightarrow> \<not> flt_less w mn) \<and>
     (if k < 0 then k = - 1 \<and> mn = INT_MAX
      else nat k < length vs \<and> vs ! nat k = Some mn \<and> flt_less mn INT_MAX \<and> (\<forall>w. Some w \<in> set (take (nat k) vs) \<longrightarrow> \<not> flt_le w mn))"

lemma least_so_far_step:
  assumes "least_so_far vs mn k"
  shows "if case v of None \<Rightarrow> False | Some a \<Rightarrow> flt_less a mn
    then least_so_far (vs @ [v]) (the v) (int (length vs)) else least_so_far (vs @ [v]) mn k"
proof (cases "case v of None \<Rightarrow> False | Some a \<Rightarrow> flt_less a mn")
  case True
  then obtain a where a: "v = Some a" "flt_less a mn" by (auto split: option.splits)
  have "flt_less a INT_MAX" using assms a(2) flt_less_trans by (auto simp: least_so_far_def split: if_splits)
  moreover have "\<not> flt_le w a" if "Some w \<in> set vs" for w
    using assms a(2) flt_order(1) that by (auto simp: least_so_far_def)
  ultimately show ?thesis using a flt_order(3) by (auto simp: least_so_far_def)
next
  case False
  then show ?thesis using assms by (cases v) (auto simp: least_so_far_def nth_append)
qed

lemma least_so_far_is_least:
  assumes "least_so_far vs mn k"
  shows "is_least vs k"
proof (cases "k < 0")
  case True
  then show ?thesis using assms by (auto simp: least_so_far_def is_least_def list_all_iff split: option.split)
next
  case False
  then have k: "nat k < length vs" "vs ! nat k = Some mn" "flt_less mn INT_MAX"
    using assms by (auto simp: least_so_far_def)
  then have "\<not> list_all (\<lambda>v. case v of None \<Rightarrow> True | Some a \<Rightarrow> \<not> flt_less a INT_MAX) vs"
    using nth_mem [OF k(1)] by (force simp: list_all_iff)
  then show ?thesis
    using False k assms by (auto simp: is_least_def least_so_far_def list_all_iff split: option.split)
qed

lemma least_loop:
  assumes "map f [0..int (length vs) - 1] = map Inr vs"
  shows "\<exists>mn k. foldE (least_step f) [0..int (length vs) - 1] (INT_MAX, - 1) = Inr (mn, k) \<and> least_so_far vs mn k"
  using assms
proof (induction vs rule: rev_induct)
  case (snoc v vs)
  have idx: "[0..int (length (vs @ [v])) - 1] = [0..int (length vs) - 1] @ [int (length vs)]"
    using upto_rec2 [of 0 "int (length vs)"] by simp
  have v: "f (int (length vs)) = Inr v" and vs: "map f [0..int (length vs) - 1] = map Inr vs"
    using snoc.prems unfolding idx by simp_all
  from snoc.IH [OF vs] obtain mn k where s: "foldE (least_step f) [0..int (length vs) - 1] (INT_MAX, - 1) = Inr (mn, k)"
      "least_so_far vs mn k"
    by blast
  have "foldE (least_step f) [0..int (length (vs @ [v])) - 1] (INT_MAX, - 1) =
      Inr (if case v of None \<Rightarrow> False | Some a \<Rightarrow> flt_less a mn then (the v, int (length vs)) else (mn, k))"
    unfolding idx using s(1) v by (simp add: least_step_def split: option.split)
  then show ?case using least_so_far_step [OF s(2), of v] by (simp split: if_splits)
qed (simp add: least_so_far_def)

text \<open>The value of each class, and of each vector of a set.\<close>

definition class_values :: "'n node_model \<Rightarrow> flt res list" where
  "class_values m = map (\<lambda>i. bindE (bindE (GetClassAtt m i) addref) class_value) [0..class_count m - 1]"

definition set_values :: "'n browser \<Rightarrow> 'n node_vec att_set \<Rightarrow> flt option res list" where
  "set_values b cset = map (\<lambda>i. bindE (bindE (GetVectorByIndex cset i) addref) (chl_CaculAtt b)) [0..set_GetLength cset - 1]"

text \<open>The list page is taken from the first class with the least value.\<close>

theorem col_class_least:
  assumes "class_values m = map Inr vs"
  shows "\<exists>k. col_class m = Inr k \<and> is_least (map Some vs) k"
proof -
  let ?f = "\<lambda>i. bindE (bindE (bindE (GetClassAtt m i) addref) class_value) (\<lambda>a. Inr (Some a))"
  have "length vs = nat (class_count m)" using arg_cong [OF assms, of length] by (simp add: class_values_def)
  then have idx: "[0..class_count m - 1] = [0..int (length (map Some vs)) - 1]" by (cases "0 \<le> class_count m") auto
  have "map ?f [0..class_count m - 1] = map (\<lambda>r. bindE r (\<lambda>a. Inr (Some a))) (class_values m)"
    by (simp add: class_values_def)
  also have "\<dots> = map Inr (map Some vs)" by (simp add: assms)
  finally have "map ?f [0..int (length (map Some vs)) - 1] = map Inr (map Some vs)" unfolding idx .
  from least_loop [OF this] obtain mn k where
    k: "foldE (least_step ?f) [0..class_count m - 1] (INT_MAX, - 1) = Inr (mn, k)" "is_least (map Some vs) k"
    unfolding idx using least_so_far_is_least by blast
  have "(\<lambda>i (minValue, classid). bindE (GetClassAtt m i) (\<lambda>p. bindE (addref p) (\<lambda>vec. bindE (class_value vec) (\<lambda>attValue.
      Inr (if flt_less attValue minValue then (attValue, i) else (minValue, classid)))))) = least_step ?f"
    by (auto simp: fun_eq_iff least_step_def bindE_assoc)
  then show ?thesis using k by (simp add: col_class_def)
qed

text \<open>The content page is the vector of its class with the least value among those that have one.\<close>

theorem chl_choose_least:
  assumes "set_values b cset = map Inr vs"
  shows "\<exists>k. chl_choose b cset = Inr k \<and> is_least vs k"
proof -
  let ?f = "\<lambda>i. bindE (bindE (GetVectorByIndex cset i) addref) (chl_CaculAtt b)"
  have "length vs = nat (set_GetLength cset)" using arg_cong [OF assms, of length] by (simp add: set_values_def)
  then have idx: "[0..set_GetLength cset - 1] = [0..int (length vs) - 1]" by (cases "0 \<le> set_GetLength cset") auto
  have "map ?f [0..int (length vs) - 1] = map Inr vs" using assms unfolding set_values_def idx .
  from least_loop [OF this] obtain mn k where
    k: "foldE (least_step ?f) [0..set_GetLength cset - 1] (INT_MAX, - 1) = Inr (mn, k)" "is_least vs k"
    unfolding idx using least_so_far_is_least by blast
  have "(\<lambda>i (minatt, chose). bindE (GetVectorByIndex cset i) (\<lambda>p. bindE (addref p) (\<lambda>vec. bindE (chl_CaculAtt b vec) (\<lambda>r.
      Inr (case r of None \<Rightarrow> (minatt, chose) | Some att \<Rightarrow> (if flt_less att minatt then (att, i) else (minatt, chose))))))) =
    least_step ?f"
    by (auto simp: fun_eq_iff least_step_def bindE_assoc split: option.split intro!: arg_cong2 [of _ _ _ _ bindE])
  then show ?thesis using k by (simp add: chl_choose_def)
qed

text \<open>
  The class of a content page is not the one with the least value when that value is 0: 0 also stands
  for no class yet, and the next class is taken.
\<close>

definition value_class :: "flt \<Rightarrow> 'n node_vec" where
  "value_class x = AddValue 0 x new_att_vec"

lemma chl_class_zero:
  "chl_class \<lparr>c_atts = [Some (value_class (Fin 0)), Some (value_class (Fin 5))], c_sets = [None, None]\<rparr> = Inr 1"
  "col_class \<lparr>c_atts = [Some (value_class (Fin 0)), Some (value_class (Fin 5))], c_sets = [None, None]\<rparr> = Inr 0"
  by (simp_all add: chl_class_def col_class_def class_count_def GetClassCount_def int_of_size_def wrap_int_def upto.simps
      GetClassAtt_def GetVectorByIndex_def addref_def class_value_def value_class_def AddValue_def GetValueByDim_def
      cmap_find_def new_att_vec_def vec_GetLength_def flt_eq_def)

lemma col_class_least_witness:
  "\<exists>k. col_class \<lparr>c_atts = [Some (value_class (Fin 4)), Some (value_class (Fin 3))], c_sets = [None, None]\<rparr> = Inr k
    \<and> is_least (map Some [Fin 4, Fin 3]) k"
  by (rule col_class_least)
    (simp add: class_values_def class_count_def GetClassCount_def int_of_size_def wrap_int_def upto.simps
      GetClassAtt_def GetVectorByIndex_def addref_def class_value_def value_class_def AddValue_def GetValueByDim_def
      cmap_find_def new_att_vec_def vec_GetLength_def)

section \<open>The best node\<close>

lemma foldE_concat: "foldE (foldE f) xss s = foldE f (concat xss) s"
proof (induction xss arbitrary: s)
  case (Cons xs xss)
  then have "foldE (foldE f) xss = foldE f (concat xss)" by (rule ext)
  then show ?case by simp
qed simp

definition at_most :: "'n browser \<Rightarrow> (bytes, 'n) cmap \<Rightarrow> int \<Rightarrow> bytes \<times> 'n \<Rightarrow> bool" where
  "at_most b first mx pn \<longleftrightarrow>
     (case cmap_find first (fst pn) of
        None \<Rightarrow> True
      | Some n2 \<Rightarrow> (case text_dist b (fst pn) (snd pn) n2 of Inl e \<Rightarrow> False | Inr k \<Rightarrow> k \<le> mx))"

definition scores_at :: "'n browser \<Rightarrow> (bytes, 'n) cmap \<Rightarrow> int \<Rightarrow> 'n \<Rightarrow> bytes \<times> 'n \<Rightarrow> bool" where
  "scores_at b first mx n pn \<longleftrightarrow> cmap_find first (fst pn) = Some n \<and> text_dist b (fst pn) (snd pn) n = Inr mx"

lemma better_node_loop:
  assumes "foldE (better_node b first) pns (- (2 ^ 31), None) = Inr (mx, r)"
  shows "list_all (at_most b first mx) pns
    \<and> (case r of None \<Rightarrow> mx = - (2 ^ 31) | Some n \<Rightarrow> list_ex (scores_at b first mx n) pns)"
  using assms
proof (induction pns arbitrary: mx r rule: rev_induct)
  case (snoc pn pns)
  then obtain my q where q: "foldE (better_node b first) pns (- (2 ^ 31), None) = Inr (my, q)"
      "better_node b first pn (my, q) = Inr (mx, r)"
    by (auto simp: bindE_eq_Inr split: prod.splits)
  note IH = snoc.IH [OF q(1)]
  have mono: "my \<le> mz \<Longrightarrow> list_all (at_most b first mz) pns" for mz
    using IH by (fastforce simp: list_all_iff at_most_def split: option.splits sum.splits)
  show ?case
  proof (cases "cmap_find first (fst pn)")
    case None
    then show ?thesis using q(2) IH by (auto simp: better_node_def at_most_def split: option.splits)
  next
    case (Some n2)
    then obtain k where k: "text_dist b (fst pn) (snd pn) n2 = Inr k" "(mx, r) = (if my < k then (k, Some n2) else (my, q))"
      using q(2) by (auto simp: better_node_def bindE_eq_Inr split: if_splits)
    then have "at_most b first mz pn \<longleftrightarrow> k \<le> mz" "scores_at b first mz n pn \<longleftrightarrow> n = n2 \<and> mz = k" for mz n
      using Some by (auto simp: at_most_def scores_at_def)
    then show ?thesis using k(2) IH mono [of k] by (auto split: if_splits option.splits)
  qed
qed simp

text \<open>C29.  The chosen node is at the path of a node of another document, and no pair of nodes with a common
  path differs more in its texts.
\<close>

theorem best_node_differs_most:
  assumes "best_node b (first # others) = Inr r"
  shows "\<exists>mx. list_all (list_all (at_most b first mx)) others
    \<and> (case r of None \<Rightarrow> mx = - (2 ^ 31) | Some n \<Rightarrow> list_ex (list_ex (scores_at b first mx n)) others)"
proof -
  obtain mx where "foldE (better_node b first) (concat others) (- (2 ^ 31), None) = Inr (mx, r)"
    using assms by (auto simp: best_node_def foldE_concat bindE_eq_Inr)
  from better_node_loop [OF this] have "list_all (list_all (at_most b first mx)) others
      \<and> (case r of None \<Rightarrow> mx = - (2 ^ 31) | Some n \<Rightarrow> list_ex (list_ex (scores_at b first mx n)) others)"
    by (auto simp: list_all_iff list_ex_iff split: option.splits)
  then show ?thesis by blast
qed

lemma best_node_differs_most_witness:
  "\<exists>mx. list_all (list_all (at_most (browser_of link_page) [(''p'', [0, 0])] mx)) [[(''p'', [0, 1])]]
    \<and> (case Some [0, 0] of None \<Rightarrow> mx = - (2 ^ 31)
       | Some n \<Rightarrow> list_ex (list_ex (scores_at (browser_of link_page) [(''p'', [0, 0])] mx n)) [[(''p'', [0, 1])]])"
proof (rule best_node_differs_most)
  have "GetNodeText_of (browser_of link_page) (Some [0, 0]) = ''31''" "GetNodeText_of (browser_of link_page) (Some [0, 1]) = []"
    by (simp_all add: GetNodeText_of_def strip_text_def link_eval)
  then have "text_dist (browser_of link_page) ''p'' [0, 1] [0, 0] = Inr 0"
    by (simp add: text_dist_def c_str_def LD_string_def StrNumCount_def int_of_size_def wrap_int_def check_int_def int_ok_def
        flt_of_int_def fsub_def Let_def)
  then show "best_node (browser_of link_page) [[(''p'', [0, 0])], [(''p'', [0, 1])]] = Inr (Some [0, 0])"
    by (simp add: best_node_def better_node_def cmap_find_def)
qed

text \<open>
  With a single link the distances are 0, the quotient of the distances is not a number, and the box
  is never chosen; without links in the node there is no value.
\<close>

definition one_link :: "nat list browser" where
  "one_link =
     (let b = browser_of [Element (CHR ''H'') ''TML'' [] [Element (CHR ''A'') [] [(''href'', ''/a'')] [Text ''t'']]]
      in b\<lparr>page := (page b)\<lparr>boxOf := (\<lambda>n. Some (0, 0, 10, 10))\<rparr>\<rparr>)"

definition node_vec :: "'n \<Rightarrow> 'n \<Rightarrow> 'n node_vec" where
  "node_vec dc n = SetNode (Some n) (SetDoc (Some dc) new_att_vec)"

lemma one_link_value:
  "chl_CaculAtt one_link (node_vec [] [0]) = Inr (Some NaN)" "chl_CaculAtt one_link (node_vec [] [0, 0]) = Inr None"
  by (simp_all add: chl_CaculAtt_def one_link_def node_vec_def GetDoc_def GetNode_def SetDoc_def SetNode_def addref_def
      GetDocUrlCount_def GetNodeUrlCount_def GetDocText_def GetNodeText_of_def strip_text_def GetNodeUrlDistance_def
      GetDocUrlDistance_def doc_nodes_def GetSubNodes_def as_element_def box_size_def GetEleBox_def check_int_def int_ok_def
      text_share_def flt_of_int_def int_of_size_def wrap_int_def link_eval Let_def)

lemma chl_choose_least_witness:
  "\<exists>k. chl_choose one_link [Some (node_vec [] [0]), Some (node_vec [] [0, 0])] = Inr k \<and> is_least [Some NaN, None] k"
  by (rule chl_choose_least)
    (simp add: set_values_def set_GetLength_def int_of_size_def wrap_int_def upto.simps GetVectorByIndex_def addref_def one_link_value)

end
