(* ===== verification/ContentTrain.thy ===== *)
theory ContentTrain
  imports DimStat Keywords VarGen
begin

text \<open>
  \<open>DisCrawler/ContentTrain/ContentTrainUtil.cpp\<close> and \<open>ContentVarGen.cpp\<close>: what the documents of a class have in
  common, and the variables by which the crawler extracts its pages: the paths of the content, of the
  title, of date, author and source, and of what is left, the advertisements.  Extraction patterns are
  matched by the argument \<open>rx\<close>, \<open>atof\<close> is the C library's.
\<close>

section \<open>Comparing documents (\<open>ContentTrainUtil\<close>)\<close>

record 'n train_util =
  u_attset :: "'n node_vec att_set option"
  u_attdim :: "att_dim option"

definition new_train_util :: "'n train_util" where
  "new_train_util = \<lparr>u_attset = None, u_attdim = None\<rparr>"

definition util_SetVectorSet :: "'n node_vec att_set option \<Rightarrow> 'n train_util \<Rightarrow> 'n train_util" where
  "util_SetVectorSet attset u = u\<lparr>u_attset := attset\<rparr>"

definition util_SetAttDim :: "att_dim option \<Rightarrow> 'n train_util \<Rightarrow> 'n train_util" where
  "util_SetAttDim attdim u = u\<lparr>u_attdim := attdim\<rparr>"

definition vector_at :: "'n node_vec att_set \<Rightarrow> int \<Rightarrow> 'n node_vec res" where
  "vector_at s i = bindE (GetVectorByIndex s i) addref"

text \<open>A local path that \<open>GetDesc\<close> may leave empty.\<close>

definition desc_of :: "'n train_util \<Rightarrow> int \<Rightarrow> bytes res" where
  "desc_of u dimid = bindE (addref (u_attdim u)) (\<lambda>dims. Inr (case GetDesc dims dimid of None \<Rightarrow> [] | Some d \<Rightarrow> d))"

definition ElimitDiffDim :: "int list \<Rightarrow> int list \<Rightarrow> int list" where
  "ElimitDiffDim dims1 dims2 = map (\<lambda>d. if d \<in> set dims2 then d else - 1) dims1"

definition FindCommonDim :: "'n train_util \<Rightarrow> int list res" where
  "FindCommonDim u =
     bindE (addref (u_attset u)) (\<lambda>s.
     bindE (foldE (\<lambda>i common. bindE (vector_at s i) (\<lambda>v.
              Inr (Some (case common of None \<Rightarrow> GetDims v | Some ds \<Rightarrow> ElimitDiffDim ds (GetDims v)))))
              [0..set_GetLength s - 1] None)
       (\<lambda>common. Inr (filter (\<lambda>d. 0 \<le> d) (case common of None \<Rightarrow> [] | Some ds \<Rightarrow> ds))))"

text \<open>The texts are compared up to byte 900; the count is unsigned.\<close>

definition cut_900 :: "bytes \<Rightarrow> bytes" where
  "cut_900 s = (if length s \<le> 900 then c_str s else take 900 s)"

definition SameScore :: "bytes \<Rightarrow> bytes \<Rightarrow> int res" where
  "SameScore s1 s2 =
     (if s1 = [] \<or> s2 = [] then Inr 0
      else
        let str1 = cut_900 s1; str2 = cut_900 s2
        in bindE (LD_string str1 str2) (\<lambda>d. Inr ((int (max (length str1) (length str2)) - d) mod 2 ^ 32)))"

definition GetSimilarityBetweenStrings :: "bytes \<Rightarrow> bytes \<Rightarrow> flt res" where
  "GetSimilarityBetweenStrings s1 s2 =
     (if s1 = s2 then Inr (Fin 1)
      else bindE (SameScore s1 s2) (\<lambda>same_count.
             let sim = fdiv f64 (Fin (of_int (2 * same_count mod 2 ^ 32))) (Fin (of_int (int (length s1 + length s2) mod 2 ^ 32)))
             in Inr (if flt_less (Fin 1) sim then Fin 1 else sim)))"

definition GetNodesTextByXpath :: "'n browser \<Rightarrow> 'n option \<Rightarrow> bytes \<Rightarrow> bytes res" where
  "GetNodesTextByXpath b doc xp =
     bindE (doc_nodes b doc xp) (\<lambda>ns. foldE (\<lambda>n ret. bindE (GetNodeOwnText b (Some n)) (\<lambda>t. Inr (ret @ t))) ns [])"

definition vector_text :: "'n browser \<Rightarrow> 'n node_vec att_set \<Rightarrow> bytes \<Rightarrow> int \<Rightarrow> bytes res" where
  "vector_text b s xp i =
     bindE (vector_at s i) (\<lambda>v. bindE (GetDoc v) (\<lambda>dc. GetNodesTextByXpath b (Some dc) xp))"

text \<open>The mean similarity over all pairs of documents; the state is \<open>(score, n)\<close>.\<close>

definition GetSimilarityByDim :: "'n browser \<Rightarrow> 'n train_util \<Rightarrow> int \<Rightarrow> flt res" where
  "GetSimilarityByDim b u dimid =
     bindE (addref (u_attset u)) (\<lambda>s.
       let doc_count = set_GetLength s
       in if doc_count \<le> 1 then Inr (Fin 1)
          else
            bindE (desc_of u dimid) (\<lambda>xp.
            bindE (foldE (\<lambda>i st. bindE (vector_text b s xp i) (\<lambda>text1.
                     foldE (\<lambda>j (score, n). bindE (vector_text b s xp j) (\<lambda>text2. bindE (check_int (n + 1)) (\<lambda>n.
                         bindE (GetSimilarityBetweenStrings text1 text2) (\<lambda>sim. Inr (fadd f64 score sim, n)))))
                       [i + 1..doc_count - 1] st))
                     [0..doc_count - 2] (Fin 0, 0))
              (\<lambda>(score, n). Inr (fdiv f64 score (Fin (of_int n))))))"

text \<open>\<open>retval\<close> is left alone when there is no document or no path.\<close>

definition GetSimilarityBetweenDims :: "'n browser \<Rightarrow> 'n train_util \<Rightarrow> int \<Rightarrow> int \<Rightarrow> flt \<Rightarrow> flt res" where
  "GetSimilarityBetweenDims b u dim1 dim2 retval =
     bindE (addref (u_attset u)) (\<lambda>s.
       let doc_count = set_GetLength s
       in if doc_count < 1 then Inr retval
          else
            bindE (desc_of u dim1) (\<lambda>xpath1. bindE (desc_of u dim2) (\<lambda>xpath2.
              if xpath1 = [] \<or> xpath2 = [] then Inr retval
              else
                bindE (foldE (\<lambda>i (score, n). bindE (vector_at s i) (\<lambda>v. bindE (GetDoc v) (\<lambda>dc.
                         bindE (GetNodesTextByXpath b (Some dc) xpath1) (\<lambda>text1.
                         bindE (GetNodesTextByXpath b (Some dc) xpath2) (\<lambda>text2.
                         bindE (GetSimilarityBetweenStrings text1 text2) (\<lambda>sim.
                           Inr (fadd f64 score sim, n + 1 :: int)))))))
                       [0..doc_count - 1] (Fin 0, 0))
                  (\<lambda>(score, n). Inr (fdiv f64 score (Fin (of_int n)))))))"

section \<open>Dates, sources and authors\<close>

text \<open>The first document whose text at the path reads as a date decides; \<open>xp\<close> is read again for each.\<close>

definition date_of_text :: "matcher \<Rightarrow> bytes \<Rightarrow> flt option run" where
  "date_of_text rx d =
     (if length d < 200 then
        bindR (Some (is_date_format rx d)) (\<lambda>s.
          if has_word_copyright d then Some (Inr None)
          else if flt_less s (Fin (1 / 2)) then
            bindR (all_words_relate_date rx d) (\<lambda>prob_date.
              Some (Inr (if flt_less (f64 (8 / 10)) prob_date then Some prob_date else None)))
          else Some (Inr (Some s)))
      else Some (Inr None))"

fun date_docs :: "matcher \<Rightarrow> 'n browser \<Rightarrow> 'n train_util \<Rightarrow> 'n node_vec att_set \<Rightarrow> int \<Rightarrow> int list \<Rightarrow> flt run" where
  "date_docs rx b u s dimid [] = Some (Inr (Fin 0))"
| "date_docs rx b u s dimid (i # is) =
     bindR (Some (bindE (vector_at s i) GetDoc)) (\<lambda>dc.
     bindR (Some (desc_of u dimid)) (\<lambda>xp.
     bindR (Some (doc_nodes b (Some dc) xp)) (\<lambda>array.
     bindR (date_of_text rx (c_str (GetNodeText_of b (case array of [] \<Rightarrow> None | n # _ \<Rightarrow> Some n)))) (\<lambda>p.
       case p of Some x \<Rightarrow> Some (Inr x) | None \<Rightarrow> date_docs rx b u s dimid is))))"

definition IsDateDim :: "matcher \<Rightarrow> 'n browser \<Rightarrow> 'n train_util \<Rightarrow> int \<Rightarrow> dim_stat \<Rightarrow> flt run" where
  "IsDateDim rx b u dimid st =
     bindR (Some (addref (u_attset u))) (\<lambda>s.
     bindR (Some (GetAvrgShowCountByDim st dimid (Fin 1))) (\<lambda>show_count.
       if flt_less (Fin 1) show_count then Some (Inr (Fin 0))
       else date_docs rx b u s dimid [0..set_GetLength s - 1]))"

text \<open>Whether some document's text at the path has a word.\<close>

fun word_docs :: "(bytes \<Rightarrow> bool) \<Rightarrow> 'n browser \<Rightarrow> 'n train_util \<Rightarrow> 'n node_vec att_set \<Rightarrow> int \<Rightarrow> int list \<Rightarrow> bool res" where
  "word_docs has b u s dimid [] = Inr False"
| "word_docs has b u s dimid (i # is) =
     bindE (vector_at s i) (\<lambda>v. bindE (GetDoc v) (\<lambda>dc. bindE (desc_of u dimid) (\<lambda>xp.
     bindE (GetNodesTextByXpath b (Some dc) xp) (\<lambda>d.
       if has (c_str d) then Inr True else word_docs has b u s dimid is))))"

definition IsSourceDim :: "'n browser \<Rightarrow> 'n train_util \<Rightarrow> int \<Rightarrow> dim_stat \<Rightarrow> flt res" where
  "IsSourceDim b u dimid st =
     bindE (addref (u_attset u)) (\<lambda>s.
     bindE (GetAvrgWeightByDim st dimid (Fin 1)) (\<lambda>arvg_weight.
       if flt_less (Fin 100) arvg_weight then Inr (Fin 0)
       else bindE (word_docs has_word_source b u s dimid [0..set_GetLength s - 1])
              (\<lambda>r. Inr (if r then f64 (9 / 10) else Fin 0))))"

text \<open>Without a word for the author \<open>retval\<close> is left alone.\<close>

definition IsAuthorDim :: "'n browser \<Rightarrow> 'n train_util \<Rightarrow> int \<Rightarrow> dim_stat \<Rightarrow> flt \<Rightarrow> flt res" where
  "IsAuthorDim b u dimid st retval =
     bindE (addref (u_attset u)) (\<lambda>s.
     bindE (GetAvrgWeightByDim st dimid (Fin 1)) (\<lambda>arvg_weight.
       if flt_less (Fin 100) arvg_weight then Inr (Fin 0)
       else bindE (word_docs has_word_author b u s dimid [0..set_GetLength s - 1])
              (\<lambda>r. Inr (if r then f64 (9 / 10) else retval))))"


section \<open>The generator (\<open>ContentVarGen\<close>)\<close>

text \<open>
  The object of the dimensions is shared with the statistics of each class, which may add paths to it, and
  with the utility: it is kept here as \<open>v_attdim\<close> and handed on.
\<close>

record 'n content_var_gen =
  v_model :: "'n node_model option"
  v_vars :: "(bytes, bytes) cmap"
  v_parm :: "(bytes, bytes) cmap"
  v_util :: "'n train_util"
  v_attdim :: "att_dim option"
  important_dim :: int

definition new_content_var_gen :: "'n content_var_gen" where
  "new_content_var_gen =
     \<lparr>v_model = None, v_vars = [(''box'', ''/html/body'')], v_parm = [], v_util = new_train_util, v_attdim = None, important_dim = - 1\<rparr>"

definition content_SetModel :: "'n node_model option \<Rightarrow> 'n content_var_gen \<Rightarrow> 'n content_var_gen" where
  "content_SetModel m g = g\<lparr>v_model := m\<rparr>"

definition content_SetParam :: "bytes \<Rightarrow> bytes \<Rightarrow> 'n content_var_gen \<Rightarrow> 'n content_var_gen" where
  "content_SetParam name v g = g\<lparr>v_parm := cmap_insert (c_str name) (c_str v) (v_parm g)\<rparr>"

definition content_SetAttDim :: "att_dim option \<Rightarrow> 'n content_var_gen \<Rightarrow> 'n content_var_gen" where
  "content_SetAttDim attdim g = g\<lparr>v_attdim := attdim\<rparr>"

definition content_GetVar :: "bytes \<Rightarrow> 'n content_var_gen \<Rightarrow> bytes \<times> 'n content_var_gen" where
  "content_GetVar name g =
     (let (v, m) = cmap_at (c_str name) [] (v_vars g)
      in (c_str (if v = [] then ''string('' @ [CHR 0x22, CHR 0x22] @ '')'' else v), g\<lparr>v_vars := m\<rparr>))"

definition ConcatTwoParams :: "bytes \<Rightarrow> bytes \<Rightarrow> bytes" where
  "ConcatTwoParams param1 param2 = c_str param1 @ '' | '' @ c_str param2"

definition SetVar :: "bytes \<Rightarrow> bytes \<Rightarrow> 'n content_var_gen \<Rightarrow> 'n content_var_gen" where
  "SetVar key v g = g\<lparr>v_vars := cmap_set key v (v_vars g)\<rparr>"

definition AppendParamToVariable :: "bytes \<Rightarrow> bytes \<Rightarrow> 'n content_var_gen \<Rightarrow> 'n content_var_gen" where
  "AppendParamToVariable key v g =
     (let (old_var, m) = cmap_at key [] (v_vars g); g = g\<lparr>v_vars := m\<rparr>
      in SetVar key (if 0 < length old_var then ConcatTwoParams old_var v else v) g)"

definition ParseStringToDouble :: "(bytes \<Rightarrow> flt) \<Rightarrow> bytes \<Rightarrow> flt" where
  "ParseStringToDouble atof s = (if 0 < length s then atof (c_str s) else Fin (- 1))"

definition CouldBeMainNode :: "bytes \<Rightarrow> bool" where
  "CouldBeMainNode xp \<longleftrightarrow> \<not> contains ''/html/head'' xp"

text \<open>The path of a dimension, empty when it has none.\<close>

definition path_of_dim :: "'n content_var_gen \<Rightarrow> int \<Rightarrow> bytes res" where
  "path_of_dim g dm = bindE (addref (v_attdim g)) (\<lambda>dims. Inr (case GetDesc dims dm of None \<Rightarrow> [] | Some d \<Rightarrow> d))"

text \<open>The state of the search: the main nodes, the most important dimension and its weight.\<close>

type_synonym main_search = "int list \<times> int \<times> flt"

definition main_node_step ::
  "'n browser \<Rightarrow> dim_stat \<Rightarrow> flt \<Rightarrow> int \<Rightarrow> main_search \<times> 'n content_var_gen \<Rightarrow> (main_search \<times> 'n content_var_gen) res" where
  "main_node_step b st th dm s =
     (let ((main_nodes, most_important_dim, important_dim_weight), g) = s
      in bindE (path_of_dim g dm) (\<lambda>xp.
           if \<not> CouldBeMainNode xp then Inr s
           else
             bindE (GetAvrgWeightByDim st dm (Fin 0)) (\<lambda>avrg_weight.
               if flt_less avrg_weight (Fin 7) then Inr s
               else
                 bindE (GetSimilarityByDim b (v_util g) dm) (\<lambda>sim.
                   if flt_less sim th then
                     let g = AppendParamToVariable ''content'' (c_str xp) g
                     in Inr (if flt_less important_dim_weight avrg_weight
                             then ((main_nodes @ [dm], dm, avrg_weight), g)
                             else ((main_nodes @ [dm], most_important_dim, important_dim_weight), g))
                   else Inr s))))"

definition node_threshold :: "(bytes \<Rightarrow> flt) \<Rightarrow> 'n content_var_gen \<Rightarrow> flt \<times> 'n content_var_gen" where
  "node_threshold atof g =
     (let (t, m) = cmap_at ''similar_node_th'' [] (v_parm g); tmp = ParseStringToDouble atof t
      in (if flt_less (f64 (1 / 10000)) tmp then tmp else Fin (1 / 2), g\<lparr>v_parm := m\<rparr>))"

definition FindMainNode ::
  "(bytes \<Rightarrow> flt) \<Rightarrow> 'n browser \<Rightarrow> int list \<Rightarrow> dim_stat \<Rightarrow> 'n content_var_gen \<Rightarrow> (int list \<times> int \<times> 'n content_var_gen) res" where
  "FindMainNode atof b common_dims st g =
     (if common_dims = [] then Inr ([], - 1, g)
      else
        let (th, g) = node_threshold atof g
        in bindE (foldE (main_node_step b st th) common_dims (([], - 1, Fin 0), g))
             (\<lambda>((main_nodes, most_important_dim, w), g). Inr (main_nodes, most_important_dim, g)))"

definition title_score :: "flt \<Rightarrow> flt \<Rightarrow> flt" where
  "title_score wt sim =
     (let l = Fin 54; a = fdiv f64 (Fin (- 1)) l; wt = fsub f64 wt l;
          wt = fadd f64 (fmul f64 (fmul f64 a wt) wt) l
      in fmul f64 wt sim)"

definition title_node_step ::
  "'n browser \<Rightarrow> dim_stat \<Rightarrow> 'n content_var_gen \<Rightarrow> int \<Rightarrow> int \<times> flt \<Rightarrow> (int \<times> flt) res" where
  "title_node_step b st g dm s =
     (let (title_dim, title_dim_sim) = s
      in if 0 \<le> dm \<and> dm \<noteq> important_dim g then
           bindE (GetAvrgWeightByDim st dm (Fin 0)) (\<lambda>wt.
             if flt_less wt (Fin 12) then Inr s
             else
               bindE (GetSimilarityBetweenDims b (v_util g) (important_dim g) dm (Fin 0)) (\<lambda>sim.
                 let w = title_score wt sim
                 in Inr (if flt_less title_dim_sim w then (dm, w) else s)))
         else Inr s)"

definition FindTitleNode ::
  "'n browser \<Rightarrow> int list \<Rightarrow> dim_stat \<Rightarrow> 'n content_var_gen \<Rightarrow> (int \<times> 'n content_var_gen) res" where
  "FindTitleNode b main_nodes st g =
     bindE (foldE (title_node_step b st g) main_nodes (- 1, Fin 0)) (\<lambda>(title_dim, w).
       if 0 \<le> title_dim then
         bindE (path_of_dim g title_dim) (\<lambda>xp. Inr (title_dim, AppendParamToVariable ''title'' (c_str xp) g))
       else Inr (title_dim, g))"

text \<open>The thresholds \<open>prob_date\<close>, \<open>prob_author\<close> and \<open>prob_source\<close> rise with each node that is found.\<close>

fun other_nodes ::
  "matcher \<Rightarrow> 'n browser \<Rightarrow> dim_stat \<Rightarrow> int list \<Rightarrow> flt \<times> flt \<times> flt \<Rightarrow> 'n content_var_gen \<Rightarrow> 'n content_var_gen run" where
  "other_nodes rx b st [] probs g = Some (Inr g)"
| "other_nodes rx b st (dm # dims) probs g =
     (if important_dim g \<le> dm then Some (Inr g)
      else
        let (prob_date, prob_author, prob_source) = probs
        in bindR (Some (path_of_dim g dm)) (\<lambda>xp.
           bindR (IsDateDim rx b (v_util g) dm st) (\<lambda>p_date.
           bindR (Some (IsAuthorDim b (v_util g) dm st (Fin 0))) (\<lambda>p_author.
           bindR (Some (IsSourceDim b (v_util g) dm st)) (\<lambda>p_source.
             let v = c_str xp;
                 date = flt_le prob_date p_date; author = flt_less prob_author p_author; source = flt_less prob_source p_source;
                 g = (if date then AppendParamToVariable ''publishdate'' v g else g);
                 g = (if author then AppendParamToVariable ''author'' v g else g);
                 g = (if source then AppendParamToVariable ''source'' v g else g);
                 g = (if flt_le (Fin 1) (fadd f64 (fadd f64 p_date p_source) p_author)
                      then AppendParamToVariable ''attr'' v g else g)
             in other_nodes rx b st dims
                  (if date then p_date else prob_date, if author then p_author else prob_author,
                   if source then p_source else prob_source) g)))))"

definition FindOtherNode ::
  "matcher \<Rightarrow> 'n browser \<Rightarrow> int list \<Rightarrow> dim_stat \<Rightarrow> 'n content_var_gen \<Rightarrow> 'n content_var_gen run" where
  "FindOtherNode rx b common_dims st g =
     other_nodes rx b st common_dims (f64 (49 / 100), f64 (59 / 100), f64 (59 / 100)) g"

definition ConfirmAdvertiseNode :: "int list \<Rightarrow> int list \<Rightarrow> 'n content_var_gen \<Rightarrow> 'n content_var_gen res" where
  "ConfirmAdvertiseNode common_dims main_nodes g =
     foldE (\<lambda>dm g. if dm \<notin> set main_nodes
                   then bindE (path_of_dim g dm) (\<lambda>xp. Inr (AppendParamToVariable ''ad'' (c_str xp) g))
                   else Inr g) common_dims g"

text \<open>New statistics of the documents of one class.\<close>

definition StatisticAttSet :: "'n browser \<Rightarrow> 'n node_vec att_set \<Rightarrow> att_dim option \<Rightarrow> dim_stat run" where
  "StatisticAttSet b attset attdim =
     foldR (\<lambda>i st. bindR (Some (bindE (vector_at attset i) GetDoc)) (\<lambda>dc. SetDocument b (Some dc) st))
       [0..set_GetLength attset - 1] (SetAttDim attdim new_dim_stat)"

definition gen_class ::
  "(bytes \<Rightarrow> flt) \<Rightarrow> matcher \<Rightarrow> 'n browser \<Rightarrow> 'n node_model \<Rightarrow> int \<Rightarrow> 'n content_var_gen \<Rightarrow> 'n content_var_gen run" where
  "gen_class atof rx b m classid g =
     bindR (Some (bindE (GetClassSet m classid) addref)) (\<lambda>set_class.
     bindR (StatisticAttSet b set_class (v_attdim g)) (\<lambda>st.
       let g = g\<lparr>v_attdim := p_attdim st,
                 v_util := util_SetAttDim (p_attdim st) (util_SetVectorSet (Some set_class) (v_util g))\<rparr>
       in bindR (Some (FindCommonDim (v_util g))) (\<lambda>common_dims.
          bindR (Some (FindMainNode atof b common_dims st g)) (\<lambda>(main_nodes, most_important_dim, g).
            let g = g\<lparr>important_dim := most_important_dim\<rparr>
            in bindR (Some (path_of_dim g (important_dim g))) (\<lambda>_.
               bindR (Some (FindTitleNode b main_nodes st g)) (\<lambda>(title_dim, g).
               bindR (FindOtherNode rx b common_dims st g) (\<lambda>g.
                 Some (ConfirmAdvertiseNode common_dims main_nodes g))))))))"

definition content_GenVar ::
  "(bytes \<Rightarrow> flt) \<Rightarrow> matcher \<Rightarrow> 'n browser \<Rightarrow> 'n content_var_gen \<Rightarrow> 'n content_var_gen run" where
  "content_GenVar atof rx b g =
     bindR (Some (addref (v_model g))) (\<lambda>m.
       foldR (gen_class atof rx b m) [0..class_count m - 1] g)"


section \<open>The common dimensions\<close>

text \<open>A loop over a set that has no null vector is a loop over its vectors.\<close>

lemma upto_Suc_int: "[0..int (Suc n) - 1] = [0..int n - 1] @ [int n]"
  by (subst upto_rec2) simp_all

lemma vector_at_in:
  "int (length s) < 2 ^ 31 \<Longrightarrow> None \<notin> set s \<Longrightarrow> k < length s \<Longrightarrow> vector_at s (int k) = Inr (the (s ! k))"
proof -
  assume s: "int (length s) < 2 ^ 31" "None \<notin> set s" and k: "k < length s"
  then have "s ! k \<noteq> None" by (metis nth_mem)
  then obtain v where "s ! k = Some v" by blast
  then show ?thesis using GetVectorByIndex_in [OF s(1) k] by (simp add: vector_at_def addref_def)
qed

lemma vector_loop:
  assumes "int (length s) < 2 ^ 31" and "None \<notin> set s"
  shows "foldE (\<lambda>i c. bindE (vector_at s i) (\<lambda>v. g v c)) [0..set_GetLength s - 1] c = foldE g (map the s) c"
proof -
  have "foldE (\<lambda>i c. bindE (vector_at s i) (\<lambda>v. g v c)) [0..int n - 1] c = foldE g (map the (take n s)) c"
    if "n \<le> length s" for n
    using that
  proof (induction n)
    case (Suc n)
    then have "n < length s" by simp
    have Nil: "foldE f [] = Inr" for f :: "'x \<Rightarrow> 'c \<Rightarrow> _" by (rule ext) simp
    from \<open>n < length s\<close> have "foldE (\<lambda>i c. bindE (vector_at s i) (\<lambda>v. g v c)) [int n] = foldE g [the (s ! n)]"
      by (intro ext) (simp add: vector_at_in [OF assms] Nil)
    then show ?case
      using Suc by (simp add: upto_Suc_int take_Suc_conv_app_nth del: of_nat_Suc foldE.simps(2))
  qed simp
  from this [of "length s"] show ?thesis using assms(1) by (simp add: set_GetLength_def int_of_size_id)
qed

lemma ElimitDiffDim_Nil [simp]: "ElimitDiffDim [] ds = []"
  and ElimitDiffDim_Cons [simp]: "ElimitDiffDim (d # ds) es = (if d \<in> set es then d else - 1) # ElimitDiffDim ds es"
  by (simp_all add: ElimitDiffDim_def)

text \<open>A dimension that a later vector lacks has been overwritten by \<open>-1\<close>, which the collection drops.\<close>

lemma kept_ElimitDiffDim:
  "filter (\<lambda>d. 0 \<le> d \<and> P d) (ElimitDiffDim ds es) = filter (\<lambda>d. 0 \<le> d \<and> d \<in> set es \<and> P d) ds"
  by (induction ds) auto

lemma kept_fold:
  "filter (\<lambda>d. 0 \<le> d) (fold (\<lambda>v ds. ElimitDiffDim ds (GetDims v)) vs ds) =
     filter (\<lambda>d. 0 \<le> d \<and> (\<forall>v\<in>set vs. d \<in> set (GetDims v))) ds"
proof (induction vs arbitrary: ds)
  case (Cons v vs)
  then show ?case using kept_ElimitDiffDim [of "\<lambda>d. \<forall>v\<in>set vs. d \<in> set (GetDims v)" ds "GetDims v"] by simp
qed simp

lemma common_fold:
  "foldE (\<lambda>v common. Inr (Some (case common of None \<Rightarrow> GetDims v | Some ds \<Rightarrow> ElimitDiffDim ds (GetDims v)))) vs (Some ds) =
     (Inr (Some (fold (\<lambda>v ds. ElimitDiffDim ds (GetDims v)) vs ds)) :: _ res)"
  by (induction vs arbitrary: ds) simp_all

definition dims_in_all :: "'n node_vec list \<Rightarrow> int list" where
  "dims_in_all vs = (case vs of [] \<Rightarrow> [] | v # _ \<Rightarrow> filter (\<lambda>d. 0 \<le> d \<and> (\<forall>w\<in>set vs. d \<in> set (GetDims w))) (GetDims v))"

lemma FindCommonDim_common:
  assumes "u_attset u = Some s" and "int (length s) < 2 ^ 31" and "None \<notin> set s"
  shows "FindCommonDim u = Inr (dims_in_all (map the s))"
proof -
  let ?g = "\<lambda>v common. Inr (Some (case common of None \<Rightarrow> GetDims v | Some ds \<Rightarrow> ElimitDiffDim ds (GetDims v)))"
  show ?thesis
  proof (cases "map the s")
    case Nil
  then show ?thesis
    using vector_loop [OF assms(2,3), of ?g None] by (simp add: FindCommonDim_def assms(1) addref_def dims_in_all_def)
next
  case (Cons v vs)
  have "filter (\<lambda>d. 0 \<le> d \<and> (\<forall>w\<in>set vs. d \<in> set (GetDims w))) (GetDims v) = dims_in_all (v # vs)"
    unfolding dims_in_all_def list.case by (rule filter_cong) auto
  then show ?thesis
    using vector_loop [OF assms(2,3), of ?g None] by (simp add: FindCommonDim_def assms(1) addref_def Cons common_fold kept_fold)
  qed
qed

section \<open>Similarities\<close>

lemma length_cut_900: "length (cut_900 s) \<le> length s"
  by (simp add: cut_900_def length_c_str)

lemma SameScore_bounds:
  assumes "int (max (length s1) (length s2)) < 2 ^ 31"
  shows "\<exists>n. SameScore s1 s2 = Inr (int n) \<and> n \<le> max (length s1) (length s2)"
proof (cases "s1 = [] \<or> s2 = []")
  case True
  then show ?thesis by (auto simp: SameScore_def intro: exI [of _ 0])
next
  case False
  define m where "m = max (length (cut_900 s1)) (length (cut_900 s2))"
  obtain d where d: "LD_string (cut_900 s1) (cut_900 s2) = Inr (int d)" "d \<le> m"
    using LD_string_bounds unfolding m_def by blast
  have m: "m \<le> max (length s1) (length s2)"
    unfolding m_def using length_cut_900 [of s1] length_cut_900 [of s2] by (simp add: max_def)
  have "SameScore s1 s2 = Inr ((int m - int d) mod 2 ^ 32)"
    using False d by (simp add: SameScore_def m_def)
  also have "(int m - int d) mod 2 ^ 32 = int (m - d)"
    using d(2) m assms by (subst mod_pos_pos_trivial) auto
  finally show ?thesis using m by (intro exI [of _ "m - d"]) auto
qed

lemma fdiv_nonneg:
  assumes "0 \<le> x" and "0 < y" and "x \<le> of_int n * y" and "n < 2 ^ 53"
  shows "\<exists>z. fdiv f64 (Fin x) (Fin y) = Fin z \<and> 0 \<le> z"
proof -
  have "0 \<le> x / y" "x / y \<le> of_int n" using assms by (simp_all add: pos_divide_le_eq)
  from f64_le_int [OF this assms(4)] show ?thesis using assms(2) by auto
qed

lemma similarity_unit:
  assumes "int (max (length s1) (length s2)) < 2 ^ 31"
  shows "\<exists>x. GetSimilarityBetweenStrings s1 s2 = Inr x \<and> in_unit x"
proof (cases "s1 = s2")
  case False
  obtain n where n: "SameScore s1 s2 = Inr (int n)" "n \<le> max (length s1) (length s2)"
    using SameScore_bounds [OF assms] by blast
  define x y where "x = 2 * int n mod 2 ^ 32" and "y = int (length s1 + length s2) mod 2 ^ 32"
  have "0 < length s1 + length s2" "int (length s1 + length s2) < 2 ^ 32" using False assms by auto
  then have y: "0 < y" "y < 2 ^ 32" unfolding y_def by (subst mod_pos_pos_trivial; simp del: of_nat_add)+
  have x: "0 \<le> x" "x < 2 ^ 32" by (simp_all add: x_def)
  have "x \<le> 2 ^ 32 * y" using x y mult_mono [of 1 y x "2 ^ 32"] by (smt (verit) mult_le_cancel_left1)
  then have "\<exists>z. fdiv f64 (Fin (of_int x)) (Fin (of_int y)) = Fin z \<and> 0 \<le> z"
    using x y by (intro fdiv_nonneg [of _ _ "2 ^ 32"]) (simp_all flip: of_int_mult add: of_int_le_iff)
  then obtain z where "fdiv f64 (Fin (of_int x)) (Fin (of_int y)) = Fin z" "0 \<le> z" by blast
  then have "GetSimilarityBetweenStrings s1 s2 = Inr (if flt_less (Fin 1) (Fin z) then Fin 1 else Fin z)"
    using False n(1) unfolding GetSimilarityBetweenStrings_def Let_def x_def y_def by simp
  then show ?thesis using \<open>0 \<le> z\<close> by (simp add: in_unit_Fin flt_less.simps not_less)
qed (simp add: GetSimilarityBetweenStrings_def)


section \<open>The variables the generator appends to\<close>

definition var_of :: "bytes \<Rightarrow> 'n content_var_gen \<Rightarrow> bytes" where
  "var_of k g = fst (cmap_at k [] (v_vars g))"

text \<open>Paths as \<open>ConcatTwoParams\<close> puts them together: an XPath union.\<close>

fun path_union :: "bytes list \<Rightarrow> bytes" where
  "path_union [] = []"
| "path_union (p # ps) = p @ (if ps \<noteq> [] then '' | '' @ path_union ps else [])"

text \<open>A variable whose value a list of paths has been appended to.\<close>

definition union_with :: "bytes \<Rightarrow> bytes list \<Rightarrow> bytes" where
  "union_with v ps = path_union (if v = [] then ps else v # ps)"

lemma path_union_snoc: "path_union (ps @ [p]) = (if ps = [] then p else path_union ps @ '' | '' @ p)"
  by (induction ps) auto

lemma path_union_eq_Nil: "[] \<notin> set ps \<Longrightarrow> path_union ps = [] \<longleftrightarrow> ps = []"
  by (cases ps) auto

lemma NUL_path_union: "NUL \<in> set (path_union ps) \<Longrightarrow> \<exists>p\<in>set ps. NUL \<in> set p"
proof (induction ps)
  case (Cons p ps)
  then show ?case by (auto split: if_splits)
qed simp

lemma union_with_Nil [simp]: "union_with v [] = v"
  by (simp add: union_with_def)

lemma union_with_snoc:
  assumes "[] \<notin> set (ps @ [p])" and "\<forall>q\<in>set (v # ps @ [p]). NUL \<notin> set q"
  shows "union_with v (ps @ [p]) = (if 0 < length (union_with v ps) then ConcatTwoParams (union_with v ps) p else p)"
proof -
  let ?qs = "if v = [] then ps else v # ps"
  have qs: "[] \<notin> set ?qs" "(if v = [] then ps @ [p] else v # ps @ [p]) = ?qs @ [p]" using assms(1) by auto
  have "NUL \<notin> set (path_union ?qs)" using NUL_path_union [of ?qs] assms(2) by (auto split: if_splits)
  then show ?thesis
    using assms(2) unfolding union_with_def qs(2) path_union_snoc length_greater_0_conv path_union_eq_Nil [OF qs(1)]
    by (simp add: ConcatTwoParams_def c_str_id)
qed

definition vars_ok :: "'n content_var_gen \<Rightarrow> bool" where
  "vars_ok g \<longleftrightarrow> cmap_ok (v_vars g)"

lemma vars_ok_append [simp]: "vars_ok g \<Longrightarrow> vars_ok (AppendParamToVariable k v g)"
  by (simp add: vars_ok_def AppendParamToVariable_def SetVar_def cmap_at_def split: option.splits)

lemma var_of_append:
  "vars_ok g \<Longrightarrow> var_of k' (AppendParamToVariable k v g) =
     (if k' = k then if 0 < length (var_of k g) then ConcatTwoParams (var_of k g) v else v else var_of k' g)"
  by (auto simp: vars_ok_def var_of_def AppendParamToVariable_def SetVar_def cmap_at_def split: option.splits)

text \<open>Nothing else of the generator is touched.\<close>

lemma append_rest [simp]:
  "v_model (AppendParamToVariable k v g) = v_model g" "v_parm (AppendParamToVariable k v g) = v_parm g"
  "v_util (AppendParamToVariable k v g) = v_util g" "v_attdim (AppendParamToVariable k v g) = v_attdim g"
  "important_dim (AppendParamToVariable k v g) = important_dim g"
  by (simp_all add: AppendParamToVariable_def SetVar_def cmap_at_def split: option.splits)

definition dim_path :: "att_dim \<Rightarrow> int \<Rightarrow> bytes" where
  "dim_path dims d = (case GetDesc dims d of None \<Rightarrow> [] | Some p \<Rightarrow> p)"

lemma path_of_dim_eq [simp]: "v_attdim g = Some dims \<Longrightarrow> path_of_dim g d = Inr (dim_path dims d)"
  by (simp add: path_of_dim_def addref_def dim_path_def)

text \<open>The paths \<open>ps\<close> have been appended to the variable \<open>k\<close> of \<open>g\<close>, and that is all that \<open>g'\<close> differs in.\<close>

definition appended :: "bytes \<Rightarrow> bytes list \<Rightarrow> 'n content_var_gen \<Rightarrow> 'n content_var_gen \<Rightarrow> bool" where
  "appended k ps g g' \<longleftrightarrow>
     vars_ok g' \<and> var_of k g' = union_with (var_of k g) ps \<and> (\<forall>k'. k' \<noteq> k \<longrightarrow> var_of k' g' = var_of k' g) \<and>
     v_model g' = v_model g \<and> v_parm g' = v_parm g \<and> v_util g' = v_util g \<and> v_attdim g' = v_attdim g \<and>
     important_dim g' = important_dim g"

definition plain_path :: "bytes \<Rightarrow> bool" where
  "plain_path p \<longleftrightarrow> p \<noteq> [] \<and> NUL \<notin> set p"

lemma appended_refl: "vars_ok g \<Longrightarrow> appended k [] g g"
  by (simp add: appended_def)

lemma appended_step:
  assumes "appended k ps g g'" and "list_all plain_path (ps @ [p])" and "NUL \<notin> set (var_of k g)"
  shows "appended k (ps @ [p]) g (AppendParamToVariable k (c_str p) g')"
proof -
  have "c_str p = p" "[] \<notin> set (ps @ [p])" "\<forall>q\<in>set (var_of k g # ps @ [p]). NUL \<notin> set q"
    using assms(2,3) by (auto simp: plain_path_def list_all_iff c_str_id)
  then show ?thesis
    using assms(1) by (auto simp: appended_def var_of_append union_with_snoc)
qed

section \<open>The main nodes and the rest\<close>

text \<open>A main node is not in the head, weighs enough and differs from document to document.\<close>

definition main_dim :: "att_dim \<Rightarrow> flt \<Rightarrow> (int \<Rightarrow> rat) \<Rightarrow> (int \<Rightarrow> flt) \<Rightarrow> int \<Rightarrow> bool" where
  "main_dim dims th wt sim d \<longleftrightarrow> CouldBeMainNode (dim_path dims d) \<and> 7 \<le> wt d \<and> flt_less (sim d) th"

text \<open>What the search has found after the dimensions \<open>ds\<close>.\<close>

definition main_found ::
  "att_dim \<Rightarrow> flt \<Rightarrow> (int \<Rightarrow> rat) \<Rightarrow> (int \<Rightarrow> flt) \<Rightarrow> 'n content_var_gen \<Rightarrow> int list \<Rightarrow> main_search \<times> 'n content_var_gen \<Rightarrow> bool" where
  "main_found dims th wt sim g ds s \<longleftrightarrow>
     (\<exists>top best g'. s = ((filter (main_dim dims th wt sim) ds, top, Fin best), g') \<and>
        appended ''content'' (map (dim_path dims) (filter (main_dim dims th wt sim) ds)) g g' \<and>
        (if filter (main_dim dims th wt sim) ds = [] then top = - 1 \<and> best = 0
         else top \<in> set (filter (main_dim dims th wt sim) ds) \<and> best = wt top \<and>
              (\<forall>d\<in>set (filter (main_dim dims th wt sim) ds). wt d \<le> wt top)))"

lemma main_node_step_found:
  assumes "main_found dims th wt sim g ds s" and "v_attdim g = Some dims" and "NUL \<notin> set (var_of ''content'' g)"
    and "\<forall>e\<in>set (ds @ [d]). plain_path (dim_path dims e)"
    and "GetAvrgWeightByDim st d (Fin 0) = Inr (Fin (wt d))" and "GetSimilarityByDim b (v_util g) d = Inr (sim d)"
  shows "\<exists>s'. main_node_step b st th d s = Inr s' \<and> main_found dims th wt sim g (ds @ [d]) s'"
proof -
  define ms where "ms = filter (main_dim dims th wt sim) ds"
  obtain top best g' where s: "s = ((ms, top, Fin best), g')"
    and g': "appended ''content'' (map (dim_path dims) ms) g g'"
    and top: "if ms = [] then top = - 1 \<and> best = 0 else top \<in> set ms \<and> best = wt top \<and> (\<forall>d\<in>set ms. wt d \<le> wt top)"
    using assms(1) unfolding main_found_def ms_def by blast
  have rest: "v_attdim g' = Some dims" "v_util g' = v_util g" using g' assms(2) by (simp_all add: appended_def)
  show ?thesis
  proof (cases "main_dim dims th wt sim d")
    case False
    then have "main_node_step b st th d s = Inr s"
      using assms(5,6) rest by (auto simp: main_node_step_def s main_dim_def)
    moreover have eq: "filter (main_dim dims th wt sim) (ds @ [d]) = filter (main_dim dims th wt sim) ds" using False by simp
    have "main_found dims th wt sim g (ds @ [d]) s" using assms(1) unfolding main_found_def eq .
    ultimately show ?thesis by blast
  next
    case True
    let ?g = "AppendParamToVariable ''content'' (c_str (dim_path dims d)) g'"
    have "list_all plain_path (map (dim_path dims) ms @ [dim_path dims d])"
      using assms(4) by (auto simp: ms_def list_all_iff)
    then have app: "appended ''content'' (map (dim_path dims) (ms @ [d])) g ?g"
      using appended_step [OF g' _ assms(3)] by simp
    have step: "main_node_step b st th d s =
        Inr (if best < wt d then ((ms @ [d], d, Fin (wt d)), ?g) else ((ms @ [d], top, Fin best), ?g))"
      using True assms(5,6) rest by (auto simp: main_node_step_def s main_dim_def Let_def)
    have "filter (main_dim dims th wt sim) (ds @ [d]) = ms @ [d]" using True by (simp add: ms_def)
    moreover have "0 < wt d" using True by (simp add: main_dim_def)
    ultimately have "main_found dims th wt sim g (ds @ [d])
        (if best < wt d then ((ms @ [d], d, Fin (wt d)), ?g) else ((ms @ [d], top, Fin best), ?g))"
      using top app unfolding main_found_def by (auto split: if_splits)
    then show ?thesis using step by blast
  qed
qed


lemma main_nodes_found:
  assumes "main_found dims th wt sim g ds s" and "v_attdim g = Some dims" and "NUL \<notin> set (var_of ''content'' g)"
    and "\<forall>e\<in>set (ds @ es). plain_path (dim_path dims e)"
    and "\<forall>e\<in>set es. GetAvrgWeightByDim st e (Fin 0) = Inr (Fin (wt e)) \<and> GetSimilarityByDim b (v_util g) e = Inr (sim e)"
  shows "\<exists>s'. foldE (main_node_step b st th) es s = Inr s' \<and> main_found dims th wt sim g (ds @ es) s'"
  using assms
proof (induction es arbitrary: ds s)
  case (Cons e es)
  have "\<exists>s'. main_node_step b st th e s = Inr s' \<and> main_found dims th wt sim g (ds @ [e]) s'"
    using Cons.prems by (intro main_node_step_found) auto
  then obtain s' where "main_node_step b st th e s = Inr s'" and "main_found dims th wt sim g (ds @ [e]) s'" by blast
  then show ?case using Cons.IH [of "ds @ [e]" s'] Cons.prems by simp
qed auto

lemma node_threshold_rest:
  assumes "node_threshold atof g = (th, g')"
  shows "v_attdim g' = v_attdim g" "v_util g' = v_util g" "v_vars g' = v_vars g" "var_of k g' = var_of k g"
  using assms by (auto simp: node_threshold_def var_of_def Let_def split: prod.splits)

lemma main_nodes_all:
  assumes "vars_ok g" and "NUL \<notin> set (var_of ''content'' g)" and "v_attdim g = Some dims"
    and "\<forall>d\<in>set cds. plain_path (dim_path dims d) \<and> GetAvrgWeightByDim st d (Fin 0) = Inr (Fin (wt d)) \<and>
           GetSimilarityByDim b (v_util g) d = Inr (sim d)"
    and "ms = filter (main_dim dims (fst (node_threshold atof g)) wt sim) cds"
  shows "\<exists>top g'. FindMainNode atof b cds st g = Inr (ms, top, g') \<and>
    var_of ''content'' g' = union_with (var_of ''content'' g) (map (dim_path dims) ms) \<and>
    (\<forall>k. k \<noteq> ''content'' \<longrightarrow> var_of k g' = var_of k g) \<and>
    (if ms = [] then top = - 1 else top \<in> set ms \<and> (\<forall>d\<in>set ms. wt d \<le> wt top))"
proof (cases "cds = []")
  case True
  then show ?thesis using assms(5) by (simp add: FindMainNode_def)
next
  case False
  obtain th g1 where g1: "node_threshold atof g = (th, g1)" by (cases "node_threshold atof g")
  note rest = node_threshold_rest [OF g1]
  have ok: "vars_ok g1" using assms(1) rest(3) by (simp add: vars_ok_def)
  have "main_found dims th wt sim g1 [] (([], - 1, Fin 0), g1)"
    by (simp add: main_found_def appended_refl [OF ok])
  moreover have "NUL \<notin> set (var_of ''content'' g1)" "v_attdim g1 = Some dims" using assms(2,3) rest by simp_all
  ultimately obtain s where s: "foldE (main_node_step b st th) cds (([], - 1, Fin 0), g1) = Inr s"
    and found: "main_found dims th wt sim g1 cds s"
    using main_nodes_found [of dims th wt sim g1 "[]" "(([], - 1, Fin 0), g1)" cds st b] assms(4) rest(2) by auto
  have ms: "filter (main_dim dims th wt sim) cds = ms" using assms(5) g1 by simp
  obtain top best g' where "s = ((ms, top, Fin best), g')" "appended ''content'' (map (dim_path dims) ms) g1 g'"
    "if ms = [] then top = - 1 \<and> best = 0 else top \<in> set ms \<and> best = wt top \<and> (\<forall>d\<in>set ms. wt d \<le> wt top)"
    using found unfolding main_found_def ms by blast
  then show ?thesis
    using False s rest(4) by (auto simp: FindMainNode_def g1 appended_def split: if_splits)
qed

lemma advertise_all:
  assumes "v_attdim g = Some dims" and "NUL \<notin> set (var_of ''ad'' g)" and "appended ''ad'' (map (dim_path dims) ps) g g'"
    and "\<forall>d\<in>set (ps @ cds). plain_path (dim_path dims d)"
  shows "\<exists>g''. ConfirmAdvertiseNode cds ms g' = Inr g'' \<and>
    appended ''ad'' (map (dim_path dims) (ps @ filter (\<lambda>d. d \<notin> set ms) cds)) g g''"
  using assms
proof (induction cds arbitrary: ps g')
  case (Cons d cds)
  have dims: "v_attdim g' = Some dims" using Cons.prems(1,3) by (simp add: appended_def)
  show ?case
  proof (cases "d \<in> set ms")
    case True
    then show ?thesis using Cons.IH [of ps g'] Cons.prems by (simp add: ConfirmAdvertiseNode_def)
  next
    case False
    let ?g = "AppendParamToVariable ''ad'' (c_str (dim_path dims d)) g'"
    have "list_all plain_path (map (dim_path dims) ps @ [dim_path dims d])" using Cons.prems(4) by (auto simp: list_all_iff)
    then have "appended ''ad'' (map (dim_path dims) (ps @ [d])) g ?g"
      using appended_step [OF Cons.prems(3) _ Cons.prems(2)] by simp
    then show ?thesis
      using Cons.IH [of "ps @ [d]" ?g] Cons.prems(1,2,4) False by (simp add: ConfirmAdvertiseNode_def path_of_dim_eq [OF dims])
  qed
qed (simp add: ConfirmAdvertiseNode_def)


section \<open>Properties\<close>

text \<open>C27.  C101. \<open>FindCommonDim\<close> returns the dimensions that every vector of the set has, in the order of the first
  vector: a dimension that a later vector lacks is overwritten by \<open>-1\<close> and not collected, and neither is a
  negative one.  The set has no null vector and fewer than \<open>2^31\<close>.
\<close>

theorem FindCommonDim_intersection:
  assumes "u_attset u = Some s" and "int (length s) < 2 ^ 31" and "None \<notin> set s"
  shows "FindCommonDim u =
    Inr (case map the s of [] \<Rightarrow> [] | v # vs \<Rightarrow> filter (\<lambda>d. 0 \<le> d \<and> (\<forall>w\<in>set (v # vs). d \<in> set (GetDims w))) (GetDims v))"
  using FindCommonDim_common [OF assms] by (simp add: dims_in_all_def split: list.split)

definition sample_vectors :: "nat node_vec att_set" where
  "sample_vectors =
     [Some (new_att_vec\<lparr>vect := [(0, Fin 1), (2, Fin 3), (5, Fin 1)]\<rparr>), Some (new_att_vec\<lparr>vect := [(2, Fin 1), (5, Fin 2)]\<rparr>),
      Some (new_att_vec\<lparr>vect := [(0, Fin 1), (2, Fin 2), (7, Fin 2)]\<rparr>)]"

theorem FindCommonDim_intersection_witness:
  "FindCommonDim (util_SetVectorSet (Some sample_vectors) new_train_util) = Inr [2]"
  using FindCommonDim_intersection [of "util_SetVectorSet (Some sample_vectors) new_train_util" sample_vectors]
  by (simp add: util_SetVectorSet_def sample_vectors_def GetDims_def new_att_vec_def)

text \<open>C102. The similarity of two texts shorter than \<open>2^31\<close> is returned, is a number between 0 and 1, and is the
  same for equal texts: the edit distance never exceeds the longer text, so that the unsigned count of what
  the texts share does not wrap.
\<close>

theorem GetSimilarityBetweenStrings_unit:
  assumes "int (length s1) < 2 ^ 31" and "int (length s2) < 2 ^ 31"
  shows "(\<exists>x. GetSimilarityBetweenStrings s1 s2 = Inr x \<and> in_unit x) \<and> GetSimilarityBetweenStrings s1 s1 = Inr (Fin 1)"
  using similarity_unit [of s1 s2] assms by (simp add: GetSimilarityBetweenStrings_def)

theorem GetSimilarityBetweenStrings_unit_witness:
  "\<exists>x. GetSimilarityBetweenStrings ''news'' ''new'' = Inr x \<and> in_unit x"
  using GetSimilarityBetweenStrings_unit [of "''news''" "''new''"] by simp

text \<open>C26.  C103. \<open>FindMainNode\<close> returns, with the average weights \<open>wt\<close> and the similarities \<open>sim\<close> of the common
  dimensions, those that are outside the head, weigh at least 7 and stay below the threshold; a heaviest of
  them as the important one, or \<open>-1\<close> when there is none; and their paths, joined, in the variable
  \<open>content\<close>, while no other variable changes.
\<close>

theorem FindMainNode_selects:
  assumes "vars_ok g" and "NUL \<notin> set (var_of ''content'' g)" and "v_attdim g = Some dims"
    and "\<forall>d\<in>set cds. plain_path (dim_path dims d) \<and> GetAvrgWeightByDim st d (Fin 0) = Inr (Fin (wt d)) \<and>
           GetSimilarityByDim b (v_util g) d = Inr (sim d)"
    and "ms = filter (main_dim dims (fst (node_threshold atof g)) wt sim) cds"
  shows "\<exists>top g'. FindMainNode atof b cds st g = Inr (ms, top, g') \<and>
    var_of ''content'' g' = union_with (var_of ''content'' g) (map (dim_path dims) ms) \<and>
    (\<forall>k. k \<noteq> ''content'' \<longrightarrow> var_of k g' = var_of k g) \<and>
    (if ms = [] then top = - 1 else top \<in> set ms \<and> (\<forall>d\<in>set ms. wt d \<le> wt top))"
  using assms by (rule main_nodes_all)

definition sample_dims :: att_dim where
  "sample_dims = [(''/html/body/div'', 0), (''/html/body/p'', 2), (''/html/head/title'', 1)]"

definition sample_stat :: dim_stat where
  "sample_stat = new_dim_stat\<lparr>raw_dim := [(0, [(9, 1)]), (1, [(20, 1)]), (2, [(12, 1)])]\<rparr>"

text \<open>One document, so that every similarity is 1, and a threshold of 2.\<close>

definition sample_generator :: "nat list content_var_gen" where
  "sample_generator =
     content_SetAttDim (Some sample_dims) (content_SetParam ''similar_node_th'' ''2'' new_content_var_gen)
       \<lparr>v_util := util_SetVectorSet (Some [Some new_att_vec]) new_train_util\<rparr>"

lemmas sample_simps = sample_generator_def sample_dims_def sample_stat_def content_SetAttDim_def content_SetParam_def
  new_content_var_gen_def util_SetVectorSet_def new_train_util_def new_dim_stat_def c_str_def

lemma sample_generator_facts:
  "vars_ok sample_generator" "var_of ''content'' sample_generator = []" "v_attdim sample_generator = Some sample_dims"
  "v_vars sample_generator = [(''box'', ''/html/body'')]"
  by (simp_all add: sample_simps vars_ok_def var_of_def cmap_ok_def cmap_at_def cmap_find_def)

lemma sample_paths:
  "dim_path sample_dims 0 = ''/html/body/div''" "dim_path sample_dims 1 = ''/html/head/title''"
  "dim_path sample_dims 2 = ''/html/body/p''"
  by (simp_all add: dim_path_def GetDesc_def sample_dims_def)

lemma sample_similarity: "GetSimilarityByDim b (v_util sample_generator) d = Inr (Fin 1)"
  by (simp add: GetSimilarityByDim_def sample_simps addref_def set_GetLength_def int_of_size_def wrap_int_def)

lemma sample_weight:
  "GetAvrgWeightByDim sample_stat 0 (Fin 0) = Inr (Fin 9)" "GetAvrgWeightByDim sample_stat 1 (Fin 0) = Inr (Fin 20)"
  "GetAvrgWeightByDim sample_stat 2 (Fin 0) = Inr (Fin 12)"
  by (simp_all add: GetAvrgWeightByDim_def avrg_by_dim_def sample_stat_def new_dim_stat_def cmap_find_def sum_int_def int_ok_def
      check_int_def ratio_def int_of_size_def wrap_int_def)

theorem FindMainNode_selects_witness:
  "\<exists>top g. FindMainNode (\<lambda>_. Fin 2) (browser_of link_page) [0, 1, 2] sample_stat sample_generator = Inr ([0, 2], top, g) \<and>
     var_of ''content'' g = ''/html/body/div | /html/body/p'' \<and> top \<in> {0, 2} \<and>
     (\<forall>k. k \<noteq> ''content'' \<longrightarrow> var_of k g = var_of k sample_generator)"
proof -
  let ?wt = "\<lambda>d :: int. if d = 0 then 9 else if d = 1 then 20 else 12 :: rat"
  have "flt_less (f64 (1 / 10000)) (Fin 2)" using f64_le_int [of "1 / 10000" 1] by auto
  then have th: "fst (node_threshold (\<lambda>_. Fin 2) sample_generator) = Fin 2"
    by (simp add: node_threshold_def ParseStringToDouble_def sample_simps cmap_at_def cmap_find_def Let_def)
  have ms: "[0, 2] = filter (main_dim sample_dims (fst (node_threshold (\<lambda>_. Fin 2) sample_generator)) ?wt (\<lambda>_. Fin 1)) [0, 1, 2]"
    by (simp add: th main_dim_def sample_paths CouldBeMainNode_def contains_def)
  have "\<forall>d\<in>set [0, 1, 2]. plain_path (dim_path sample_dims d) \<and>
      GetAvrgWeightByDim sample_stat d (Fin 0) = Inr (Fin (?wt d)) \<and>
      GetSimilarityByDim (browser_of link_page) (v_util sample_generator) d = Inr (Fin 1)"
    by (simp add: sample_paths sample_weight sample_similarity plain_path_def)
  from FindMainNode_selects [OF sample_generator_facts(1) _ sample_generator_facts(3) this ms]
  show ?thesis by (auto simp: sample_generator_facts(2) sample_paths union_with_def)
qed

text \<open>C104. \<open>ConfirmAdvertiseNode\<close> joins the paths of the common dimensions that are no main nodes, in their order, to
  the variable \<open>ad\<close> and changes nothing else of the generator.
\<close>

theorem ConfirmAdvertiseNode_rest:
  assumes "vars_ok g" and "v_attdim g = Some dims" and "NUL \<notin> set (var_of ''ad'' g)"
    and "\<forall>d\<in>set cds. plain_path (dim_path dims d)"
  shows "\<exists>g'. ConfirmAdvertiseNode cds ms g = Inr g' \<and> appended ''ad'' (map (dim_path dims) (filter (\<lambda>d. d \<notin> set ms) cds)) g g'"
  using advertise_all [of g dims "[]" g cds ms] assms by (simp add: appended_refl)

theorem ConfirmAdvertiseNode_rest_witness:
  "\<exists>g. ConfirmAdvertiseNode [0, 1, 2] [0] sample_generator = Inr g \<and>
     var_of ''ad'' g = ''/html/head/title | /html/body/p'' \<and> var_of ''content'' g = []"
proof -
  have ad: "var_of ''ad'' sample_generator = []"
    by (simp add: var_of_def sample_generator_facts(4) cmap_at_def cmap_find_def)
  have "\<forall>d\<in>set [0, 1, 2]. plain_path (dim_path sample_dims d)" by (simp add: sample_paths plain_path_def)
  from ConfirmAdvertiseNode_rest [OF sample_generator_facts(1,3) _ this, of "[0]"]
  show ?thesis by (auto simp: ad appended_def sample_generator_facts(2) sample_paths union_with_def)
qed

end
