(* ===== verification/DomBlocks.thy ===== *)
theory DomBlocks
  imports BlockUtils XpathUtil
begin

text \<open>
  The second half of \<open>DisCrawler/DOMAttUtil/BlockUtils.cpp\<close>: how a document of the browser becomes a
  list of blocks (\<open>parse_doc\<close>), the paths that identify its nodes, and how the content below the main
  nodes is collected (\<open>get_content\<close>, \<open>get_content2\<close>, \<open>get_node_text\<close>).  The static sets of ignored
  marks, ignored attributes and trusted marks are arguments; whether a pattern of a rule file matches
  is the argument \<open>matches\<close>, standing for \<open>regcomp\<close> and \<open>regexec\<close>.
\<close>

section \<open>Paths\<close>

text \<open>The attributes of a node in a \<open>std::map\<close>: of two with one name the first is kept.\<close>

definition ParseAttrs :: "(bytes \<times> bytes) list \<Rightarrow> (bytes, bytes) cmap \<Rightarrow> (bytes, bytes) cmap" where
  "ParseAttrs as m = fold (\<lambda>(k, v). cmap_insert k v) as m"

definition path_attr :: "bytes set \<Rightarrow> bytes \<Rightarrow> bool" where
  "path_attr ignore_attr k \<longleftrightarrow>
     k \<in> {''class'', ''id'', ''name'', ''align'', ''bgcolor'', ''color''} \<and> k \<notin> ignore_attr"

text \<open>The loop over the map: a colon in front of the first attribute that counts, values with \<open>(\<close> left out.\<close>

fun attr_loop :: "bytes set \<Rightarrow> (bytes, bytes) cmap \<Rightarrow> bool \<Rightarrow> bytes \<Rightarrow> bytes" where
  "attr_loop ignore_attr [] bb path = path"
| "attr_loop ignore_attr ((k, v) # m) bb path =
     (if path_attr ignore_attr k then
        attr_loop ignore_attr m True
          ((if \<not> bb then path @ '':'' else path) @
           (if CHR ''('' \<notin> set v then '' '' @ k @ ''='' @ v else []))
      else attr_loop ignore_attr m bb path)"

text \<open>
  \<open>get_node_path(node, path, stop_pos)\<close>.  The recursive call leaves \<open>stop_pos\<close> out, so that only the
  first node is compared with it.  \<open>s.at(0)\<close> throws on an empty name, and a node without attributes
  (a document type) gives a null map.
\<close>

partial_function (option) node_path_from ::
  "'n dom \<Rightarrow> bytes set \<Rightarrow> 'n option \<Rightarrow> bytes \<Rightarrow> bytes \<Rightarrow> bytes run" where
  "node_path_from d ignore_attr node path stop_pos =
     (case node of
        None \<Rightarrow> Some (Inr path)
      | Some n \<Rightarrow>
          let s = nodeName d n
          in if s = stop_pos then Some (Inr path)
             else if s = [] then Some (Inl OutOfRange)
             else if hd s = CHR ''#'' then Some (Inr path)
             else
               case attributes d n of
                 None \<Rightarrow> Some (Inl NullDeref)
               | Some as \<Rightarrow>
                   node_path_from d ignore_attr (parentNode d n)
                     ((if s \<noteq> ''A'' then attr_loop ignore_attr (ParseAttrs as []) False (path @ s) else path @ s) @ ''/'')
                     ''HTML'')"

definition get_node_path :: "'n dom \<Rightarrow> bytes set \<Rightarrow> 'n option \<Rightarrow> bytes \<Rightarrow> bytes run" where
  "get_node_path d ignore_attr node path = node_path_from d ignore_attr node path ''HTML''"

text \<open>With a document: only elements have a path, by \<open>nsXpathUtil\<close> when \<open>xpath\<close> is set.\<close>

definition get_node_path_doc :: "'n dom \<Rightarrow> bytes set \<Rightarrow> 'n option \<Rightarrow> bool \<Rightarrow> bool \<Rightarrow> bytes run" where
  "get_node_path_doc d ignore_attr node doc use_xpath =
     (case node of
        None \<Rightarrow> Some (Inr [])
      | Some n \<Rightarrow>
          if \<not> doc \<or> nodeType d n \<noteq> ELEMENT_NODE then Some (Inr [])
          else if \<not> use_xpath then get_node_path d ignore_attr node []
          else GetXpath d [] node 1)"

section \<open>From the document to blocks\<close>

definition GetNodeText :: "'n dom \<Rightarrow> 'n \<Rightarrow> bytes" where
  "GetNodeText d n = concat (map (nodeValue d) (filter (\<lambda>c. nodeType d c = TEXT_NODE) (kids d n)))"

definition shown_mark :: "bytes set \<Rightarrow> bytes \<Rightarrow> bool" where
  "shown_mark ignore_node name \<longleftrightarrow>
     name \<notin> ignore_node \<and> name \<notin> {''OPTION'', ''SCRIPT'', ''STYLE'', ''TITLE''}"

text \<open>The block of an element, before its box is known.\<close>

definition element_block :: "'n dom \<Rightarrow> bytes set \<Rightarrow> bool \<Rightarrow> bool \<Rightarrow> 'n \<Rightarrow> block_node run" where
  "element_block d ignore_attr html use_xpath n =
     (let b = SetText (GetNodeText d n) (SetName (nodeName d n) new_BlockNode);
          b = (if nodeName d n \<noteq> ''HTML''
               then (case attributes d n of None \<Rightarrow> b | Some as \<Rightarrow> b\<lparr>attr := ParseAttrs as (attr b)\<rparr>)
               else b)
      in bindR (get_node_path_doc d ignore_attr (Some n) html use_xpath) (\<lambda>path. Some (Inr (SetPath path b))))"

definition SetBox :: "'n dom \<Rightarrow> bool \<Rightarrow> 'n \<Rightarrow> block_node \<Rightarrow> block_node" where
  "SetBox d html n b =
     (if html then
        (case boxOf d n of None \<Rightarrow> b | Some (x, y, w, h) \<Rightarrow> SetH h (SetW w (SetY y (SetX x b))))
      else b)"

text \<open>
  The loop of \<open>parse_doc\<close> over the children \<open>ns\<close>; \<open>html\<close> says whether there is a document.  A
  child whose own children cannot be listed adds none.
\<close>

partial_function (option) parse_nodes ::
  "'n dom \<Rightarrow> bytes set \<Rightarrow> bytes set \<Rightarrow> bool \<Rightarrow> bool \<Rightarrow> 'n list \<Rightarrow> block_list \<Rightarrow> block_list run" where
  "parse_nodes d ignore_node ignore_attr html use_xpath ns bl =
     (case ns of
        [] \<Rightarrow> Some (Inr bl)
      | n # rest \<Rightarrow>
          if nodeType d n = ELEMENT_NODE then
            bindR (element_block d ignore_attr html use_xpath n) (\<lambda>b.
            bindR (parse_nodes d ignore_node ignore_attr html use_xpath (kids d n)
                     (if shown_mark ignore_node (nodeName d n) then AddBlock (SetBox d html n b) bl else bl))
              (parse_nodes d ignore_node ignore_attr html use_xpath rest))
          else parse_nodes d ignore_node ignore_attr html use_xpath rest bl)"

definition parse_doc ::
  "'n dom \<Rightarrow> bytes set \<Rightarrow> bytes set \<Rightarrow> 'n option \<Rightarrow> block_list \<Rightarrow> bool \<Rightarrow> bool \<Rightarrow> block_list run" where
  "parse_doc d ignore_node ignore_attr node bl html use_xpath =
     (case node of
        None \<Rightarrow> Some (Inr bl)
      | Some n \<Rightarrow> parse_nodes d ignore_node ignore_attr html use_xpath (kids d n) bl)"

text \<open>\<open>do_QueryInterface(html)\<close> gives the node and the document of an HTML document.\<close>

definition convert_html_to_bl ::
  "'n dom \<Rightarrow> bytes set \<Rightarrow> bytes set \<Rightarrow> 'n option \<Rightarrow> block_list \<Rightarrow> bool \<Rightarrow> block_list run" where
  "convert_html_to_bl d ignore_node ignore_attr html bl use_xpath =
     (if html = None then Some (Inr bl)
      else parse_doc d ignore_node ignore_attr html bl True use_xpath)"

section \<open>Collecting the content\<close>

text \<open>\<open>nsCString::Trim\<close> takes characters of a set off both ends.\<close>

definition Trim :: "bytes \<Rightarrow> bytes \<Rightarrow> bytes" where
  "Trim chars s = rev (dropWhile (\<lambda>c. c \<in> set chars) (rev (dropWhile (\<lambda>c. c \<in> set chars) s)))"

definition is_match_tag :: "(bytes \<Rightarrow> bytes \<Rightarrow> bool) \<Rightarrow> bytes \<Rightarrow> bytes \<Rightarrow> bool" where
  "is_match_tag matches pattern tag_value \<longleftrightarrow> pattern \<noteq> [] \<and> tag_value \<noteq> [] \<and> matches pattern tag_value"

text \<open>What the two functions and their calls of themselves share.\<close>

record 'n collect =
  path_of :: "'n \<Rightarrow> bytes run"
  taken :: "bytes \<Rightarrow> bytes \<Rightarrow> bool"
  hidden :: "bytes set"
  stop_tag :: "bytes \<Rightarrow> bool"
  start_tag :: "bytes \<Rightarrow> bool"

definition long_text :: "bytes \<Rightarrow> bool" where
  "long_text v \<longleftrightarrow> 1 < length (Trim [CHR '' '', CHR 0x0D, NL] v)"

text \<open>
  The loop over the children \<open>ns\<close> of a node: \<open>main\<close> says whether texts of this node are taken,
  \<open>nname\<close> is the name of the node itself.  A text is taken, any other child is entered: its path is
  compared with the stop and start marks, and its children are visited.  The result says whether a
  stop mark was met, and what was collected.
\<close>

partial_function (option) collect_nodes ::
  "'n dom \<Rightarrow> 'n collect \<Rightarrow> bool \<Rightarrow> bytes \<Rightarrow> 'n list \<Rightarrow> bytes \<Rightarrow> (bool \<times> bytes) run" where
  "collect_nodes d q main nname ns content =
     (case ns of
        [] \<Rightarrow> Some (Inr (False, content))
      | n # rest \<Rightarrow>
          let v = Trim '' '' (nodeValue d n)
          in if stop_tag q v then Some (Inr (True, content))
             else
               let content = (if start_tag q v then [] else content)
               in if main \<and> nodeType d n = TEXT_NODE then
                    collect_nodes d q main nname rest
                      (if shown_mark (hidden q) nname \<and> long_text (nodeValue d n)
                       then content @ nodeValue d n else content)
                  else
                    bindR (path_of q n) (\<lambda>path.
                      if stop_tag q path then Some (Inr (True, content))
                      else
                        bindR (collect_nodes d q (taken q path (nodeName d n)) (nodeName d n) (kids d n)
                                 (if start_tag q path then [] else content))
                          (\<lambda>(b, content). if b then Some (Inr (True, content))
                             else collect_nodes d q main nname rest content)))"

definition collect_node :: "'n dom \<Rightarrow> 'n collect \<Rightarrow> 'n option \<Rightarrow> bytes \<Rightarrow> (bool \<times> bytes) run" where
  "collect_node d q node content =
     (case node of
        None \<Rightarrow> Some (Inr (False, content))
      | Some n \<Rightarrow>
          bindR (path_of q n) (\<lambda>path.
            if stop_tag q path then Some (Inr (True, content))
            else collect_nodes d q (taken q path (nodeName d n)) (nodeName d n) (kids d n)
                   (if start_tag q path then [] else content)))"

text \<open>\<open>get_content\<close> takes the texts of the main nodes, and of trusted marks that are not advertising.\<close>

definition content_query ::
  "'n dom \<Rightarrow> (bytes \<Rightarrow> bytes \<Rightarrow> bool) \<Rightarrow> bytes set \<Rightarrow> bytes set \<Rightarrow> bytes set
     \<Rightarrow> bytes set \<Rightarrow> bytes set \<Rightarrow> bytes \<Rightarrow> bytes \<Rightarrow> bool \<Rightarrow> bool \<Rightarrow> 'n collect" where
  "content_query d matches ignore_node ignore_attr trusted main_nodes ad_nodes stop_pos start_pos doc use_xpath =
     \<lparr>path_of = (\<lambda>n. get_node_path_doc d ignore_attr (Some n) doc use_xpath),
       taken = (\<lambda>path name. has_element main_nodes path \<or> \<not> has_element ad_nodes path \<and> name \<in> trusted),
       hidden = ignore_node,
       stop_tag = is_match_tag matches stop_pos, start_tag = is_match_tag matches start_pos\<rparr>"

definition get_content ::
  "'n dom \<Rightarrow> (bytes \<Rightarrow> bytes \<Rightarrow> bool) \<Rightarrow> bytes set \<Rightarrow> bytes set \<Rightarrow> bytes set \<Rightarrow> 'n option \<Rightarrow> bytes
     \<Rightarrow> bytes set \<Rightarrow> bytes set \<Rightarrow> bytes \<Rightarrow> bytes \<Rightarrow> bool \<Rightarrow> bool \<Rightarrow> (bool \<times> bytes) run" where
  "get_content d matches ignore_node ignore_attr trusted node content main_nodes ad_nodes stop_pos start_pos doc use_xpath =
     collect_node d (content_query d matches ignore_node ignore_attr trusted main_nodes ad_nodes stop_pos start_pos doc use_xpath)
       node content"

text \<open>\<open>get_content2\<close> takes the texts of all nodes that are not in the collection.\<close>

definition get_content2 ::
  "'n dom \<Rightarrow> (bytes \<Rightarrow> bytes \<Rightarrow> bool) \<Rightarrow> bytes set \<Rightarrow> bytes set \<Rightarrow> 'n option \<Rightarrow> bytes
     \<Rightarrow> bytes set \<Rightarrow> bytes \<Rightarrow> bytes \<Rightarrow> (bool \<times> bytes) run" where
  "get_content2 d matches ignore_node ignore_attr node content collection stop_pos start_pos =
     collect_node d \<lparr>path_of = (\<lambda>n. get_node_path d ignore_attr (Some n) []),
       taken = (\<lambda>path name. \<not> has_element collection path), hidden = ignore_node,
       stop_tag = is_match_tag matches stop_pos, start_tag = is_match_tag matches start_pos\<rparr> node content"

definition get_content2_all ::
  "'n dom \<Rightarrow> (bytes \<Rightarrow> bytes \<Rightarrow> bool) \<Rightarrow> bytes set \<Rightarrow> bytes set \<Rightarrow> 'n option \<Rightarrow> bytes \<Rightarrow> bytes set
     \<Rightarrow> (bool \<times> bytes) run" where
  "get_content2_all d matches ignore_node ignore_attr node content collection =
     get_content2 d matches ignore_node ignore_attr node content collection [] []"

text \<open>
  \<open>get_node_text\<close>: texts below nodes whose path starts with \<open>node_path\<close>; other nodes are entered
  while their path is shorter.
\<close>

partial_function (option) text_nodes ::
  "'n dom \<Rightarrow> bytes set \<Rightarrow> bool \<Rightarrow> bool \<Rightarrow> bytes \<Rightarrow> bytes \<Rightarrow> 'n list \<Rightarrow> bytes \<Rightarrow> bytes run" where
  "text_nodes d ignore_attr doc use_xpath target path ns text =
     (case ns of
        [] \<Rightarrow> Some (Inr text)
      | n # rest \<Rightarrow>
          bindR
            (if prefix target path \<and> nodeType d n = TEXT_NODE then
               Some (Inr (if Trim [CHR '' '', CHR 0x0D, NL] (nodeValue d n) \<noteq> [] then text @ nodeValue d n else text))
             else if prefix target path \<or> length path < length target then
               bindR (get_node_path_doc d ignore_attr (Some n) doc use_xpath) (\<lambda>p.
                 text_nodes d ignore_attr doc use_xpath target p (kids d n) text)
             else Some (Inr text))
            (text_nodes d ignore_attr doc use_xpath target path rest))"

definition get_node_text ::
  "'n dom \<Rightarrow> bytes set \<Rightarrow> 'n option \<Rightarrow> bytes \<Rightarrow> bytes \<Rightarrow> bool \<Rightarrow> bool \<Rightarrow> bytes run" where
  "get_node_text d ignore_attr node text target doc use_xpath =
     (case node of
        None \<Rightarrow> Some (Inr text)
      | Some n \<Rightarrow>
          bindR (get_node_path_doc d ignore_attr node doc use_xpath) (\<lambda>path.
            text_nodes d ignore_attr doc use_xpath target path (kids d n) text))"


section \<open>Every element has a path\<close>

context dom_tree
begin

lemma node_path_total:
  "nodeType d n = ELEMENT_NODE \<Longrightarrow> \<exists>p. node_path_from d ignore_attr (Some n) path stop_pos = Some (Inr p)"
proof (induction "up n" arbitrary: n path stop_pos rule: less_induct)
  case less
  let ?s = "nodeName d n"
  obtain as where n: "?s \<noteq> []" "hd ?s \<noteq> CHR ''#''" "attributes d n = Some as"
    using element [OF less.prems] by blast
  have "\<exists>p. node_path_from d ignore_attr (parentNode d n) x ''HTML'' = Some (Inr p)" for x
  proof (cases "parentNode d n")
    case None
    then show ?thesis by (simp add: node_path_from.simps)
  next
    case (Some p)
    show ?thesis
    proof (cases "nodeType d p = ELEMENT_NODE")
      case True
      then show ?thesis using less.hyps [OF up [OF Some] True] Some by simp
    next
      case False
      then obtain r where "nodeName d p = CHR ''#'' # r" using parent [OF Some] by blast
      then show ?thesis using Some by (simp add: node_path_from.simps)
    qed
  qed
  then show ?case using n by (subst node_path_from.simps) (simp add: Let_def)
qed

lemma node_path_doc_total: "\<exists>p. get_node_path_doc d ignore_attr (Some n) doc use_xpath = Some (Inr p)"
proof (cases "nodeType d n = ELEMENT_NODE")
  case True
  obtain ps where "\<forall>qs. steps_up d [] (Some n) qs = Some (Inr (ps @ qs))"
    using root_path [OF True] by blast
  then have "\<exists>p. GetXpath d [] (Some n) 1 = Some (Inr p)"
    using True by (auto simp: GetXpath_def CalXpathABS_def)
  then show ?thesis
    using node_path_total [OF True] by (simp add: get_node_path_doc_def get_node_path_def)
next
  case False
  then show ?thesis by (simp add: get_node_path_doc_def)
qed

end

section \<open>The blocks of a document\<close>

text \<open>Below the children of a node, only elements are entered.\<close>

definition element_kids :: "'n dom \<Rightarrow> 'n \<Rightarrow> 'n list" where
  "element_kids d n = (if nodeType d n = ELEMENT_NODE then kids d n else [])"

definition block_for :: "'n dom \<Rightarrow> bytes set \<Rightarrow> bool \<Rightarrow> bool \<Rightarrow> 'n \<Rightarrow> block_node \<Rightarrow> bool" where
  "block_for d ignore_attr html use_xpath m b \<longleftrightarrow>
     node_name b = nodeName d m \<and> node_text b = GetNodeText d m
     \<and> get_node_path_doc d ignore_attr (Some m) html use_xpath = Some (Inr (node_path b))"

lemma SetBox_block: "block_for d ia html x m b \<Longrightarrow> block_for d ia html x m (SetBox d html n b)"
  by (auto simp: block_for_def SetBox_def SetX_def SetY_def SetW_def SetH_def split: option.split)

context dom_tree
begin

lemma element_block_total:
  "\<exists>b. element_block d ignore_attr html use_xpath n = Some (Inr b) \<and> block_for d ignore_attr html use_xpath n b"
proof -
  obtain p where p: "get_node_path_doc d ignore_attr (Some n) html use_xpath = Some (Inr p)"
    using node_path_doc_total by blast
  then show ?thesis
    by (auto simp: element_block_def block_for_def Let_def SetPath_def SetText_def SetName_def split: option.split)
qed

lemma parse_nodes_blocks:
  assumes "\<forall>m \<in> set ns. down m < k"
  shows "\<exists>bs. parse_nodes d ignore_node ignore_attr html use_xpath ns bl = Some (Inr (bl\<lparr>blocks := blocks bl @ bs\<rparr>))
    \<and> list_all2 (block_for d ignore_attr html use_xpath)
        (filter (\<lambda>m. nodeType d m = ELEMENT_NODE \<and> shown_mark ignore_node (nodeName d m))
           (walk (element_kids d) k ns)) bs"
  using assms
proof (induction k arbitrary: ns bl)
  case 0
  then have "ns = []" by (cases ns) auto
  then show ?case by (simp add: parse_nodes.simps)
next
  case (Suc k)
  let ?shown = "\<lambda>m. nodeType d m = ELEMENT_NODE \<and> shown_mark ignore_node (nodeName d m)"
  from Suc.prems show ?case
  proof (induction ns arbitrary: bl)
    case Nil
    show ?case by (simp add: parse_nodes.simps)
  next
    case (Cons n ns)
    let ?P = "parse_nodes d ignore_node ignore_attr html use_xpath"
    have rest: "\<exists>bs. ?P ns bl = Some (Inr (bl\<lparr>blocks := blocks bl @ bs\<rparr>))
        \<and> list_all2 (block_for d ignore_attr html use_xpath) (filter ?shown (walk (element_kids d) (Suc k) ns)) bs" for bl
      using Cons by (simp del: walk.simps)
    show ?case
    proof (cases "nodeType d n = ELEMENT_NODE")
      case False
      then show ?thesis
        using rest [of bl] by (subst parse_nodes.simps) (simp add: element_kids_def)
    next
      case True
      obtain b where b: "element_block d ignore_attr html use_xpath n = Some (Inr b)"
        "block_for d ignore_attr html use_xpath n b" using element_block_total by blast
      let ?bl = "if shown_mark ignore_node (nodeName d n) then AddBlock (SetBox d html n b) bl else bl"
      have "\<forall>m \<in> set (kids d n). down m < k" using down Cons.prems by fastforce
      from Suc.IH [OF this, of ?bl] obtain bs where bs: "?P (kids d n) ?bl = Some (Inr (?bl\<lparr>blocks := blocks ?bl @ bs\<rparr>))"
        "list_all2 (block_for d ignore_attr html use_xpath) (filter ?shown (walk (element_kids d) k (kids d n))) bs"
        by blast
      obtain cs where cs: "?P ns (?bl\<lparr>blocks := blocks ?bl @ bs\<rparr>) = Some (Inr (?bl\<lparr>blocks := (blocks ?bl @ bs) @ cs\<rparr>))"
        "list_all2 (block_for d ignore_attr html use_xpath) (filter ?shown (walk (element_kids d) (Suc k) ns)) cs"
        using rest [of "?bl\<lparr>blocks := blocks ?bl @ bs\<rparr>"] by auto
      let ?hd = "if shown_mark ignore_node (nodeName d n) then [SetBox d html n b] else []"
      have "?P (n # ns) bl = Some (Inr (bl\<lparr>blocks := blocks bl @ ?hd @ bs @ cs\<rparr>))"
        using True b(1) bs(1) cs(1) by (subst parse_nodes.simps) (simp add: AddBlock_def)
      moreover have "list_all2 (block_for d ignore_attr html use_xpath)
          (filter ?shown (walk (element_kids d) (Suc k) (n # ns))) (?hd @ bs @ cs)"
        using True SetBox_block [OF b(2)] bs(2) cs(2)
        by (auto simp: element_kids_def intro!: list_all2_appendI)
      ultimately show ?thesis by blast
    qed
  qed
qed

end

text \<open>C9.  The list of blocks of a document: one block for every element below the node, in document order and
  with its name, its own text and its path, less the ignored marks.  What stands inside an ignored
  mark is not ignored.
\<close>

theorem parse_doc_blocks:
  assumes "dom_tree d up down"
  shows "\<exists>bs. parse_doc d ignore_node ignore_attr (Some n) bl html use_xpath = Some (Inr (bl\<lparr>blocks := blocks bl @ bs\<rparr>))
    \<and> list_all2 (block_for d ignore_attr html use_xpath)
        (filter (\<lambda>m. nodeType d m = ELEMENT_NODE \<and> shown_mark ignore_node (nodeName d m))
           (walk (element_kids d) (down n) (kids d n))) bs"
  using dom_tree.parse_nodes_blocks [OF assms, of "kids d n" "down n"] dom_tree.down [OF assms]
  by (simp add: parse_doc_def)

lemma parse_doc_blocks_witness:
  "\<exists>bs. parse_doc (dom_of sample_page) {} {} (Some []) new_BlockList True False
      = Some (Inr (new_BlockList\<lparr>blocks := bs\<rparr>))
    \<and> list_all2 (block_for (dom_of sample_page) {} True False) [[0], [0, 0], [0, 0, 1]] bs"
proof -
  have "filter (\<lambda>m. nodeType (dom_of sample_page) m = ELEMENT_NODE \<and> shown_mark {} (nodeName (dom_of sample_page) m))
      (walk (element_kids (dom_of sample_page)) (node_height sample_page []) (kids (dom_of sample_page) []))
      = [[0], [0, 0], [0, 0, 1]]"
    by (simp add: sample_page_def node_height_def dom_of_simps element_kids_def entry_def shown_mark_def eval_nat_numeral)
  then show ?thesis
    using parse_doc_blocks [OF markup_dom.dom_tree_axioms, of sample_page "{}" "{}" "[]" new_BlockList True False]
    by (simp add: new_BlockList_def)
qed

section \<open>The content of a document\<close>

text \<open>The texts that count: the parent is taken and shown, and more than one character is left after trimming.\<close>

definition wanted_text :: "'n dom \<Rightarrow> 'n collect \<Rightarrow> ('n \<Rightarrow> bytes) \<Rightarrow> 'n \<Rightarrow> bool" where
  "wanted_text d q pf t \<longleftrightarrow>
     nodeType d t = TEXT_NODE \<and> long_text (nodeValue d t)
     \<and> (case parentNode d t of None \<Rightarrow> False
        | Some p \<Rightarrow> taken q (pf p) (nodeName d p) \<and> shown_mark (hidden q) (nodeName d p))"

definition wanted_content :: "'n dom \<Rightarrow> 'n collect \<Rightarrow> ('n \<Rightarrow> bytes) \<Rightarrow> 'n list \<Rightarrow> bytes" where
  "wanted_content d q pf ns = concat (map (nodeValue d) (filter (wanted_text d q pf) ns))"

lemma wanted_content_append [simp]:
  "wanted_content d q pf (ms @ ns) = wanted_content d q pf ms @ wanted_content d q pf ns"
  "wanted_content d q pf [] = []"
  by (simp_all add: wanted_content_def)

text \<open>What a visit may do to the content: append an initial part of \<open>full\<close>, and all of it unless a
  stop mark was met.\<close>

definition collects :: "'n collect \<Rightarrow> (bool \<times> bytes) run \<Rightarrow> bytes \<Rightarrow> bytes \<Rightarrow> bool" where
  "collects q r content full \<longleftrightarrow>
     (\<exists>b x. r = Some (Inr (b, content @ x)) \<and> prefix x full \<and> (b \<longrightarrow> (\<exists>v. stop_tag q v)) \<and> (\<not> b \<longrightarrow> x = full))"

lemma collects_stop: "stop_tag q v \<Longrightarrow> collects q (Some (Inr (True, content))) content full"
  unfolding collects_def by (rule exI [of _ True], rule exI [of _ "[]"]) auto

lemma collects_end: "collects q (Some (Inr (False, content))) content []"
  unfolding collects_def by (rule exI [of _ False], rule exI [of _ "[]"]) simp

lemma collects_more: "collects q r (content @ x) full \<Longrightarrow> collects q r content (x @ full)"
  unfolding collects_def
proof (elim exE conjE)
  fix b y
  assume "r = Some (Inr (b, (content @ x) @ y))" "prefix y full" "b \<longrightarrow> (\<exists>v. stop_tag q v)" "\<not> b \<longrightarrow> y = full"
  then show "\<exists>b z. r = Some (Inr (b, content @ z)) \<and> prefix z (x @ full)
      \<and> (b \<longrightarrow> (\<exists>v. stop_tag q v)) \<and> (\<not> b \<longrightarrow> z = x @ full)"
    by (intro exI [of _ b] exI [of _ "x @ y"]) simp
qed

lemma collects_then:
  assumes "collects q r content full" and "\<And>c. collects q (f c) c rest"
  shows "collects q (bindR r (\<lambda>(b, c). if b then Some (Inr (True, c)) else f c)) content (full @ rest)"
proof -
  obtain b x where x: "r = Some (Inr (b, content @ x))" "prefix x full"
    "b \<longrightarrow> (\<exists>v. stop_tag q v)" "\<not> b \<longrightarrow> x = full" using assms(1) unfolding collects_def by blast
  show ?thesis
  proof (cases b)
    case True
    then show ?thesis using x unfolding collects_def by (intro exI [of _ True] exI [of _ x]) auto
  next
    case False
    then show ?thesis using x collects_more [OF assms(2)] by simp
  qed
qed

context dom_tree
begin

lemma collect_nodes_content:
  assumes "\<forall>m \<in> set ns. down m < k \<and> parentNode d m = Some p"
    and "\<And>m. path_of q m = Some (Inr (pf m))" and "\<And>v. \<not> start_tag q v"
  shows "collects q (collect_nodes d q (taken q (pf p) (nodeName d p)) (nodeName d p) ns content) content
           (wanted_content d q pf (walk (kids d) k ns))"
  using assms(1)
proof (induction k arbitrary: ns p content)
  case 0
  then have "ns = []" by (cases ns) auto
  then show ?case by (simp add: collect_nodes.simps collects_end)
next
  case (Suc k)
  from Suc.prems show ?case
  proof (induction ns arbitrary: content)
    case Nil
    show ?case by (simp add: collect_nodes.simps collects_end)
  next
    case (Cons n ns)
    let ?main = "taken q (pf p) (nodeName d p)"
    let ?C = "collect_nodes d q ?main (nodeName d p)"
    have rest: "collects q (?C ns content) content (wanted_content d q pf (walk (kids d) (Suc k) ns))" for content
      using Cons by (simp del: walk.simps)
    have parent: "parentNode d n = Some p" using Cons.prems by simp
    have walk: "walk (kids d) (Suc k) (n # ns) = [n] @ walk (kids d) k (kids d n) @ walk (kids d) (Suc k) ns"
      by simp
    show ?case
    proof (cases "stop_tag q (Trim '' '' (nodeValue d n))")
      case True
      then show ?thesis by (subst collect_nodes.simps) (simp add: collects_stop del: walk.simps)
    next
      case no_stop: False
      show ?thesis
      proof (cases "?main \<and> nodeType d n = TEXT_NODE")
        case True
        then have "kids d n = []" using leaf by blast
        let ?x = "if shown_mark (hidden q) (nodeName d p) \<and> long_text (nodeValue d n) then nodeValue d n else []"
        have x: "wanted_content d q pf [n] = ?x" using True parent by (simp add: wanted_content_def wanted_text_def)
        have "?C (n # ns) content = ?C ns (content @ ?x)"
          using True no_stop assms(3) by (subst collect_nodes.simps) simp
        then have "collects q (?C (n # ns) content) content (?x @ wanted_content d q pf (walk (kids d) (Suc k) ns))"
          using collects_more [OF rest [of "content @ ?x"]] by (simp only:)
        then show ?thesis unfolding walk wanted_content_append x \<open>kids d n = []\<close> by (simp del: walk.simps)
      next
        case False
        then have none: "wanted_content d q pf [n] = []" using parent by (auto simp: wanted_content_def wanted_text_def)
        show ?thesis
        proof (cases "stop_tag q (pf n)")
          case True
          then show ?thesis
            using no_stop False assms(2,3)
            by (subst collect_nodes.simps) (auto simp: collects_stop simp del: walk.simps)
        next
          case path: False
          have "\<forall>m \<in> set (kids d n). down m < k \<and> parentNode d m = Some n"
            using down Cons.prems child_iff by fastforce
          then have "collects q (collect_nodes d q (taken q (pf n) (nodeName d n)) (nodeName d n) (kids d n) content)
              content (wanted_content d q pf (walk (kids d) k (kids d n)))"
            by (rule Suc.IH)
          from collects_then [OF this rest] show ?thesis
            unfolding walk wanted_content_append none
            using no_stop False path assms(2,3) by (subst collect_nodes.simps) (auto simp del: walk.simps)
        qed
      qed
    qed
  qed
qed

end

text \<open>The path of a node, empty for nodes that are no elements.\<close>

definition doc_path :: "'n dom \<Rightarrow> bytes set \<Rightarrow> bool \<Rightarrow> bool \<Rightarrow> 'n \<Rightarrow> bytes" where
  "doc_path d ignore_attr doc use_xpath m =
     (case get_node_path_doc d ignore_attr (Some m) doc use_xpath of Some (Inr p) \<Rightarrow> p | _ \<Rightarrow> [])"

text \<open>C11.  With no start mark, \<open>get_content\<close> returns and appends to the content: all texts below the node
  whose parent is a main node (or a trusted mark that is not advertising) and not an ignored mark, in
  document order, or, when a stop mark was met, an initial part of them.
\<close>

theorem get_content_texts:
  fixes d :: "'n dom"
  assumes "dom_tree d up down"
  shows "let q = content_query d matches ignore_node ignore_attr trusted main_nodes ad_nodes stop_pos [] doc use_xpath;
             full = wanted_content d q (doc_path d ignore_attr doc use_xpath) (walk (kids d) (down n) (kids d n))
    in \<exists>b x. get_content d matches ignore_node ignore_attr trusted (Some n) content main_nodes ad_nodes
             stop_pos [] doc use_xpath = Some (Inr (b, content @ x))
         \<and> prefix x full \<and> (if b then stop_pos \<noteq> [] else x = full)"
proof -
  define q where "q = content_query d matches ignore_node ignore_attr trusted main_nodes ad_nodes stop_pos [] doc use_xpath"
  define pf where "pf = doc_path d ignore_attr doc use_xpath"
  have path: "path_of q m = Some (Inr (pf m))" for m
    using dom_tree.node_path_doc_total [OF assms, of ignore_attr m doc use_xpath]
    by (auto simp: q_def pf_def content_query_def doc_path_def)
  have start: "\<not> start_tag q v" for v by (simp add: q_def content_query_def is_match_tag_def)
  have stop: "stop_pos \<noteq> []" if "stop_tag q v" for v
    using that by (simp add: q_def content_query_def is_match_tag_def)
  have "\<forall>m \<in> set (kids d n). down m < down n \<and> parentNode d m = Some n"
    using dom_tree.down [OF assms] dom_tree.child_iff [OF assms] by blast
  from dom_tree.collect_nodes_content [OF assms this path start]
  have c: "collects q (collect_nodes d q (taken q (pf n) (nodeName d n)) (nodeName d n) (kids d n) content) content
      (wanted_content d q pf (walk (kids d) (down n) (kids d n)))" .
  have "get_content d matches ignore_node ignore_attr trusted (Some n) content main_nodes ad_nodes stop_pos [] doc use_xpath
      = (if stop_tag q (pf n) then Some (Inr (True, content))
         else collect_nodes d q (taken q (pf n) (nodeName d n)) (nodeName d n) (kids d n) content)"
    unfolding get_content_def collect_node_def q_def [symmetric] using path start by simp
  then have "collects q (get_content d matches ignore_node ignore_attr trusted (Some n) content main_nodes
      ad_nodes stop_pos [] doc use_xpath) content (wanted_content d q pf (walk (kids d) (down n) (kids d n)))"
    using c by (simp add: collects_stop)
  then show ?thesis
    unfolding Let_def q_def [symmetric] pf_def [symmetric] collects_def using stop by (metis (no_types, lifting))
qed

lemma get_content_texts_witness:
  "get_content (dom_of sample_page) (\<lambda>_ _. False) {} {} {} (Some []) [] {''P: id=x/BODY: class=a b/''} {} [] [] True False
     = Some (Inr (False, ''text of P''))"
proof -
  define q where "q = content_query (dom_of sample_page) (\<lambda>_ _. False) {} {} {} {''P: id=x/BODY: class=a b/''} {} [] [] True False"
  have walk: "walk (kids (dom_of sample_page)) (node_height sample_page []) (kids (dom_of sample_page) [])
      = [[0], [0, 0], [0, 0, 0], [0, 0, 1], [0, 0, 1, 0]]"
    by (simp add: sample_page_def node_height_def dom_of_simps eval_nat_numeral)
  have paths: "doc_path (dom_of sample_page) {} True False [0, 0] = ''BODY: class=a b/''"
    "doc_path (dom_of sample_page) {} True False [0, 0, 1] = ''P: id=x/BODY: class=a b/''"
    by (simp_all add: doc_path_def get_node_path_doc_def get_node_path_def node_path_from.simps dom_of_simps
        sample_page_def entry_def ParseAttrs_def path_attr_def)
  have texts: "wanted_content (dom_of sample_page) q (doc_path (dom_of sample_page) {} True False)
      [[0], [0, 0], [0, 0, 0], [0, 0, 1], [0, 0, 1, 0]] = ''text of P''"
    using paths
    by (simp add: wanted_content_def wanted_text_def q_def content_query_def has_element_def shown_mark_def
        long_text_def Trim_def dom_of_simps sample_page_def entry_def)
  show ?thesis
    using get_content_texts [OF markup_dom.dom_tree_axioms, of sample_page "\<lambda>_ _. False" "{}" "{}" "{}"
        "{''P: id=x/BODY: class=a b/''}" "{}" "[]" True False "[]" "[]"]
    unfolding Let_def q_def [symmetric] walk texts by (auto split: if_splits)
qed

text \<open>
  \<open>stop_pos\<close> is compared with the first node only: the names of its ancestors do not end the path
  unless they are \<open>HTML\<close>.
\<close>

lemma stop_pos_of_ancestors:
  assumes "nodeName d n \<noteq> stop_pos" "nodeName d n \<noteq> stop_pos'"
  shows "node_path_from d ignore_attr (Some n) path stop_pos = node_path_from d ignore_attr (Some n) path stop_pos'"
  using assms by (simp add: node_path_from.simps [of _ _ "Some n"])

end
