(* ===== verification/HttpParser.thy ===== *)
theory HttpParser
  imports StringUtil "HOL-Library.Word"
begin

text \<open>
  \<open>httpd/server/request_parser.cpp\<close> and \<open>request_parser.hpp\<close>: the byte-driven state machine that
  parses an HTTP request.  \<open>consume\<close> is one step; \<open>parse\<close> the loop over one buffer.  The request is
  the record of \<open>request.hpp\<close>; \<open>headers.back()\<close> of an empty vector is an error of the model, and
  the version numbers are 32-bit words (an overflow wraps, as the compiled code does).  \<open>feeds\<close> is
  the step relation the invariants are proved over; \<open>render\<close> prints a request and the parser reads
  it back.
\<close>

section \<open>The request and the parser state\<close>

record header =
  name :: bytes
  val :: bytes

record request =
  req_method :: bytes
  req_uri :: bytes
  req_http_version_major :: "32 word"
  req_http_version_minor :: "32 word"
  req_headers :: "header list"
  req_content :: bytes

datatype parser_state = method_start | in_method | uri_start | uri
  | http_version_h | http_version_t_1 | http_version_t_2 | http_version_p | http_version_slash
  | http_version_major_start | http_version_major | http_version_minor_start | http_version_minor
  | expecting_newline_1 | header_line_start | header_lws | header_name
  | space_before_header_value | header_value | expecting_newline_2 | expecting_newline_3

datatype tribool = TriTrue | TriFalse | Indeterminate

abbreviation CR :: char where "CR \<equiv> CHR 0x0D"
abbreviation SP :: char where "SP \<equiv> CHR 0x20"
abbreviation TAB :: char where "TAB \<equiv> CHR 0x09"

section \<open>Character classes\<close>

text \<open>\<open>char\<close> is signed, so a byte above 127 is a negative \<open>int\<close> argument.\<close>

definition schar :: "char \<Rightarrow> int" where
  "schar c = (let n = (of_char c :: nat) in if n < 128 then int n else int n - 256)"

definition is_char :: "int \<Rightarrow> bool" where
  "is_char c \<longleftrightarrow> 0 \<le> c \<and> c \<le> 127"

definition is_ctl :: "int \<Rightarrow> bool" where
  "is_ctl c \<longleftrightarrow> 0 \<le> c \<and> c \<le> 31 \<or> c = 127"

definition tspecials :: "char list" where
  "tspecials = ''()<>@,;:'' @ [CHR 0x5C, CHR 0x22] @ ''/[]?={}'' @ [SP, TAB]"

definition is_tspecial :: "char \<Rightarrow> bool" where
  "is_tspecial c \<longleftrightarrow> c \<in> set tspecials"

definition is_digit_ch :: "char \<Rightarrow> bool" where
  "is_digit_ch c \<longleftrightarrow> 48 \<le> schar c \<and> schar c \<le> 57"

definition not_token :: "char \<Rightarrow> bool" where
  "not_token c \<longleftrightarrow> \<not> is_char (schar c) \<or> is_ctl (schar c) \<or> is_tspecial c"

abbreviation ctl :: "char \<Rightarrow> bool" where "ctl c \<equiv> is_ctl (schar c)"

section \<open>One step\<close>

type_synonym stepped = "tribool \<times> parser_state \<times> request"

definition next_st :: "parser_state \<Rightarrow> request \<Rightarrow> stepped res" where
  "next_st st r = Inr (Indeterminate, st, r)"

definition reject :: "parser_state \<Rightarrow> request \<Rightarrow> stepped res" where
  "reject st r = Inr (TriFalse, st, r)"

definition version_digit :: "32 word \<Rightarrow> char \<Rightarrow> 32 word" where
  "version_digit n c = n * 10 + word_of_int (schar c) - 48"

text \<open>\<open>headers.back()\<close> of an empty vector is undefined.\<close>

definition back_update :: "(header \<Rightarrow> header) \<Rightarrow> request \<Rightarrow> request res" where
  "back_update f r =
     (if req_headers r = [] then Inl BadIterator
      else Inr (r\<lparr>req_headers := butlast (req_headers r) @ [f (last (req_headers r))]\<rparr>))"

definition push_name :: "char \<Rightarrow> request \<Rightarrow> request res" where
  "push_name c = back_update (\<lambda>h. h\<lparr>name := name h @ [c]\<rparr>)"

definition push_value :: "char \<Rightarrow> request \<Rightarrow> request res" where
  "push_value c = back_update (\<lambda>h. h\<lparr>val := val h @ [c]\<rparr>)"

text \<open>The states of the request line.\<close>

fun consume_request_line :: "parser_state \<Rightarrow> request \<Rightarrow> char \<Rightarrow> stepped res" where
  "consume_request_line method_start r c =
     (if not_token c then reject method_start r
      else next_st in_method (r\<lparr>req_method := req_method r @ [c]\<rparr>))"
| "consume_request_line in_method r c =
     (if c = SP then next_st uri r
      else if not_token c then reject in_method r
      else next_st in_method (r\<lparr>req_method := req_method r @ [c]\<rparr>))"
| "consume_request_line uri_start r c =
     (if ctl c then reject uri_start r
      else next_st uri (r\<lparr>req_uri := req_uri r @ [c]\<rparr>))"
| "consume_request_line uri r c =
     (if c = SP then next_st http_version_h r
      else if ctl c then reject uri r
      else next_st uri (r\<lparr>req_uri := req_uri r @ [c]\<rparr>))"
| "consume_request_line http_version_h r c =
     (if c = CHR ''H'' then next_st http_version_t_1 r else reject http_version_h r)"
| "consume_request_line http_version_t_1 r c =
     (if c = CHR ''T'' then next_st http_version_t_2 r else reject http_version_t_1 r)"
| "consume_request_line http_version_t_2 r c =
     (if c = CHR ''T'' then next_st http_version_p r else reject http_version_t_2 r)"
| "consume_request_line http_version_p r c =
     (if c = CHR ''P'' then next_st http_version_slash r else reject http_version_p r)"
| "consume_request_line http_version_slash r c =
     (if c = CHR ''/''
      then next_st http_version_major_start
             (r\<lparr>req_http_version_major := 0, req_http_version_minor := 0\<rparr>)
      else reject http_version_slash r)"
| "consume_request_line http_version_major_start r c =
     (if is_digit_ch c
      then next_st http_version_major
             (r\<lparr>req_http_version_major := version_digit (req_http_version_major r) c\<rparr>)
      else reject http_version_major_start r)"
| "consume_request_line http_version_major r c =
     (if c = CHR ''.'' then next_st http_version_minor_start r
      else if is_digit_ch c
      then next_st http_version_major
             (r\<lparr>req_http_version_major := version_digit (req_http_version_major r) c\<rparr>)
      else reject http_version_major r)"
| "consume_request_line http_version_minor_start r c =
     (if is_digit_ch c
      then next_st http_version_minor
             (r\<lparr>req_http_version_minor := version_digit (req_http_version_minor r) c\<rparr>)
      else reject http_version_minor_start r)"
| "consume_request_line http_version_minor r c =
     (if c = CR then next_st expecting_newline_1 r
      else if is_digit_ch c
      then next_st http_version_minor
             (r\<lparr>req_http_version_minor := version_digit (req_http_version_minor r) c\<rparr>)
      else reject http_version_minor r)"
| "consume_request_line st r c = reject st r"

text \<open>The states of the header lines.\<close>

fun consume_headers :: "parser_state \<Rightarrow> request \<Rightarrow> char \<Rightarrow> stepped res" where
  "consume_headers expecting_newline_1 r c =
     (if c = NL then next_st header_line_start r else reject expecting_newline_1 r)"
| "consume_headers header_line_start r c =
     (if c = CR then next_st expecting_newline_3 r
      else if req_headers r \<noteq> [] \<and> (c = SP \<or> c = TAB) then next_st header_lws r
      else if not_token c then reject header_line_start r
      else bindE (push_name c (r\<lparr>req_headers := req_headers r @ [\<lparr>name = [], val = []\<rparr>]\<rparr>))
             (next_st header_name))"
| "consume_headers header_lws r c =
     (if c = CR then next_st expecting_newline_2 r
      else if c = SP \<or> c = TAB then next_st header_lws r
      else if ctl c then reject header_lws r
      else bindE (push_value c r) (next_st header_value))"
| "consume_headers header_name r c =
     (if c = CHR '':'' then next_st space_before_header_value r
      else if not_token c then reject header_name r
      else bindE (push_name c r) (next_st header_name))"
| "consume_headers space_before_header_value r c =
     (if c = SP then next_st header_value r else reject space_before_header_value r)"
| "consume_headers header_value r c =
     (if c = CR then next_st expecting_newline_2 r
      else if ctl c then reject header_value r
      else bindE (push_value c r) (next_st header_value))"
| "consume_headers expecting_newline_2 r c =
     (if c = NL then next_st header_line_start r else reject expecting_newline_2 r)"
| "consume_headers expecting_newline_3 r c =
     Inr (if c = NL then TriTrue else TriFalse, expecting_newline_3, r)"
| "consume_headers st r c = reject st r"

fun in_headers :: "parser_state \<Rightarrow> bool" where
  "in_headers st \<longleftrightarrow> st \<in> {expecting_newline_1, header_line_start, header_lws, header_name,
     space_before_header_value, header_value, expecting_newline_2, expecting_newline_3}"

definition consume :: "parser_state \<Rightarrow> request \<Rightarrow> char \<Rightarrow> stepped res" where
  "consume st r c = (if in_headers st then consume_headers st r c else consume_request_line st r c)"

definition parser_init :: parser_state where
  "parser_init = method_start"

text \<open>\<open>reset\<close> forgets the parser's state but not the request.\<close>

definition reset :: "parser_state \<Rightarrow> parser_state" where
  "reset st = method_start"

section \<open>The loop over a buffer\<close>

fun parse :: "parser_state \<Rightarrow> request \<Rightarrow> bytes \<Rightarrow> (tribool \<times> parser_state \<times> request \<times> bytes) res" where
  "parse st r [] = Inr (Indeterminate, st, r, [])"
| "parse st r (c # cs) =
     bindE (consume st r c) (\<lambda>(result, st', r').
       case result of
         Indeterminate \<Rightarrow> parse st' r' cs
       | TriTrue \<Rightarrow>
           Inr (TriTrue, st', (if cs \<noteq> [] then r'\<lparr>req_content := req_content r' @ cs\<rparr> else r'), cs)
       | TriFalse \<Rightarrow> Inr (TriFalse, st', r', cs))"

text \<open>Parsing the concatenation of two buffers is parsing the first and, when more data is
  required, parsing the second from the state and request that are left; a result reached in the
  first buffer stays, with the rest of the data appended to the content.\<close>

theorem parse_append:
  "parse st r (a @ b) =
     bindE (parse st r a) (\<lambda>(result, st', r', rest).
       case result of
         Indeterminate \<Rightarrow> parse st' r' b
       | TriTrue \<Rightarrow> Inr (TriTrue, st', r'\<lparr>req_content := req_content r' @ b\<rparr>, rest @ b)
       | TriFalse \<Rightarrow> Inr (TriFalse, st', r', rest @ b))"
proof (induction a arbitrary: st r)
  case (Cons c a)
  show ?case
    by (cases "consume st r c") (auto simp: Cons.IH split: tribool.splits prod.splits)
qed simp

section \<open>The step relation and its invariant\<close>

inductive feeds :: "parser_state \<Rightarrow> request \<Rightarrow> bytes \<Rightarrow> parser_state \<Rightarrow> request \<Rightarrow> bool" where
  feeds_Nil: "feeds st r [] st r"
| feeds_Cons: "consume st r c = Inr (Indeterminate, st1, r1) \<Longrightarrow> feeds st1 r1 cs st2 r2 \<Longrightarrow>
     feeds st r (c # cs) st2 r2"

inductive_simps feeds_Nil_iff [simp]: "feeds st r [] st2 r2"
inductive_simps feeds_Cons_iff: "feeds st r (c # cs) st2 r2"

lemma feeds_append:
  "feeds st r xs st1 r1 \<Longrightarrow> feeds st1 r1 ys st2 r2 \<Longrightarrow> feeds st r (xs @ ys) st2 r2"
  by (induction rule: feeds.induct) (auto intro: feeds.intros)

lemma feeds_parse: "feeds st r xs st1 r1 \<Longrightarrow> parse st r (xs @ ys) = parse st1 r1 ys"
  by (induction rule: feeds.induct) auto

definition header_ok :: "header \<Rightarrow> bool" where
  "header_ok h \<longleftrightarrow> name h \<noteq> [] \<and> list_all (\<lambda>c. \<not> not_token c) (name h) \<and> list_all (\<lambda>c. \<not> ctl c) (val h)"

definition request_ok :: "request \<Rightarrow> bool" where
  "request_ok r \<longleftrightarrow> list_all (\<lambda>c. \<not> not_token c) (req_method r) \<and>
     list_all (\<lambda>c. \<not> ctl c \<and> c \<noteq> SP) (req_uri r) \<and> list_all header_ok (req_headers r)"

text \<open>The states in which \<open>headers.back()\<close> may be used.\<close>

definition needs_header :: "parser_state \<Rightarrow> bool" where
  "needs_header st \<longleftrightarrow> st \<in> {header_lws, header_name, space_before_header_value, header_value}"

definition parser_inv :: "parser_state \<Rightarrow> request \<Rightarrow> bool" where
  "parser_inv st r \<longleftrightarrow> request_ok r \<and> st \<noteq> uri_start \<and>
     (needs_header st \<longrightarrow> req_headers r \<noteq> []) \<and> (st \<noteq> method_start \<longrightarrow> req_method r \<noteq> [])"

lemma not_token_SP [simp]: "not_token SP" "not_token TAB"
  by (simp_all add: not_token_def is_tspecial_def tspecials_def)

lemma not_token_CR [simp]: "not_token CR" "ctl CR" "ctl NL"
  by (simp_all add: not_token_def is_ctl_def schar_def)

lemma push_eq:
  "req_headers r = hs @ [h] \<Longrightarrow>
     push_name c r = Inr (r\<lparr>req_headers := hs @ [h\<lparr>name := name h @ [c]\<rparr>]\<rparr>)"
  "req_headers r = hs @ [h] \<Longrightarrow>
     push_value c r = Inr (r\<lparr>req_headers := hs @ [h\<lparr>val := val h @ [c]\<rparr>]\<rparr>)"
  by (simp_all add: push_name_def push_value_def back_update_def)

lemma consume_request_line_inv:
  assumes "parser_inv st r" and "\<not> in_headers st"
  shows "\<exists>b st' r'. consume_request_line st r c = Inr (b, st', r') \<and> b \<noteq> TriTrue \<and> parser_inv st' r' \<and> req_content r' = req_content r"
  using assms by (cases st) (auto simp: parser_inv_def request_ok_def needs_header_def next_st_def reject_def)

lemma consume_headers_inv:
  assumes "parser_inv st r" and "in_headers st"
  shows "\<exists>b st' r'. consume_headers st r c = Inr (b, st', r') \<and> parser_inv st' r' \<and> req_content r' = req_content r"
proof (cases "needs_header st")
  case True
  then obtain hs h where r: "req_headers r = hs @ [h]"
    using assms(1) by (metis append_butlast_last_id parser_inv_def)
  then show ?thesis
    using True assms
    by (auto simp: needs_header_def parser_inv_def request_ok_def header_ok_def next_st_def
        reject_def push_eq [OF r])
next
  case False
  then have "st \<in> {expecting_newline_1, header_line_start, expecting_newline_2, expecting_newline_3}"
    using assms(2) by (auto simp: needs_header_def)
  then show ?thesis
    using assms(1)
    by (auto simp: needs_header_def parser_inv_def request_ok_def header_ok_def next_st_def
        reject_def push_name_def back_update_def)
qed

lemma consume_inv:
  "parser_inv st r \<Longrightarrow>
     \<exists>b st' r'. consume st r c = Inr (b, st', r') \<and> parser_inv st' r' \<and> req_content r' = req_content r"
  unfolding consume_def using consume_headers_inv consume_request_line_inv
  by (metis (no_types, lifting))

lemma feeds_inv: "feeds st r xs st' r' \<Longrightarrow> parser_inv st r \<Longrightarrow> parser_inv st' r'"
proof (induction rule: feeds.induct)
  case (feeds_Cons st r c st1 r1 cs st2 r2)
  then show ?case using consume_inv [of st r c] by auto
qed

text \<open>A connection starts with an empty request whose version numbers are whatever the memory held.\<close>

definition fresh_request :: "32 word \<Rightarrow> 32 word \<Rightarrow> request" where
  "fresh_request a b = \<lparr>req_method = [], req_uri = [], req_http_version_major = a,
     req_http_version_minor = b, req_headers = [], req_content = []\<rparr>"

lemma fresh_inv: "parser_inv method_start (fresh_request a b)"
  by (simp add: parser_inv_def request_ok_def needs_header_def fresh_request_def)

lemma request_ok_content [simp]: "request_ok (r\<lparr>req_content := x\<rparr>) = request_ok r"
  by (simp add: request_ok_def)

lemma parser_inv_content [simp]: "parser_inv st (r\<lparr>req_content := x\<rparr>) = parser_inv st r"
  by (simp add: parser_inv_def)

lemma parse_inv:
  assumes "parser_inv st r" and "req_content r = []"
  shows "\<exists>b st' r' rest u. parse st r s = Inr (b, st', r', rest) \<and> parser_inv st' r' \<and> s = u @ rest \<and>
     req_content r' = (if b = TriTrue then rest else [])"
  using assms
proof (induction s arbitrary: st r)
  case (Cons c s)
  obtain b st1 r1 where c: "consume st r c = Inr (b, st1, r1)" "parser_inv st1 r1" "req_content r1 = []"
    using consume_inv [OF Cons.prems(1), of c] Cons.prems(2) by auto
  show ?case
  proof (cases b)
    case Indeterminate
    obtain b' st' r' rest u where "parse st1 r1 s = Inr (b', st', r', rest)" "parser_inv st' r'" "s = u @ rest"
      "req_content r' = (if b' = TriTrue then rest else [])"
      using Cons.IH [OF c(2,3)] by blast
    then show ?thesis
      using c Indeterminate by (intro exI [of _ b'] exI [of _ st'] exI [of _ r'] exI [of _ rest] exI [of _ "c # u"]) auto
  qed (use c in auto)
qed simp

text \<open>C18.  On every input the parser returns without using a header that does not exist.  What it
  has read is a request whose method and header names are made of token characters, whose URI has
  no space and no control character and whose header values have no control character (so no line
  break); the data it has not looked at is a suffix of the input, and it is the content of the
  request exactly when the request is complete.\<close>

theorem parser_safe:
  "\<exists>b st r rest u. parse method_start (fresh_request x y) s = Inr (b, st, r, rest) \<and> request_ok r \<and>
     s = u @ rest \<and> req_content r = (if b = TriTrue then rest else [])"
  using parse_inv [OF fresh_inv, of x y s]
  by (fastforce simp: fresh_request_def parser_inv_def)

section \<open>Printing and parsing\<close>

definition crlf :: bytes where
  "crlf = [CR, NL]"

definition render_header :: "header \<Rightarrow> bytes" where
  "render_header h = name h @ '': '' @ val h @ crlf"

definition render :: "bytes \<Rightarrow> bytes \<Rightarrow> nat \<Rightarrow> nat \<Rightarrow> header list \<Rightarrow> bytes" where
  "render m u major minor hs =
     m @ '' '' @ u @ '' HTTP/'' @ show_nat major @ ''.'' @ show_nat minor @ crlf @
     concat (map render_header hs) @ crlf"

lemma feeds_one: "consume st r c = Inr (Indeterminate, st1, r1) \<Longrightarrow> feeds st r [c] st1 r1"
  by (auto intro: feeds.intros)

lemma feeds_method:
  "list_all (\<lambda>c. \<not> not_token c) cs \<Longrightarrow> feeds in_method r cs in_method (r\<lparr>req_method := req_method r @ cs\<rparr>)"
proof (induction cs arbitrary: r)
  case (Cons c cs)
  then show ?case
    using Cons.IH [of "r\<lparr>req_method := req_method r @ [c]\<rparr>"]
    by (auto simp: feeds_Cons_iff consume_def next_st_def)
qed simp

lemma feeds_uri:
  "list_all (\<lambda>c. \<not> ctl c \<and> c \<noteq> SP) cs \<Longrightarrow> feeds uri r cs uri (r\<lparr>req_uri := req_uri r @ cs\<rparr>)"
proof (induction cs arbitrary: r)
  case (Cons c cs)
  then show ?case
    using Cons.IH [of "r\<lparr>req_uri := req_uri r @ [c]\<rparr>"]
    by (auto simp: feeds_Cons_iff consume_def next_st_def)
qed simp

lemma is_digit_ch_eq: "is_digit_ch c = is_digit c"
proof -
  have "n < 256 \<Longrightarrow> (48 \<le> (if n < 128 then int n else int n - 256) \<and>
      (if n < 128 then int n else int n - 256) \<le> 57) = (48 \<le> n \<and> n \<le> 57)" for n
    by auto
  from this [of "of_char c"] show ?thesis
    by (simp only: is_digit_ch_def is_digit_def schar_def Let_def nat_of_char_less_256 simp_thms)
qed

lemma digit_not_dot: "is_digit c \<Longrightarrow> c \<noteq> CHR ''.'' \<and> c \<noteq> CR"
  by (auto simp: is_digit_def)

lemma feeds_major:
  "list_all is_digit cs \<Longrightarrow> feeds http_version_major r cs http_version_major
     (r\<lparr>req_http_version_major := foldl version_digit (req_http_version_major r) cs\<rparr>)"
proof (induction cs arbitrary: r)
  case (Cons c cs)
  then show ?case
    using Cons.IH [of "r\<lparr>req_http_version_major := version_digit (req_http_version_major r) c\<rparr>"]
    by (auto simp: feeds_Cons_iff consume_def next_st_def is_digit_ch_eq digit_not_dot)
qed simp

lemma feeds_minor:
  "list_all is_digit cs \<Longrightarrow> feeds http_version_minor r cs http_version_minor
     (r\<lparr>req_http_version_minor := foldl version_digit (req_http_version_minor r) cs\<rparr>)"
proof (induction cs arbitrary: r)
  case (Cons c cs)
  then show ?case
    using Cons.IH [of "r\<lparr>req_http_version_minor := version_digit (req_http_version_minor r) c\<rparr>"]
    by (auto simp: feeds_Cons_iff consume_def next_st_def is_digit_ch_eq digit_not_dot)
qed simp

lemma version_digit_digit: "is_digit c \<Longrightarrow> version_digit (word_of_nat n) c = word_of_nat (10 * n + digit_val c)"
proof -
  assume c: "is_digit c"
  then have "schar c = int (digit_val c) + 48" by (simp add: schar_def is_digit_def digit_val_def Let_def)
  then show ?thesis by (simp add: version_digit_def algebra_simps)
qed

lemma version_digits:
  "list_all is_digit cs \<Longrightarrow>
     foldl version_digit (word_of_nat n) cs = word_of_nat (foldl (\<lambda>n c. 10 * n + digit_val c) n cs)"
  by (induction cs arbitrary: n) (simp_all add: version_digit_digit del: of_nat_add of_nat_mult)

lemma version_show_nat: "foldl version_digit 0 (show_nat n) = word_of_nat n"
proof -
  have "list_all is_digit (show_nat n)" by (simp add: list_all_iff show_nat_digits)
  then show ?thesis
    using version_digits [of "show_nat n" 0] digits_val_show_nat [of n] by (simp add: digits_val_def)
qed

lemma feeds_name:
  "list_all (\<lambda>c. \<not> not_token c) cs \<Longrightarrow> CHR '':'' \<notin> set cs \<Longrightarrow> req_headers r = hs @ [h] \<Longrightarrow>
     feeds header_name r cs header_name (r\<lparr>req_headers := hs @ [h\<lparr>name := name h @ cs\<rparr>]\<rparr>)"
proof (induction cs arbitrary: r h)
  case (Cons c cs)
  then show ?case
    using Cons.IH [of "r\<lparr>req_headers := hs @ [h\<lparr>name := name h @ [c]\<rparr>]\<rparr>" "h\<lparr>name := name h @ [c]\<rparr>"]
    by (auto simp: feeds_Cons_iff consume_def next_st_def push_eq)
qed simp

lemma feeds_value:
  "list_all (\<lambda>c. \<not> ctl c) cs \<Longrightarrow> req_headers r = hs @ [h] \<Longrightarrow>
     feeds header_value r cs header_value (r\<lparr>req_headers := hs @ [h\<lparr>val := val h @ cs\<rparr>]\<rparr>)"
proof (induction cs arbitrary: r h)
  case (Cons c cs)
  have "c \<noteq> CR" using Cons.prems using not_token_CR(2) by auto
  then show ?case
    using Cons Cons.IH [of "r\<lparr>req_headers := hs @ [h\<lparr>val := val h @ [c]\<rparr>]\<rparr>" "h\<lparr>val := val h @ [c]\<rparr>"]
    by (auto simp: feeds_Cons_iff consume_def next_st_def push_eq)
qed simp

lemma colon_not_token: "list_all (\<lambda>c. \<not> not_token c) cs \<Longrightarrow> CHR '':'' \<notin> set cs"
  by (auto simp: list_all_iff not_token_def is_tspecial_def tspecials_def)

text \<open>One header line takes the parser from the start of a line to the start of the next.\<close>

lemma feeds_header:
  assumes "header_ok h"
  shows "feeds header_line_start r (render_header h) header_line_start
     (r\<lparr>req_headers := req_headers r @ [h]\<rparr>)"
proof -
  obtain c cs where n: "name h = c # cs" "\<not> not_token c" "list_all (\<lambda>c. \<not> not_token c) cs"
    using assms by (cases "name h") (auto simp: header_ok_def)
  have c: "c \<noteq> CR" "c \<noteq> SP" "c \<noteq> TAB"
    using n(2) by (auto)
  let ?r1 = "r\<lparr>req_headers := req_headers r @ [\<lparr>name = [c], val = []\<rparr>]\<rparr>"
  let ?r2 = "r\<lparr>req_headers := req_headers r @ [\<lparr>name = name h, val = []\<rparr>]\<rparr>"
  let ?r3 = "r\<lparr>req_headers := req_headers r @ [h]\<rparr>"
  have "feeds header_line_start r [c] header_name ?r1"
    using n c by (intro feeds_one) (simp add: consume_def next_st_def push_eq)
  moreover have "feeds header_name ?r1 cs header_name ?r2"
    using feeds_name [OF n(3) colon_not_token [OF n(3)], of ?r1 "req_headers r" "\<lparr>name = [c], val = []\<rparr>"] n
    by simp
  moreover have "feeds header_name ?r2 '': '' header_value ?r2"
    by (simp add: feeds_Cons_iff consume_def next_st_def)
  moreover have "feeds header_value ?r2 (val h) header_value ?r3"
    using feeds_value [of "val h" ?r2 "req_headers r" "\<lparr>name = name h, val = []\<rparr>"] assms
    by (cases h) (simp add: header_ok_def)
  moreover have "feeds header_value ?r3 crlf header_line_start ?r3"
    by (simp add: crlf_def feeds_Cons_iff consume_def next_st_def)
  ultimately have "feeds header_line_start r ([c] @ cs @ '': '' @ val h @ crlf) header_line_start ?r3"
    by (meson feeds_append)
  then show ?thesis by (simp add: render_header_def n)
qed

lemma feeds_headers:
  "list_all header_ok hs \<Longrightarrow> feeds header_line_start r (concat (map render_header hs)) header_line_start
     (r\<lparr>req_headers := req_headers r @ hs\<rparr>)"
proof (induction hs arbitrary: r)
  case (Cons h hs)
  then show ?case
    using feeds_append [OF feeds_header [of h r]] Cons.IH [of "r\<lparr>req_headers := req_headers r @ [h]\<rparr>"]
    by auto
qed simp

lemma feeds_request_line:
  assumes m: "m \<noteq> []" "list_all (\<lambda>c. \<not> not_token c) m"
    and u: "list_all (\<lambda>c. \<not> ctl c \<and> c \<noteq> SP) u"
  shows "feeds method_start r (m @ '' '' @ u @ '' HTTP/'') http_version_major_start
     (r\<lparr>req_method := req_method r @ m, req_uri := req_uri r @ u,
        req_http_version_major := 0, req_http_version_minor := 0\<rparr>)"
proof -
  obtain c cs where m': "m = c # cs" using m(1) by (cases m) auto
  have "feeds method_start r [c] in_method (r\<lparr>req_method := req_method r @ [c]\<rparr>)"
    using m by (intro feeds_one) (simp add: m' consume_def next_st_def)
  moreover have "feeds in_method (r\<lparr>req_method := req_method r @ [c]\<rparr>) cs in_method
      (r\<lparr>req_method := req_method r @ m\<rparr>)"
    using feeds_method [of cs "r\<lparr>req_method := req_method r @ [c]\<rparr>"] m by (simp add: m')
  moreover have "feeds in_method (r\<lparr>req_method := req_method r @ m\<rparr>) '' '' uri (r\<lparr>req_method := req_method r @ m\<rparr>)"
    by (simp add: feeds_Cons_iff consume_def next_st_def)
  moreover have "feeds uri (r\<lparr>req_method := req_method r @ m\<rparr>) u uri
      (r\<lparr>req_method := req_method r @ m, req_uri := req_uri r @ u\<rparr>)"
    using feeds_uri [OF u, of "r\<lparr>req_method := req_method r @ m\<rparr>"] by simp
  moreover have "feeds uri (r\<lparr>req_method := req_method r @ m, req_uri := req_uri r @ u\<rparr>) '' HTTP/''
      http_version_major_start (r\<lparr>req_method := req_method r @ m, req_uri := req_uri r @ u,
        req_http_version_major := 0, req_http_version_minor := 0\<rparr>)"
    by (simp add: feeds_Cons_iff consume_def next_st_def)
  ultimately have "feeds method_start r ([c] @ cs @ '' '' @ u @ '' HTTP/'') http_version_major_start
      (r\<lparr>req_method := req_method r @ m, req_uri := req_uri r @ u,
        req_http_version_major := 0, req_http_version_minor := 0\<rparr>)"
    by (meson feeds_append)
  then show ?thesis by (simp add: m')
qed

lemma feeds_version:
  assumes "req_http_version_major r = 0" and "req_http_version_minor r = 0"
  shows "feeds http_version_major_start r (show_nat major @ ''.'' @ show_nat minor @ crlf) header_line_start
     (r\<lparr>req_http_version_major := word_of_nat major, req_http_version_minor := word_of_nat minor\<rparr>)"
proof -
  obtain a as where a: "show_nat major = a # as" "is_digit a" "list_all is_digit as"
    using show_nat_hd [of major] show_nat_digits [of _ major] by (auto simp: list_all_iff)
  obtain b bs where b: "show_nat minor = b # bs" "is_digit b" "list_all is_digit bs"
    using show_nat_hd [of minor] show_nat_digits [of _ minor] by (auto simp: list_all_iff)
  let ?r1 = "r\<lparr>req_http_version_major := word_of_nat major\<rparr>"
  let ?r2 = "r\<lparr>req_http_version_major := word_of_nat major, req_http_version_minor := word_of_nat minor\<rparr>"
  have va: "foldl version_digit (version_digit 0 a) as = word_of_nat major"
    using version_show_nat [of major] a by simp
  have vb: "foldl version_digit (version_digit 0 b) bs = word_of_nat minor"
    using version_show_nat [of minor] b by simp
  have "feeds http_version_major_start r [a] http_version_major
      (r\<lparr>req_http_version_major := version_digit 0 a\<rparr>)"
    using a assms by (intro feeds_one) (simp add: consume_def next_st_def is_digit_ch_eq)
  moreover have "feeds http_version_major (r\<lparr>req_http_version_major := version_digit 0 a\<rparr>) as
      http_version_major ?r1"
    using feeds_major [OF a(3), of "r\<lparr>req_http_version_major := version_digit 0 a\<rparr>"] va by simp
  moreover have "feeds http_version_major ?r1 ''.'' http_version_minor_start ?r1"
    by (simp add: feeds_Cons_iff consume_def next_st_def)
  moreover have "feeds http_version_minor_start ?r1 [b] http_version_minor
      (?r1\<lparr>req_http_version_minor := version_digit 0 b\<rparr>)"
    using b assms by (intro feeds_one) (simp add: consume_def next_st_def is_digit_ch_eq)
  moreover have "feeds http_version_minor (?r1\<lparr>req_http_version_minor := version_digit 0 b\<rparr>) bs
      http_version_minor ?r2"
    using feeds_minor [OF b(3), of "?r1\<lparr>req_http_version_minor := version_digit 0 b\<rparr>"] vb by simp
  moreover have "feeds http_version_minor ?r2 crlf header_line_start ?r2"
    by (simp add: crlf_def feeds_Cons_iff consume_def next_st_def)
  ultimately have "feeds http_version_major_start r ([a] @ as @ ''.'' @ [b] @ bs @ crlf) header_line_start ?r2"
    by (meson feeds_append)
  then show ?thesis by (simp add: a b)
qed

lemma feeds_render:
  assumes "m \<noteq> []" and "list_all (\<lambda>c. \<not> not_token c) m"
    and "list_all (\<lambda>c. \<not> ctl c \<and> c \<noteq> SP) u" and "list_all header_ok hs"
  shows "feeds method_start (fresh_request x y) (butlast (render m u major minor hs)) expecting_newline_3
     \<lparr>req_method = m, req_uri = u, req_http_version_major = word_of_nat major,
      req_http_version_minor = word_of_nat minor, req_headers = hs, req_content = []\<rparr>"
proof -
  let ?r = "\<lambda>a b hs. \<lparr>req_method = m, req_uri = u, req_http_version_major = a,
      req_http_version_minor = b, req_headers = hs, req_content = []\<rparr>"
  have 1: "feeds method_start (fresh_request x y) (m @ '' '' @ u @ '' HTTP/'') http_version_major_start (?r 0 0 [])"
    using feeds_request_line [OF assms(1-3), of "fresh_request x y"] by (simp add: fresh_request_def)
  have 2: "feeds http_version_major_start (?r 0 0 []) (show_nat major @ ''.'' @ show_nat minor @ crlf)
      header_line_start (?r (word_of_nat major) (word_of_nat minor) [])"
    using feeds_version [of "?r 0 0 []" major minor] by simp
  have 3: "feeds header_line_start (?r (word_of_nat major) (word_of_nat minor) [])
      (concat (map render_header hs)) header_line_start (?r (word_of_nat major) (word_of_nat minor) hs)"
    using feeds_headers [OF assms(4), of "?r (word_of_nat major) (word_of_nat minor) []"] by simp
  have 4: "feeds header_line_start (?r (word_of_nat major) (word_of_nat minor) hs) [CR] expecting_newline_3
      (?r (word_of_nat major) (word_of_nat minor) hs)"
    by (simp add: feeds_Cons_iff consume_def next_st_def)
  have "butlast (render m u major minor hs) = (m @ '' '' @ u @ '' HTTP/'') @
      (show_nat major @ ''.'' @ show_nat minor @ crlf) @ concat (map render_header hs) @ [CR]"
    by (simp add: render_def crlf_def butlast_append)
  then show ?thesis using feeds_append [OF 1 feeds_append [OF 2 feeds_append [OF 3 4]]] by simp
qed

lemma render_split: "render m u major minor hs = butlast (render m u major minor hs) @ [NL]"
  by (simp add: render_def crlf_def butlast_append)

text \<open>C5.  Printing a request and parsing it gives the request back: method (a non-empty token),
  URI (which may be empty: the state \<open>uri_start\<close> is never entered), version numbers modulo
  \<open>2^32\<close> and headers, with whatever follows the blank line in the buffer as the content.\<close>

theorem parse_render:
  assumes "m \<noteq> []" and "list_all (\<lambda>c. \<not> not_token c) m"
    and "list_all (\<lambda>c. \<not> ctl c \<and> c \<noteq> SP) u" and "list_all header_ok hs"
  shows "parse method_start (fresh_request x y) (render m u major minor hs @ body) =
     Inr (TriTrue, expecting_newline_3,
       \<lparr>req_method = m, req_uri = u, req_http_version_major = word_of_nat major,
        req_http_version_minor = word_of_nat minor, req_headers = hs, req_content = body\<rparr>, body)"
proof -
  let ?p = "butlast (render m u major minor hs)"
  have body: "render m u major minor hs @ body = ?p @ NL # body"
    using render_split [of m u major minor hs] by simp
  show ?thesis
    unfolding body
    using feeds_parse [OF feeds_render [OF assms], of x y major minor "NL # body"]
    by (simp add: consume_def)
qed

lemma parse_render_witness:
  "parse method_start (fresh_request 7 7)
     (render ''POST'' ''/cmd?1'' 1 0 [\<lparr>name = ''Host'', val = ''x''\<rparr>] @ ''body'') =
     Inr (TriTrue, expecting_newline_3,
       \<lparr>req_method = ''POST'', req_uri = ''/cmd?1'', req_http_version_major = word_of_nat 1,
        req_http_version_minor = word_of_nat 0, req_headers = [\<lparr>name = ''Host'', val = ''x''\<rparr>],
        req_content = ''body''\<rparr>, ''body'')"
  by (rule parse_render)
    (simp_all add: not_token_def is_char_def is_ctl_def is_tspecial_def tspecials_def schar_def header_ok_def)

end
