(* ===== verification/HttpReply.thy ===== *)
theory HttpReply
  imports HttpParser
begin

text \<open>
  \<open>httpd/server/reply.cpp\<close> and \<open>mime_types.cpp\<close>: the status lines, the stock pages, the buffers a
  reply is written as, and the MIME types.  \<open>read_head\<close> is the client's side, a reader of lines up
  to the blank one; the lemmas show that a reply is framed the way its headers say.
\<close>

section \<open>Replies\<close>

datatype status_type =
    Ok | Created | Accepted | No_content | Multiple_choices
  | Moved_permanently | Moved_temporarily | Not_modified | Bad_request | Unauthorized
  | Forbidden | Not_found | Internal_server_error | Not_implemented
  | Bad_gateway | Service_unavailable

record reply =
  status :: status_type
  rep_headers :: "header list"
  content :: bytes

text \<open>The numbers of the enumeration.\<close>

fun status_code :: "status_type \<Rightarrow> nat" where
  "status_code Ok = 200"
| "status_code Created = 201"
| "status_code Accepted = 202"
| "status_code No_content = 204"
| "status_code Multiple_choices = 300"
| "status_code Moved_permanently = 301"
| "status_code Moved_temporarily = 302"
| "status_code Not_modified = 304"
| "status_code Bad_request = 400"
| "status_code Unauthorized = 401"
| "status_code Forbidden = 403"
| "status_code Not_found = 404"
| "status_code Internal_server_error = 500"
| "status_code Not_implemented = 501"
| "status_code Bad_gateway = 502"
| "status_code Service_unavailable = 503"

text \<open>\<open>status_strings::to_buffer\<close>.\<close>

fun status_line :: "status_type \<Rightarrow> bytes" where
  "status_line Ok = ''HTTP/1.0 200 OK'' @ crlf"
| "status_line Created = ''HTTP/1.0 201 Created'' @ crlf"
| "status_line Accepted = ''HTTP/1.0 202 Accepted'' @ crlf"
| "status_line No_content = ''HTTP/1.0 204 No Content'' @ crlf"
| "status_line Multiple_choices = ''HTTP/1.0 300 Multiple Choices'' @ crlf"
| "status_line Moved_permanently = ''HTTP/1.0 301 Moved Permanently'' @ crlf"
| "status_line Moved_temporarily = ''HTTP/1.0 302 Moved Temporarily'' @ crlf"
| "status_line Not_modified = ''HTTP/1.0 304 Not Modified'' @ crlf"
| "status_line Bad_request = ''HTTP/1.0 400 Bad Request'' @ crlf"
| "status_line Unauthorized = ''HTTP/1.0 401 Unauthorized'' @ crlf"
| "status_line Forbidden = ''HTTP/1.0 403 Forbidden'' @ crlf"
| "status_line Not_found = ''HTTP/1.0 404 Not Found'' @ crlf"
| "status_line Internal_server_error = ''HTTP/1.0 500 Internal Server Error'' @ crlf"
| "status_line Not_implemented = ''HTTP/1.0 501 Not Implemented'' @ crlf"
| "status_line Bad_gateway = ''HTTP/1.0 502 Bad Gateway'' @ crlf"
| "status_line Service_unavailable = ''HTTP/1.0 503 Service Unavailable'' @ crlf"

definition name_value_separator :: bytes where
  "name_value_separator = '': ''"

text \<open>\<open>reply::to_buffers\<close>: the buffers in the order they are sent.\<close>

definition to_buffers :: "reply \<Rightarrow> bytes list" where
  "to_buffers rep =
     [status_line (status rep)] @
     concat (map (\<lambda>h. [name h, name_value_separator, val h, crlf]) (rep_headers rep)) @
     [crlf, content rep]"

text \<open>\<open>stock_replies::to_string\<close>.\<close>

fun stock_content :: "status_type \<Rightarrow> bytes" where
  "stock_content Ok = []"
| "stock_content Created =
     ''<html><head><title>Created</title></head><body><h1>201 Created</h1></body></html>''"
| "stock_content Accepted =
     ''<html><head><title>Accepted</title></head><body><h1>202 Accepted</h1></body></html>''"
| "stock_content No_content =
     ''<html><head><title>No Content</title></head><body><h1>204 Content</h1></body></html>''"
| "stock_content Multiple_choices =
     ''<html><head><title>Multiple Choices</title></head><body><h1>300 Multiple Choices</h1></body></html>''"
| "stock_content Moved_permanently =
     ''<html><head><title>Moved Permanently</title></head><body><h1>301 Moved Permanently</h1></body></html>''"
| "stock_content Moved_temporarily =
     ''<html><head><title>Moved Temporarily</title></head><body><h1>302 Moved Temporarily</h1></body></html>''"
| "stock_content Not_modified =
     ''<html><head><title>Not Modified</title></head><body><h1>304 Not Modified</h1></body></html>''"
| "stock_content Bad_request =
     ''<html><head><title>Bad Request</title></head><body><h1>400 Bad Request</h1></body></html>''"
| "stock_content Unauthorized =
     ''<html><head><title>Unauthorized</title></head><body><h1>401 Unauthorized</h1></body></html>''"
| "stock_content Forbidden =
     ''<html><head><title>Forbidden</title></head><body><h1>403 Forbidden</h1></body></html>''"
| "stock_content Not_found =
     ''<html><head><title>Not Found</title></head><body><h1>404 Not Found</h1></body></html>''"
| "stock_content Internal_server_error =
     ''<html><head><title>Internal Server Error</title></head><body><h1>500 Internal Server Error</h1></body></html>''"
| "stock_content Not_implemented =
     ''<html><head><title>Not Implemented</title></head><body><h1>501 Not Implemented</h1></body></html>''"
| "stock_content Bad_gateway =
     ''<html><head><title>Bad Gateway</title></head><body><h1>502 Bad Gateway</h1></body></html>''"
| "stock_content Service_unavailable =
     ''<html><head><title>Service Unavailable</title></head><body><h1>503 Service Unavailable</h1></body></html>''"

definition stock_reply :: "status_type \<Rightarrow> reply" where
  "stock_reply st =
     (let c = stock_content st
      in \<lparr>status = st,
          rep_headers = [\<lparr>name = ''Content-Length'', val = show_nat (length c)\<rparr>,
                         \<lparr>name = ''Content-Type'', val = ''text/html''\<rparr>],
          content = c\<rparr>)"

section \<open>MIME types\<close>

definition mappings :: "(bytes \<times> bytes) list" where
  "mappings = [(''gif'', ''image/gif''), (''htm'', ''text/html''), (''html'', ''text/html''),
     (''jpg'', ''image/jpeg''), (''png'', ''image/png'')]"

definition extension_to_type :: "bytes \<Rightarrow> bytes" where
  "extension_to_type extension =
     (case map_of mappings extension of Some t \<Rightarrow> t | None \<Rightarrow> ''text/plain'')"

section \<open>Reading a reply\<close>

text \<open>A client reads lines that end in CR LF until an empty one; the rest is the body.\<close>

function read_head :: "bytes \<Rightarrow> (bytes list \<times> bytes) option" where
  "read_head s =
     (case find_first crlf s of
        None \<Rightarrow> None
      | Some i \<Rightarrow>
          (if i = 0 then Some ([], drop 2 s)
           else map_option (\<lambda>(ls, body). (take i s # ls, body)) (read_head (drop (i + 2) s))))"
  by pat_completeness auto
termination
  by (relation "measure length")
    (auto simp: crlf_def prefix_def dest!: find_first_SomeD split: nat_diff_split)

declare read_head.simps [simp del]

lemma find_first_crlf: "CR \<notin> set l \<Longrightarrow> find_first crlf (l @ crlf @ r) = Some (length l)"
  by (induction l) (auto simp: crlf_def)

lemma read_head_line:
  "CR \<notin> set l \<Longrightarrow> l \<noteq> [] \<Longrightarrow>
     read_head (l @ crlf @ r) = map_option (\<lambda>(ls, body). (l # ls, body)) (read_head r)"
  by (subst read_head.simps) (simp add: find_first_crlf, simp add: crlf_def)

lemma read_head_blank: "read_head (crlf @ r) = Some ([], r)"
  using find_first_crlf [of "[]" r] by (subst read_head.simps) (simp, simp add: crlf_def)

definition header_line :: "header \<Rightarrow> bytes" where
  "header_line h = name h @ '': '' @ val h"

lemma read_head_lines:
  "\<forall>l \<in> set ls. CR \<notin> set l \<and> l \<noteq> [] \<Longrightarrow> read_head (concat (map (\<lambda>l. l @ crlf) ls) @ crlf @ body) = Some (ls, body)"
  by (induction ls) (simp_all add: read_head_line read_head_blank)

definition status_text :: "status_type \<Rightarrow> bytes" where
  "status_text st = butlast (butlast (status_line st))"

lemma status_line_eq: "status_line st = status_text st @ crlf"
  by (cases st) (simp_all add: status_text_def crlf_def butlast_append)

lemma status_text_ok: "CR \<notin> set (status_text st) \<and> status_text st \<noteq> []"
  by (cases st) (simp_all add: status_text_def crlf_def butlast_append)

lemma concat_header_buffers:
  "concat (concat (map (\<lambda>h. [name h, name_value_separator, val h, crlf]) hs)) =
     concat (map (\<lambda>h. header_line h @ crlf) hs)"
  by (induction hs) (simp_all add: header_line_def name_value_separator_def)

lemma reply_read_back':
  assumes "\<forall>h \<in> set (rep_headers rep). CR \<notin> set (name h) \<and> CR \<notin> set (val h)"
  shows "read_head (concat (to_buffers rep)) =
     Some (status_text (status rep) # map header_line (rep_headers rep), content rep)"
proof -
  have "concat (to_buffers rep) =
      concat (map (\<lambda>l. l @ crlf) (status_text (status rep) # map header_line (rep_headers rep))) @ crlf @ content rep"
    by (simp add: to_buffers_def status_line_eq concat_header_buffers comp_def)
  moreover have "\<forall>l \<in> set (status_text (status rep) # map header_line (rep_headers rep)). CR \<notin> set l \<and> l \<noteq> []"
    using assms status_text_ok by (auto simp: header_line_def)
  ultimately show ?thesis by (metis read_head_lines)
qed

text \<open>C15.  A reply whose header fields hold no carriage return is read back from the bytes that are
  written for it: the status line, one line per header and exactly the content.\<close>

theorem reply_read_back:
  assumes "\<forall>h \<in> set (rep_headers rep). CR \<notin> set (name h) \<and> CR \<notin> set (val h)"
  shows "read_head (concat (to_buffers rep)) =
     Some (status_text (status rep) # map header_line (rep_headers rep), content rep)"
  using assms by (rule reply_read_back')

lemma reply_read_back_witness:
  "read_head (concat (to_buffers (stock_reply Not_found))) =
     Some ([''HTTP/1.0 404 Not Found'', ''Content-Length: 85'', ''Content-Type: text/html''],
       stock_content Not_found)"
  using reply_read_back [of "stock_reply Not_found"] by code_simp

end
