(* ===== verification/HttpHandler.thy ===== *)
theory HttpHandler
  imports HttpReply CxxMap
begin

text \<open>
  \<open>httpd/server/request_handler.cpp\<close>, \<open>handle_command.hpp\<close> and \<open>connection.cpp\<close>: decoding the URI,
  finding the commands in it, running them or serving a document, and the read loop of a
  connection.  The file system is a parameter \<open>fs\<close> (the content of the file a C path names), the
  dynamically loaded command objects are the parameters \<open>create\<close> (\<open>Configer::CreateObject\<close>) and
  \<open>call\<close> (the virtual \<open>handle\<close>), which act on a state of their own.
\<close>

section \<open>\<open>url_decode\<close>\<close>

text \<open>
  \<open>is >> std::hex >> value\<close> on two bytes: white space is skipped, a sign is accepted, digits are
  read as far as they go, and \<open>0x\<close> without a digit fails.
\<close>

definition read_hex2 :: "char \<Rightarrow> char \<Rightarrow> int option" where
  "read_hex2 a b =
     (if a \<in> set white_space \<or> a = CHR ''+'' then hex_val b
      else if a = CHR ''-'' then map_option uminus (hex_val b)
      else if a = CHR ''0'' \<and> (b = CHR ''x'' \<or> b = CHR ''X'') then None
      else case hex_val a of
             None \<Rightarrow> None
           | Some x \<Rightarrow> (case hex_val b of None \<Rightarrow> Some x | Some y \<Rightarrow> Some (16 * x + y)))"

text \<open>\<open>static_cast<char>(value)\<close>.\<close>

definition char_of_int :: "int \<Rightarrow> char" where
  "char_of_int v = char_of (nat (v mod 256))"

fun url_decode :: "bytes \<Rightarrow> bytes option" where
  "url_decode [] = Some []"
| "url_decode (c # cs) =
     (if c = CHR ''%'' then
        (case cs of
           a # b # cs' \<Rightarrow>
             (case read_hex2 a b of
                Some v \<Rightarrow> map_option ((#) (char_of_int v)) (url_decode cs')
              | None \<Rightarrow> None)
         | _ \<Rightarrow> None)
      else if c = CHR ''+'' then map_option ((#) SP) (url_decode cs)
      else map_option ((#) c) (url_decode cs))"

text \<open>
  The encodings of a string: a byte may stand for itself unless it is \<open>%\<close> or \<open>+\<close>, a space may be
  written \<open>+\<close>, and any byte may be written as \<open>%\<close> and two hexadecimal digits.
\<close>

inductive url_encodes :: "bytes \<Rightarrow> bytes \<Rightarrow> bool" where
  enc_Nil: "url_encodes [] []"
| enc_plain: "c \<noteq> CHR ''%'' \<Longrightarrow> c \<noteq> CHR ''+'' \<Longrightarrow> url_encodes s t \<Longrightarrow> url_encodes (c # s) (c # t)"
| enc_plus: "url_encodes s t \<Longrightarrow> url_encodes (SP # s) (CHR ''+'' # t)"
| enc_hex: "hex_val a = Some x \<Longrightarrow> hex_val b = Some y \<Longrightarrow> int (of_char c) = 16 * x + y \<Longrightarrow>
     url_encodes s t \<Longrightarrow> url_encodes (c # s) (CHR ''%'' # a # b # t)"

lemma hex_val_not:
  "hex_val a = Some x \<Longrightarrow> a \<notin> set white_space \<and> a \<noteq> CHR ''+'' \<and> a \<noteq> CHR ''-''"
  "hex_val CHR ''x'' = None" "hex_val CHR ''X'' = None"
  by (auto simp: hex_val_def is_digit_def white_space_def)

lemma read_hex2_digits: "hex_val a = Some x \<Longrightarrow> hex_val b = Some y \<Longrightarrow> read_hex2 a b = Some (16 * x + y)"
  using hex_val_not(1) [of a x] hex_val_not(2,3) by (auto simp: read_hex2_def)

lemma char_of_int_of_char [simp]: "char_of_int (int (of_char c)) = c"
proof -
  have "int (of_char c) mod 256 = int (of_char c)"
    using nat_of_char_less_256 [of c] by (metis mod_pos_pos_trivial of_nat_0_le_iff of_nat_less_iff of_nat_numeral)
  then show ?thesis by (simp only: char_of_int_def nat_int char_of_char)
qed

lemma decode_encoded: "url_encodes s t \<Longrightarrow> url_decode t = Some s"
proof (induction rule: url_encodes.induct)
  case (enc_hex a x b y c s t)
  then have "char_of_int (16 * x + y) = c" by (metis char_of_int_of_char)
  with enc_hex show ?case by (simp add: read_hex2_digits)
qed simp_all

text \<open>C34.  Decoding gives back every string from each of its URL encodings.\<close>

theorem url_decode_encodes: "url_encodes s t \<Longrightarrow> url_decode t = Some s"
  by (rule decode_encoded)

lemma url_decode_encodes_witness: "url_decode ''/a%2Fb+c%2b'' = Some ''/a/b c+''"
proof (rule url_decode_encodes)
  have h: "hex_val CHR ''2'' = Some 2" "hex_val CHR ''F'' = Some 15" "hex_val CHR ''b'' = Some 11"
    by (simp_all add: hex_val_def is_digit_def digit_val_def)
  show "url_encodes ''/a/b c+'' ''/a%2Fb+c%2b''"
    by (rule enc_plain enc_plus enc_Nil enc_hex [OF h(1) h(2)] enc_hex [OF h(1) h(3)] | simp)+
qed

section \<open>\<open>url_GetCommand\<close>\<close>

definition add_command :: "bytes \<Rightarrow> (bytes, bytes) cmap \<Rightarrow> (bytes, bytes) cmap" where
  "add_command part cmd =
     (if 0 < length part then
        let v = split_on (CHR ''?'') part
        in if 1 < length v then cmap_insert (v ! 0) (v ! 1) cmd else cmd
      else cmd)"

definition url_GetCommand :: "bytes \<Rightarrow> (bytes, bytes) cmap" where
  "url_GetCommand s = fold add_command (split_on (CHR ''/'') s) []"

section \<open>Running commands\<close>

text \<open>\<open>handle_command\<close>: the objects created so far, by name, and the state the objects act on.\<close>

record ('h, 'w) command_state =
  cmds :: "(bytes, 'h) cmap"
  world :: 'w

type_synonym ('h, 'w) creator = "bytes \<Rightarrow> 'w \<Rightarrow> 'h option \<times> 'w"
type_synonym ('h, 'w) caller = "'h \<Rightarrow> bytes \<Rightarrow> bytes \<Rightarrow> 'w \<Rightarrow> bytes \<times> 'w"

definition RegisterCmd :: "('h, 'w) creator \<Rightarrow> bytes \<Rightarrow> ('h, 'w) command_state \<Rightarrow> bool \<times> ('h, 'w) command_state" where
  "RegisterCmd create cmd cs =
     (case create cmd (world cs) of
        (Some h, w) \<Rightarrow> (True, cs\<lparr>cmds := cmap_insert cmd h (cmds cs), world := w\<rparr>)
      | (None, w) \<Rightarrow> (False, cs\<lparr>world := w\<rparr>))"

definition fire :: "('h, 'w) caller \<Rightarrow> 'h \<Rightarrow> bytes \<Rightarrow> bytes \<Rightarrow> ('h, 'w) command_state \<Rightarrow> bytes \<times> ('h, 'w) command_state" where
  "fire call h param cont cs =
     (let (ret, w) = call h param cont (world cs) in (ret, cs\<lparr>world := w\<rparr>))"

text \<open>The result is \<open>None\<close> when the command does not exist, and what it returned otherwise.\<close>

definition SigCommand ::
  "('h, 'w) creator \<Rightarrow> ('h, 'w) caller \<Rightarrow> bytes \<Rightarrow> bytes \<Rightarrow> bytes \<Rightarrow> ('h, 'w) command_state \<Rightarrow>
   (bytes option \<times> ('h, 'w) command_state) res" where
  "SigCommand create call cmd param cont cs =
     (case cmap_find (cmds cs) cmd of
        Some h \<Rightarrow> (let (ret, cs') = fire call h param cont cs in Inr (Some ret, cs'))
      | None \<Rightarrow>
          (let (registered, cs') = RegisterCmd create cmd cs
           in if registered then
                (case cmap_find (cmds cs') cmd of
                   Some h \<Rightarrow> (let (ret, cs'') = fire call h param cont cs' in Inr (Some ret, cs''))
                 | None \<Rightarrow> Inl BadIterator)
              else Inr (None, cs')))"

section \<open>\<open>handle_doc\<close>\<close>

definition resize2 :: "header list \<Rightarrow> header list" where
  "resize2 hs = take 2 hs @ replicate (2 - length hs) \<lparr>name = [], val = []\<rparr>"

definition extension_of :: "bytes \<Rightarrow> bytes" where
  "extension_of path =
     (case find_last ''.'' path of
        None \<Rightarrow> []
      | Some last_dot_pos \<Rightarrow>
          (case find_last ''/'' path of
             None \<Rightarrow> []
           | Some last_slash_pos \<Rightarrow>
               (if last_dot_pos > last_slash_pos then drop (last_dot_pos + 1) path else [])))"

definition handle_doc :: "bytes \<Rightarrow> (bytes \<Rightarrow> bytes option) \<Rightarrow> bytes \<Rightarrow> reply \<Rightarrow> reply" where
  "handle_doc doc_root fs requestpath rep =
     (if requestpath = [] \<or> hd requestpath \<noteq> CHR ''/'' \<or> contains ''..'' requestpath
      then stock_reply Bad_request
      else
        let request_path = (if last requestpath = CHR ''/'' then requestpath @ ''index.html'' else requestpath);
            extension = extension_of request_path
        in case fs (c_str (doc_root @ request_path)) of
             None \<Rightarrow> stock_reply Not_found
           | Some data \<Rightarrow>
               (let cont = content rep @ data
                in \<lparr>status = Ok,
                    rep_headers = (resize2 (rep_headers rep))
                      [0 := \<lparr>name = ''Content-Length'', val = show_nat (length cont)\<rparr>,
                       1 := \<lparr>name = ''Content-Type'', val = extension_to_type extension\<rparr>],
                    content = cont\<rparr>))"

section \<open>\<open>handle_request\<close>\<close>

text \<open>The loop over the commands keeps the text written to \<open>ss\<close> and \<open>impCmdCount\<close>.\<close>

definition run_command ::
  "('h, 'w) creator \<Rightarrow> ('h, 'w) caller \<Rightarrow> request \<Rightarrow> bytes \<times> bytes \<Rightarrow>
   bytes \<times> nat \<times> ('h, 'w) command_state \<Rightarrow> (bytes \<times> nat \<times> ('h, 'w) command_state) res" where
  "run_command create call req kv s =
     (let (ss, impCmdCount, cs) = s;
          cont = (if req_method req = ''POST'' then req_content req else [])
      in bindE (SigCommand create call (fst kv) (snd kv) cont cs) (\<lambda>(ret, cs').
           case ret of
             Some r \<Rightarrow> Inr (ss @ r @ [NL], impCmdCount + 1, cs')
           | None \<Rightarrow> Inr (ss, impCmdCount, cs')))"

definition handle_request ::
  "('h, 'w) creator \<Rightarrow> ('h, 'w) caller \<Rightarrow> bytes \<Rightarrow> (bytes \<Rightarrow> bytes option) \<Rightarrow> request \<Rightarrow> reply \<Rightarrow>
   ('h, 'w) command_state \<Rightarrow> (reply \<times> ('h, 'w) command_state) res" where
  "handle_request create call doc_root fs req rep cs =
     (case url_decode (req_uri req) of
        None \<Rightarrow> Inr (stock_reply Bad_request, cs)
      | Some request_path \<Rightarrow>
          (let commands = url_GetCommand request_path
           in if commands = [] then Inr (handle_doc doc_root fs request_path rep, cs)
              else
                bindE (foldE (run_command create call req) commands ([], 0, cs)) (\<lambda>(ss, impCmdCount, cs').
                  if 0 < impCmdCount then
                    (let cont = content rep @ ss
                     in Inr (\<lparr>status = Ok,
                              rep_headers = (resize2 (rep_headers rep))
                                [0 := \<lparr>name = ''Content-Length'', val = show_nat (length cont)\<rparr>],
                              content = cont\<rparr>, cs'))
                  else Inr (stock_reply Service_unavailable, cs'))))"

section \<open>The connection\<close>

record ('h, 'w) connection =
  parser :: parser_state
  conn_request :: request
  conn_reply :: reply
  commands :: "('h, 'w) command_state"

datatype action = Async_write bytes | Async_read | Shutdown | Stop

text \<open>\<open>handle_read\<close> with the error flag and the bytes that were read.\<close>

definition handle_read ::
  "('h, 'w) creator \<Rightarrow> ('h, 'w) caller \<Rightarrow> bytes \<Rightarrow> (bytes \<Rightarrow> bytes option) \<Rightarrow> bool \<Rightarrow> bytes \<Rightarrow>
   ('h, 'w) connection \<Rightarrow> (action \<times> ('h, 'w) connection) res" where
  "handle_read create call doc_root fs e data conn =
     (if e then Inr (Stop, conn)
      else
        bindE (parse (parser conn) (conn_request conn) data) (\<lambda>(result, st, req, rest).
          let conn = conn\<lparr>parser := st, conn_request := req\<rparr>
          in case result of
               TriTrue \<Rightarrow>
                 bindE (handle_request create call doc_root fs req (conn_reply conn) (commands conn)) (\<lambda>(rep, cs).
                   Inr (Async_write (concat (to_buffers rep)), conn\<lparr>conn_reply := rep, commands := cs\<rparr>))
             | TriFalse \<Rightarrow>
                 (let rep = stock_reply Bad_request
                  in Inr (Async_write (concat (to_buffers rep)), conn\<lparr>conn_reply := rep\<rparr>))
             | Indeterminate \<Rightarrow> Inr (Async_read, conn)))"

definition handle_write :: "bool \<Rightarrow> action" where
  "handle_write e = (if e then Stop else Shutdown)"

text \<open>The reads of a connection, one per segment that arrives, until something is written.\<close>

fun serve ::
  "('h, 'w) creator \<Rightarrow> ('h, 'w) caller \<Rightarrow> bytes \<Rightarrow> (bytes \<Rightarrow> bytes option) \<Rightarrow> bytes list \<Rightarrow>
   ('h, 'w) connection \<Rightarrow> (action \<times> ('h, 'w) connection) res" where
  "serve create call doc_root fs [] conn = Inr (Async_read, conn)"
| "serve create call doc_root fs (data # segs) conn =
     bindE (handle_read create call doc_root fs False data conn) (\<lambda>(a, conn').
       if a = Async_read then serve create call doc_root fs segs conn' else Inr (a, conn'))"

definition start_conn :: "32 word \<Rightarrow> 32 word \<Rightarrow> status_type \<Rightarrow> ('h, 'w) command_state \<Rightarrow> ('h, 'w) connection" where
  "start_conn x y st cs =
     \<lparr>parser = method_start, conn_request = fresh_request x y,
      conn_reply = \<lparr>status = st, rep_headers = [], content = []\<rparr>, commands = cs\<rparr>"

section \<open>What the commands in a path are\<close>

definition command_pairs :: "bytes \<Rightarrow> (bytes \<times> bytes) list" where
  "command_pairs s =
     map (\<lambda>v. (v ! 0, v ! 1)) (filter (\<lambda>v. 1 < length v) (map (split_on (CHR ''?'')) (split_on (CHR ''/'') s)))"

lemma split_on_set: "c \<noteq> d \<Longrightarrow> (\<exists>p \<in> set (split_on d s). c \<in> set p) = (c \<in> set s)"
proof (induction s)
  case (Cons x s)
  then show ?case by (cases "split_on d s") auto
qed simp

lemma add_command_eq:
  "add_command part cmd =
     (let v = split_on (CHR ''?'') part in if 1 < length v then cmap_insert (v ! 0) (v ! 1) cmd else cmd)"
  by (cases part) (auto simp: add_command_def)

lemma add_command_fold:
  "cmap_ok m \<Longrightarrow>
     cmap_ok (fold add_command parts m) \<and>
     cmap_find (fold add_command parts m) k =
       (case cmap_find m k of
          Some v \<Rightarrow> Some v
        | None \<Rightarrow> map_of (map (\<lambda>v. (v ! 0, v ! 1)) (filter (\<lambda>v. 1 < length v) (map (split_on (CHR ''?'')) parts))) k)"
proof (induction parts arbitrary: m)
  case (Cons p parts)
  then have "cmap_ok (add_command p m)" by (simp add: add_command_eq Let_def)
  from Cons.IH [OF this] Cons.prems show ?case
    by (auto simp: add_command_eq Let_def split: option.splits)
qed (simp split: option.splits)

lemma url_GetCommand_find:
  "cmap_ok (url_GetCommand s)" "cmap_find (url_GetCommand s) k = map_of (command_pairs s) k"
  using add_command_fold [of "[]" "split_on (CHR ''/'') s"]
  by (simp_all add: url_GetCommand_def command_pairs_def)

lemma command_pairs_Nil: "command_pairs s = [] \<longleftrightarrow> CHR ''?'' \<notin> set s"
proof -
  have "command_pairs s = [] \<longleftrightarrow> (\<forall>p \<in> set (split_on (CHR ''/'') s). CHR ''?'' \<notin> set p)"
    by (auto simp: command_pairs_def filter_empty_conv split_on_length count_list_0_iff)
  then show ?thesis using split_on_set [of "CHR ''?''" "CHR ''/''" s] by auto
qed

lemma cmap_find_all_None: "(\<forall>k. cmap_find m k = None) \<longleftrightarrow> m = []"
  by (cases m) (auto simp: cmap_find_def split: if_splits)

lemma url_GetCommand_Nil: "url_GetCommand s = [] \<longleftrightarrow> CHR ''?'' \<notin> set s"
proof -
  have "url_GetCommand s = [] \<longleftrightarrow> (\<forall>k. map_of (command_pairs s) k = None)"
    using cmap_find_all_None [of "url_GetCommand s"] by (simp add: url_GetCommand_find)
  also have "\<dots> \<longleftrightarrow> command_pairs s = []"
    using cmap_find_all_None [of "command_pairs s"] by (simp add: cmap_find_def)
  finally show ?thesis by (simp add: command_pairs_Nil)
qed

text \<open>The commands of a path are kept in key order, one per name; a name has the parameter of
  its first segment \<open>name?parameter\<close>, and there is none exactly when the path has no \<open>?\<close>: only then
  is a document served.\<close>

theorem url_GetCommand_first:
  "cmap_ok (url_GetCommand s) \<and> cmap_find (url_GetCommand s) k = map_of (command_pairs s) k \<and>
   (url_GetCommand s = []) = (CHR ''?'' \<notin> set s)"
  by (intro conjI url_GetCommand_find url_GetCommand_Nil)

section \<open>Command objects are created once\<close>

text \<open>After a command has been found, its object is in the table and the others are as they
  were; from then on calls of the command go to that object, whatever the factory would do.\<close>

theorem SigCommand_cached:
  assumes "cmap_ok (cmds cs)" and "SigCommand create call cmd p c cs = Inr (Some ret, cs')"
  shows "\<exists>h. cmap_find (cmds cs') cmd = Some h \<and> cmap_ok (cmds cs') \<and>
     (\<forall>k. k = cmd \<or> cmap_find (cmds cs') k = cmap_find (cmds cs) k) \<and>
     (\<forall>create' p' c'. SigCommand create' call cmd p' c' cs' =
        Inr (Some (fst (call h p' c' (world cs'))), cs'\<lparr>world := snd (call h p' c' (world cs'))\<rparr>))"
  using assms
  by (auto simp: SigCommand_def RegisterCmd_def fire_def Let_def split: option.splits prod.splits if_splits)

lemma SigCommand_cached_witness:
  "\<exists>h. cmap_find [(''quote'', 7 :: nat)] ''quote'' = Some h \<and>
     SigCommand (\<lambda>_ w. (None, w)) (\<lambda>h p c w. (p @ c, w + h)) ''quote'' ''x'' ''y''
       \<lparr>cmds = [(''quote'', 7)], world = 8 :: nat\<rparr> = Inr (Some ''xy'', \<lparr>cmds = [(''quote'', 7)], world = 8 + h\<rparr>)"
proof -
  have "SigCommand (\<lambda>_ w. (Some 7, w + 1)) (\<lambda>h p c w. (p @ c, w + h)) ''quote'' [] []
      \<lparr>cmds = [], world = 0 :: nat\<rparr> = Inr (Some [], \<lparr>cmds = [(''quote'', 7 :: nat)], world = 8\<rparr>)"
    by (simp add: SigCommand_def RegisterCmd_def fire_def Let_def cmap_find_def)
  from SigCommand_cached [OF _ this] show ?thesis
    by (simp, elim exE conjE) (intro exI conjI, assumption, simp)
qed

section \<open>Replies of the handler\<close>

lemma SigCommand_total:
  "cmap_ok (cmds cs) \<Longrightarrow> \<exists>ret cs'. SigCommand create call cmd p c cs = Inr (ret, cs') \<and> cmap_ok (cmds cs')"
  by (auto simp: SigCommand_def RegisterCmd_def fire_def Let_def split: option.splits prod.splits if_splits)

lemma run_commands_total:
  "cmap_ok (cmds cs) \<Longrightarrow>
     \<exists>ss' n' cs'. foldE (run_command create call req) kvs (ss, n, cs) = Inr (ss', n', cs') \<and> cmap_ok (cmds cs')"
proof (induction kvs arbitrary: ss n cs)
  case (Cons kv kvs)
  obtain ret cs1 where "SigCommand create call (fst kv) (snd kv)
      (if req_method req = ''POST'' then req_content req else []) cs = Inr (ret, cs1)" "cmap_ok (cmds cs1)"
    using SigCommand_total [OF Cons.prems] by blast
  with Cons.IH show ?case by (auto simp: run_command_def Let_def split: option.splits)
qed simp

definition length_header :: "bytes \<Rightarrow> header" where
  "length_header c = \<lparr>name = ''Content-Length'', val = show_nat (length c)\<rparr>"

definition framed :: "reply \<Rightarrow> bool" where
  "framed rep \<longleftrightarrow> (\<exists>h. rep_headers rep = [length_header (content rep), h] \<and>
     (h = \<lparr>name = [], val = []\<rparr> \<or> name h = ''Content-Type'' \<and> CR \<notin> set (val h)))"

lemma framed_stock_reply: "framed (stock_reply st)"
  by (simp add: framed_def stock_reply_def length_header_def Let_def)

lemma extension_to_type_CR: "CR \<notin> set (extension_to_type e)"
  by (auto simp: extension_to_type_def mappings_def split: option.splits if_splits)

lemma framed_handle_doc: "rep_headers rep = [] \<Longrightarrow> framed (handle_doc doc_root fs path rep)"
  using framed_stock_reply extension_to_type_CR
  by (auto simp: handle_doc_def Let_def framed_def length_header_def resize2_def numeral_2_eq_2 split: option.splits)

lemma framed_read_back:
  assumes "framed rep"
  shows "\<exists>l. read_head (concat (to_buffers rep)) =
     Some ([status_text (status rep), ''Content-Length: '' @ show_nat (length (content rep)), l], content rep)"
proof -
  obtain h where h: "rep_headers rep = [length_header (content rep), h]" "CR \<notin> set (name h)" "CR \<notin> set (val h)"
    using assms by (auto simp: framed_def)
  have "CR \<notin> set (show_nat (length (content rep)))"
    using show_nat_digits [of CR] by (auto simp: is_digit_def)
  with h reply_read_back' [of rep] show ?thesis by (simp add: length_header_def header_line_def)
qed

text \<open>C38.  A request is always answered, the command table stays ordered, and what is written is
  framed the way it says: a client that reads the header lines finds the status line, the length
  of the content and one more line, and then exactly that many bytes.\<close>

theorem handle_request_framed:
  assumes "cmap_ok (cmds cs)"
  shows "\<exists>rep cs' l. handle_request create call doc_root fs req \<lparr>status = st, rep_headers = [], content = []\<rparr> cs =
       Inr (rep, cs') \<and> cmap_ok (cmds cs') \<and>
     read_head (concat (to_buffers rep)) =
       Some ([status_text (status rep), ''Content-Length: '' @ show_nat (length (content rep)), l], content rep)"
proof -
  let ?rep = "\<lparr>status = st, rep_headers = [], content = []\<rparr>"
  have "\<exists>rep cs'. handle_request create call doc_root fs req ?rep cs = Inr (rep, cs') \<and> cmap_ok (cmds cs') \<and> framed rep"
  proof (cases "url_decode (req_uri req)")
    case (Some path)
    show ?thesis
    proof (cases "url_GetCommand path = []")
      case True
      then show ?thesis using Some assms framed_handle_doc [of ?rep] by (simp add: handle_request_def)
    next
      case False
      obtain ss n cs' where r: "foldE (run_command create call req) (url_GetCommand path) ([], 0, cs) = Inr (ss, n, cs')"
          "cmap_ok (cmds cs')"
        using run_commands_total [OF assms] by blast
      have "framed \<lparr>status = Ok, rep_headers = (resize2 [])[0 := \<lparr>name = ''Content-Length'',
          val = show_nat (length ss)\<rparr>], content = ss\<rparr>"
        by (simp add: framed_def length_header_def resize2_def numeral_2_eq_2)
      then show ?thesis
        using Some False r framed_stock_reply by (simp add: handle_request_def Let_def)
    qed
  qed (simp add: handle_request_def assms framed_stock_reply)
  then show ?thesis using framed_read_back by blast
qed

lemma handle_request_framed_witness:
  "\<exists>rep cs' l. handle_request (\<lambda>_ w. (None, w)) (\<lambda>(h :: nat) p c w. (p, w)) ''/srv'' (\<lambda>_. Some ''hello'')
       ((fresh_request 0 0)\<lparr>req_uri := ''/a.html''\<rparr>) \<lparr>status = Ok, rep_headers = [], content = []\<rparr>
       \<lparr>cmds = [], world = ()\<rparr> = Inr (rep, cs') \<and> cmap_ok (cmds cs') \<and>
     read_head (concat (to_buffers rep)) =
       Some ([status_text (status rep), ''Content-Length: '' @ show_nat (length (content rep)), l], content rep)"
  by (rule handle_request_framed) simp

text \<open>When a command answers, the reply has a second header whose name and value are empty: the
  vector is resized to two elements and only the first is set.\<close>

theorem command_reply_empty_header:
  assumes "url_decode (req_uri req) = Some path" and "CHR ''?'' \<in> set path"
    and "handle_request create call doc_root fs req \<lparr>status = st, rep_headers = [], content = []\<rparr> cs = Inr (rep, cs')"
    and "status rep = Ok"
  shows "rep_headers rep = [length_header (content rep), \<lparr>name = [], val = []\<rparr>]"
proof -
  have "url_GetCommand path \<noteq> []"
    using assms(2) by (simp add: url_GetCommand_Nil)
  then show ?thesis
    using assms(1,3,4)
    by (auto simp: handle_request_def cxx_simps length_header_def resize2_def numeral_2_eq_2
        stock_reply_def Let_def split: prod.splits if_splits)
qed

lemma command_reply_empty_header_witness:
  "rep_headers \<lparr>status = Ok, rep_headers = [\<lparr>name = ''Content-Length'', val = show_nat 2\<rparr>, \<lparr>name = [], val = []\<rparr>],
     content = ''1'' @ [NL]\<rparr> = [length_header (''1'' @ [NL]), \<lparr>name = [], val = []\<rparr>]"
  using command_reply_empty_header [of "(fresh_request 0 0)\<lparr>req_uri := ''/q?1''\<rparr>" "''/q?1''"
      "\<lambda>_ w. (Some (0 :: nat), w)" "\<lambda>h p c w. (p, w)" "[]" "\<lambda>_. None" Ok "\<lparr>cmds = [], world = ()\<rparr>"]
  by (simp add: fresh_request_def handle_request_def url_GetCommand_def add_command_def run_command_def
      SigCommand_def RegisterCmd_def fire_def cmap_find_def resize2_def length_header_def Let_def numeral_2_eq_2)

section \<open>The documents that can be served\<close>

lemma contains_dots_iff:
  "contains ''..'' s \<longleftrightarrow> (\<exists>i. Suc i < length s \<and> s ! i = CHR ''.'' \<and> s ! Suc i = CHR ''.'')"
proof
  assume "contains ''..'' s"
  then obtain u v where "s = u @ ''..'' @ v" by (auto simp: contains_iff)
  then show "\<exists>i. Suc i < length s \<and> s ! i = CHR ''.'' \<and> s ! Suc i = CHR ''.''"
    by (intro exI [of _ "length u"]) (simp add: nth_append)
next
  assume "\<exists>i. Suc i < length s \<and> s ! i = CHR ''.'' \<and> s ! Suc i = CHR ''.''"
  then obtain i where "Suc i < length s" "s ! i = CHR ''.''" "s ! Suc i = CHR ''.''" by blast
  then have "s = take i s @ ''..'' @ drop (Suc (Suc i)) s"
    by (metis Cons_nth_drop_Suc Suc_lessD append_Cons append_Nil append_take_drop_id)
  then show "contains ''..'' s" by (auto simp: contains_iff)
qed

lemma no_dots_index:
  assumes "\<not> contains ''..'' p" and "p \<noteq> []" and "last p = CHR ''/''"
  shows "\<not> contains ''..'' (p @ ''index.html'')"
proof
  assume "contains ''..'' (p @ ''index.html'')"
  then obtain i where l: "Suc i < length (p @ ''index.html'')" and i: "(p @ ''index.html'') ! i = CHR ''.''"
      "(p @ ''index.html'') ! Suc i = CHR ''.''"
    unfolding contains_dots_iff by blast
  consider "Suc i < length p" | "Suc i = length p" | j where "i = length p + j" "j < 9"
  proof (cases "Suc i \<le> length p")
    case False
    then have "i = length p + (i - length p)" "i - length p < 9" using l by simp_all
    then show ?thesis by (rule that(3))
  qed (use that in linarith)
  then show False
  proof cases
    case 1
    then show ?thesis using i assms(1) by (auto simp: contains_dots_iff nth_append)
  next
    case 2
    then have "(p @ ''index.html'') ! i = last p"
      using assms(2) by (simp add: nth_append last_conv_nth flip: 2)
    then show ?thesis using i(1) assms(3) by simp
  next
    case 3
    then have "''index.html'' ! j = CHR ''.''" "''index.html'' ! Suc j = CHR ''.''"
      using i by (auto simp: nth_append)
    moreover have "j \<in> {0,1,2,3,4,5,6,7,8}" using 3 by auto
    ultimately show ?thesis by auto
  qed
qed

text \<open>C2.  The reply of \<open>handle_doc\<close> depends only on files below the document root: two file systems
  that agree on the paths \<open>doc_root/...\<close> without \<open>..\<close> give the same reply for every requested path.\<close>

theorem handle_doc_confined:
  assumes "\<And>p. hd (p @ [NUL]) = CHR ''/'' \<Longrightarrow> \<not> contains ''..'' p \<Longrightarrow>
     fs1 (c_str (doc_root @ p)) = fs2 (c_str (doc_root @ p))"
  shows "handle_doc doc_root fs1 path rep = handle_doc doc_root fs2 path rep"
proof (cases "path = [] \<or> hd path \<noteq> CHR ''/'' \<or> contains ''..'' path")
  case False
  let ?p = "if last path = CHR ''/'' then path @ ''index.html'' else path"
  have "hd (?p @ [NUL]) = CHR ''/''" using False by auto
  moreover have "\<not> contains ''..'' ?p" using False no_dots_index [of path] by auto
  ultimately have "fs1 (c_str (doc_root @ ?p)) = fs2 (c_str (doc_root @ ?p))" by (rule assms)
  then show ?thesis by (simp add: handle_doc_def Let_def)
qed (simp add: handle_doc_def)

lemma handle_doc_confined_witness:
  "handle_doc ''/srv'' (\<lambda>p. if p = ''/srv/../etc'' then Some ''secret'' else None) ''/x'' \<lparr>status = Ok, rep_headers = [], content = []\<rparr> =
   handle_doc ''/srv'' (\<lambda>p. None) ''/x'' \<lparr>status = Ok, rep_headers = [], content = []\<rparr>"
proof (rule handle_doc_confined)
  fix p :: bytes
  assume h: "hd (p @ [NUL]) = CHR ''/''" "\<not> contains ''..'' p"
  have "c_str (''/srv'' @ p) = ''/srv'' @ takeWhile (\<lambda>c. c \<noteq> NUL) p" by (simp add: c_str_def)
  moreover have "takeWhile (\<lambda>c. c \<noteq> NUL) p \<noteq> ''/../etc''"
  proof
    assume a: "takeWhile (\<lambda>c. c \<noteq> NUL) p = ''/../etc''"
    have "p = takeWhile (\<lambda>c. c \<noteq> NUL) p @ dropWhile (\<lambda>c. c \<noteq> NUL) p" by simp
    then have "p = ''/'' @ ''..'' @ ''/etc'' @ dropWhile (\<lambda>c. c \<noteq> NUL) p" by (simp add: a)
    then show False using h(2) contains_iff by blast
  qed
  ultimately show "(if c_str (''/srv'' @ p) = ''/srv/../etc'' then Some ''secret'' else None) = None" by simp
qed

section \<open>Segments of a connection\<close>

lemma feeds_append_split:
  "feeds st r (xs @ ys) st2 r2 \<Longrightarrow> \<exists>st1 r1. feeds st r xs st1 r1 \<and> feeds st1 r1 ys st2 r2"
  by (induction xs arbitrary: st r) (auto simp: feeds_Cons_iff intro: feeds.intros)

lemma feeds_parse_end: "feeds st r xs st1 r1 \<Longrightarrow> parse st r xs = Inr (Indeterminate, st1, r1, [])"
  using feeds_parse [of st r xs st1 r1 "[]"] by simp

lemma feeds_parse_last:
  "feeds st r xs expecting_newline_3 r1 \<Longrightarrow> parse st r (xs @ [NL]) = Inr (TriTrue, expecting_newline_3, r1, [])"
  using feeds_parse [of st r xs expecting_newline_3 r1 "[NL]"] by (simp add: consume_def)

lemma serve_feeds:
  assumes "feeds (parser conn) (conn_request conn) p expecting_newline_3 r" and "concat segs = p @ [NL]"
  shows "serve create call doc_root fs (segs @ more_segs) conn =
     bindE (handle_request create call doc_root fs r (conn_reply conn) (commands conn)) (\<lambda>(rep, cs).
       Inr (Async_write (concat (to_buffers rep)),
         conn\<lparr>parser := expecting_newline_3, conn_request := r, conn_reply := rep, commands := cs\<rparr>))"
  using assms
proof (induction segs arbitrary: conn p)
  case (Cons d segs)
  show ?case
  proof (cases "length d \<le> length p")
    case True
    with Cons.prems(2) obtain q where q: "p = d @ q" "concat segs = q @ [NL]"
      by (auto simp: append_eq_append_conv2 append_eq_Cons_conv)
    then obtain st1 r1 where f: "feeds (parser conn) (conn_request conn) d st1 r1"
        "feeds st1 r1 q expecting_newline_3 r"
      using feeds_append_split Cons.prems(1) by blast
    let ?conn = "conn\<lparr>parser := st1, conn_request := r1\<rparr>"
    have "handle_read create call doc_root fs False d conn = Inr (Async_read, ?conn)"
      using feeds_parse_end [OF f(1)] by (simp add: handle_read_def)
    then show ?thesis using Cons.IH [of ?conn q] f(2) q(2) by simp
  next
    case False
    with Cons.prems(2) have "d = p @ [NL]"
      by (auto simp: append_eq_append_conv2 append_eq_Cons_conv)
    with feeds_parse_last [OF Cons.prems(1)] show ?thesis
      by (cases "handle_request create call doc_root fs r (conn_reply conn) (commands conn)")
        (auto simp: handle_read_def Let_def)
  qed
qed simp

text \<open>C1.  However the bytes of a request without a body are cut into segments, the answer is the
  handler's answer to that request.  Segments that arrive after the blank line play no part: the
  body of a POST request that comes in a segment of its own is lost.\<close>

theorem serve_segments:
  assumes "m \<noteq> []" and "list_all (\<lambda>c. \<not> not_token c) m"
    and "list_all (\<lambda>c. \<not> ctl c \<and> c \<noteq> SP) u" and "list_all header_ok hs"
    and "concat segs = render m u major minor hs"
  shows "serve create call doc_root fs (segs @ more_segs) (start_conn x y st cs) =
     (let r = \<lparr>req_method = m, req_uri = u, req_http_version_major = word_of_nat major,
                req_http_version_minor = word_of_nat minor, req_headers = hs, req_content = []\<rparr>
      in bindE (handle_request create call doc_root fs r \<lparr>status = st, rep_headers = [], content = []\<rparr> cs)
           (\<lambda>(rep, cs'). Inr (Async_write (concat (to_buffers rep)),
              \<lparr>parser = expecting_newline_3, conn_request = r, conn_reply = rep, commands = cs'\<rparr>)))"
  using serve_feeds [of "start_conn x y st cs" "butlast (render m u major minor hs)"]
    feeds_render [OF assms(1-4), of x y major minor] assms(5) render_split [of m u major minor hs]
  by (simp add: start_conn_def Let_def)

lemma serve_segments_witness:
  "serve (\<lambda>_ w. (None, w)) (\<lambda>(h :: nat) p c w. (p, w)) [] (\<lambda>_. None)
     ([take 5 (render ''POST'' ''/a'' 1 1 []), drop 5 (render ''POST'' ''/a'' 1 1 [])] @ [''body''])
     (start_conn 0 0 Ok \<lparr>cmds = [], world = ()\<rparr>) =
   Inr (Async_write (concat (to_buffers (stock_reply Not_found))),
     \<lparr>parser = expecting_newline_3,
      conn_request = \<lparr>req_method = ''POST'', req_uri = ''/a'', req_http_version_major = word_of_nat 1,
        req_http_version_minor = word_of_nat 1, req_headers = [], req_content = []\<rparr>,
      conn_reply = stock_reply Not_found, commands = \<lparr>cmds = [], world = ()\<rparr>\<rparr>)"
proof -
  have "handle_request (\<lambda>_ w. (None, w)) (\<lambda>(h :: nat) p c w. (p, w)) [] (\<lambda>_. None)
      \<lparr>req_method = ''POST'', req_uri = ''/a'', req_http_version_major = word_of_nat 1,
        req_http_version_minor = word_of_nat 1, req_headers = [], req_content = []\<rparr>
      \<lparr>status = Ok, rep_headers = [], content = []\<rparr> \<lparr>cmds = [], world = ()\<rparr> =
    Inr (stock_reply Not_found, \<lparr>cmds = [], world = ()\<rparr>)"
    by (simp add: handle_request_def url_GetCommand_def add_command_def handle_doc_def contains_def
        prefix_def Let_def)
  then show ?thesis
    by (subst serve_segments [of "''POST''" "''/a''" "[]" _ 1 1])
      (simp_all add: not_token_def is_char_def is_ctl_def is_tspecial_def tspecials_def schar_def Let_def)
qed

end
