(* ===== verification/Escaping.thy ===== *)
theory Escaping
  imports HttpHandler BlockUtils
begin

text \<open>
  The crawler's \<open>escape\<close> (\<open>BlockUtils.cpp\<close>) and the server's \<open>url_decode\<close> (\<open>request_handler.cpp\<close>): what
  \<open>escape\<close> writes for each byte, read as an encoding.
\<close>

lemma hex_val_hex_digit [simp]: "d < 16 \<Longrightarrow> hex_val (hex_digit d) = Some (int d)"
proof -
  assume d: "d < 16"
  have "(of_char (char_of (55 + d)) :: int) = int (of_char (char_of (55 + d)))"
    by (simp only: of_nat_of_char)
  also have "\<dots> = int ((55 + d) mod 256)" by (simp only: of_char_of)
  finally have "(of_char (char_of (55 + d)) :: int) = 55 + int d" using d by simp
  with d show ?thesis
    by (auto simp: hex_val_def hex_digit_def is_digit_def digit_val_def digit_def)
qed

lemma escape_encodes:
  "list_all (\<lambda>c. 16 \<le> (of_char c :: nat) \<and> (of_char c :: nat) < 128) s \<Longrightarrow> url_encodes s (escape s)"
proof (induction s)
  case Nil
  then show ?case by (simp add: escape_def enc_Nil)
next
  case (Cons c s)
  then have IH: "url_encodes s (escape s)" and b: "16 \<le> (of_char c :: nat)" "(of_char c :: nat) < 128" by simp_all
  have e: "escape (c # s) = escape_char c @ escape s" by (simp add: escape_def)
  show ?case
  proof (cases "is_alnum c")
    case True
    then have "c \<noteq> CHR ''%''" "c \<noteq> CHR ''+''" by (auto simp: is_alnum_def is_digit_def)
    then show ?thesis using True IH by (simp add: e escape_char_def enc_plain)
  next
    case False
    let ?n = "of_char c :: nat"
    have "url_encodes (c # s) (CHR ''%'' # hex_digit (?n div 16) # hex_digit (?n mod 16) # escape s)"
    proof (rule enc_hex [OF _ _ _ IH])
      show "hex_val (hex_digit (?n div 16)) = Some (int (?n div 16))"
        "hex_val (hex_digit (?n mod 16)) = Some (int (?n mod 16))" using b by simp_all
      show "int ?n = 16 * int (?n div 16) + int (?n mod 16)"
        by (metis mult_div_mod_eq of_nat_add of_nat_mult of_nat_numeral)
    qed
    then show ?thesis using False b by (simp add: e escape_char_def Let_def show_hex_two)
  qed
qed

lemma hex_F: "hex_digit 15 = CHR ''F''" "read_hex2 CHR ''F'' CHR ''F'' = Some 255"
proof -
  have "char_of (of_char CHR ''F'' :: nat) = CHR ''F''" by (rule char_of_char)
  then show "hex_digit 15 = CHR ''F''" by (simp add: hex_digit_def)
  have "hex_val CHR ''F'' = Some 15" by (simp add: hex_val_def is_digit_def)
  then show "read_hex2 CHR ''F'' CHR ''F'' = Some 255" by (simp add: read_hex2_digits)
qed

lemma show_hex_F: "show_hex 16777215 = ''FFFFFF''"
  by (simp add: show_hex.simps [of 16777215] show_hex.simps [of 1048575] show_hex.simps [of 65535]
      show_hex.simps [of 4095] show_hex.simps [of 255] show_hex.simps [of 15] hex_F)

lemma show_hex_negative:
  assumes "n < 256"
  shows "show_hex (4294967040 + n) = ''FFFFFF'' @ [hex_digit (n div 16), hex_digit (n mod 16)]"
proof -
  have m: "(4294967040 + n) div 16 = 268435440 + n div 16" "(4294967040 + n) mod 16 = n mod 16"
    using div_mult_self1 [of 16 n 268435440] mod_mult_self1 [of n 268435440 16] by (simp_all add: add.commute)
  have m': "(268435440 + n div 16) div 16 = 16777215" "(268435440 + n div 16) mod 16 = n div 16"
    using div_mult_self1 [of 16 "n div 16" 16777215] mod_mult_self1 [of "n div 16" 16777215 16] assms
    by (simp_all add: add.commute)
  show ?thesis
    by (simp add: show_hex.simps [of "4294967040 + n"] m show_hex.simps [of "268435440 + n div 16"] m' show_hex_F)
qed

text \<open>The decoder reads the first two digits of a negative character, \<open>FF\<close>.\<close>

lemma decode_FF: "url_decode (CHR ''%'' # ''FFFFFF'' @ t) \<noteq> Some [c]"
  by (auto simp: hex_F)

lemma escape_byte:
  "url_decode (escape [c]) = Some [c] \<longleftrightarrow> 16 \<le> (of_char c :: nat) \<and> (of_char c :: nat) < 128"
proof (cases "16 \<le> (of_char c :: nat) \<and> (of_char c :: nat) < 128")
  case True
  then show ?thesis using decode_encoded [OF escape_encodes [of "[c]"]] by simp
next
  case False
  let ?n = "of_char c :: nat"
  have n: "?n < 256" using nat_of_char_less_256 .
  have "\<not> is_alnum c" using False by (auto simp: is_alnum_def is_digit_def)
  then have e: "escape [c] = CHR ''%'' # show_hex (if ?n < 128 then ?n else ?n + 2 ^ 32 - 256)"
    by (simp add: escape_def escape_char_def Let_def)
  have "url_decode (escape [c]) \<noteq> Some [c]"
  proof (cases "?n < 16")
    case True
    then show ?thesis by (simp add: e show_hex_one)
  next
    case big: False
    with False have "?n + 2 ^ 32 - 256 = 4294967040 + ?n" "\<not> ?n < 128" by simp_all
    then show ?thesis using decode_FF by (simp only: e show_hex_negative [OF n] if_False append_assoc not_False_eq_True)
  qed
  with False show ?thesis by blast
qed

end
