(* ===== verification/KMeansCluster.thy ===== *)
theory KMeansCluster
  imports AttClusters
begin

text \<open>
  \<open>DisCrawler/StatCom/nsCluster.cpp\<close>: clusters of attribute vectors by k-means.  The k-means library
  (KMlocal) is a parameter: from the algorithm, the dimension, the number of centres and the points
  it yields the centres, their distances and the assignment of the points.
\<close>

record kmeans_result =
  centre :: "int \<Rightarrow> int \<Rightarrow> flt"
  centre_dist :: "int \<Rightarrow> flt"
  close_ctr :: "int \<Rightarrow> int"
  sq_dist :: "int \<Rightarrow> flt"

type_synonym kmeans = "bytes \<Rightarrow> int \<Rightarrow> int \<Rightarrow> flt list list \<Rightarrow> kmeans_result"

record ('d, 'n) km_cluster =
  k_atts :: "('d, 'n) att_vec att_set"
  k_dParams :: "(bytes, flt) cmap"
  k_sParams :: "(bytes, bytes) cmap"
  k_model :: "(('d, 'n) att_vec, ('d, 'n) att_vec att_set) clust_model"

definition new_km_cluster :: "('d, 'n) km_cluster" where
  "new_km_cluster = \<lparr>k_atts = [], k_dParams = [], k_sParams = [], k_model = new_clust_model\<rparr>"

definition km_SetAtt :: "('d, 'n) att_vec att_set \<Rightarrow> ('d, 'n) km_cluster \<Rightarrow> ('d, 'n) km_cluster" where
  "km_SetAtt s t = t\<lparr>k_atts := s\<rparr>"

definition km_SetDoubleParam :: "bytes \<Rightarrow> flt \<Rightarrow> ('d, 'n) km_cluster \<Rightarrow> ('d, 'n) km_cluster" where
  "km_SetDoubleParam nm x t = t\<lparr>k_dParams := cmap_insert (c_str nm) x (k_dParams t)\<rparr>"

definition km_SetStringParam :: "bytes \<Rightarrow> bytes \<Rightarrow> ('d, 'n) km_cluster \<Rightarrow> ('d, 'n) km_cluster" where
  "km_SetStringParam nm x t = t\<lparr>k_sParams := cmap_insert (c_str nm) (c_str x) (k_sParams t)\<rparr>"

definition int_param :: "bytes \<Rightarrow> ('d, 'n) km_cluster \<Rightarrow> (int \<times> ('d, 'n) km_cluster) res" where
  "int_param k t =
     (let (x, m) = cmap_at k (Fin 0) (k_dParams t)
      in case int_of_flt x of Some i \<Rightarrow> Inr (i, t\<lparr>k_dParams := m\<rparr>) | None \<Rightarrow> Inl BadConversion)"

definition choose_kcent :: "int \<Rightarrow> int" where
  "choose_kcent lenAtt =
     (if lenAtt < 400 then 3 else if lenAtt < 400 then 4 else if lenAtt < 1400 then 5
      else if lenAtt < 2400 then 6 else if lenAtt < 3400 then 7 else 8)"

definition data_point :: "int \<Rightarrow> ('d, 'n) att_vec \<Rightarrow> flt list" where
  "data_point AttDim vec = map (value_or_zero vec) [0..AttDim - 1]"

definition data_points :: "int \<Rightarrow> ('d, 'n) att_vec att_set \<Rightarrow> flt list list res" where
  "data_points AttDim s =
     foldE (\<lambda>nPts ps. bindE (GetVectorByIndex s nPts) (\<lambda>p. bindE (addref p) (\<lambda>vec. Inr (ps @ [data_point AttDim vec]))))
       [0..set_GetLength s - 1] []"

definition centre_vec :: "kmeans_result \<Rightarrow> int \<Rightarrow> int \<Rightarrow> ('d, 'n) att_vec" where
  "centre_vec r AttDim j =
     AddValue (max 0 AttDim) (centre_dist r j) (fold (\<lambda>k. AddValue k (centre r j k)) [0..AttDim - 1] new_att_vec)"

text \<open>The copy of a vector, with its distance in a dimension of its own.\<close>

definition member_vec :: "kmeans_result \<Rightarrow> int \<Rightarrow> ('d, 'n) att_vec \<Rightarrow> ('d, 'n) att_vec res" where
  "member_vec r k classVec =
     bindE (SetVector classVec new_att_vec) (\<lambda>newVec. Inr (AddValue (vec_GetLength classVec) (sq_dist r k) newVec))"

definition class_set :: "kmeans_result \<Rightarrow> int \<Rightarrow> ('d, 'n) att_vec att_set \<Rightarrow> ('d, 'n) att_vec att_set res" where
  "class_set r j s =
     foldE (\<lambda>k cs. if close_ctr r k = j
                   then bindE (GetVectorByIndex s k) (\<lambda>p. bindE (addref p) (\<lambda>classVec.
                          bindE (member_vec r k classVec) (\<lambda>newVec. Inr (set_AppendVector (Some newVec) cs))))
                   else Inr cs)
       [0..set_GetLength s - 1] []"

definition add_classes :: "kmeans_result \<Rightarrow> int \<Rightarrow> int \<Rightarrow> ('d, 'n) km_cluster \<Rightarrow> ('d, 'n) km_cluster res" where
  "add_classes r AttDim kcent t =
     foldE (\<lambda>j t. bindE (class_set r j (k_atts t)) (\<lambda>classSet.
              Inr (t\<lparr>k_model := fst (AppendClass (Some classSet) (Some (centre_vec r AttDim j)) (k_model t))\<rparr>)))
       [0..kcent - 1] t"

definition km_CaculModel :: "kmeans \<Rightarrow> ('d, 'n) km_cluster \<Rightarrow> ('d, 'n) km_cluster res" where
  "km_CaculModel kmeans t =
     bindE (int_param ''ATTDIM'' t) (\<lambda>(AttDim, t).
     bindE (int_param ''CLASS_COUNT'' t) (\<lambda>(kcent, t).
     bindE (int_param ''DOC_COUNT'' t) (\<lambda>(doccount, t).
       let t = t\<lparr>k_model := ClearModel (k_model t)\<rparr>;
           attlen = set_GetLength (k_atts t);
           lenAtt = (if 0 < doccount then attlen div doccount else attlen);
           kcent = (if kcent = 0 then choose_kcent lenAtt else kcent)
       in bindE (data_points AttDim (k_atts t)) (\<lambda>pts.
            let (alg, sp) = cmap_at ''ALG'' [] (k_sParams t);
                t = t\<lparr>k_sParams := sp\<rparr>;
                alg = (if length alg = 0 then ''EZ-Hybrid'' else alg)
            in add_classes (kmeans alg AttDim kcent pts) AttDim kcent t))))"

section \<open>What \<open>CaculModel\<close> leaves in the model\<close>

lemma foldE_indexed:
  assumes "\<And>k s. k < length xs \<Longrightarrow> f (int k) s = g (int k) (xs ! k) s" and "n \<le> length xs"
  shows "foldE f [int n..int (length xs) - 1] s = foldE (\<lambda>(k, x). g k x) (zip [int n..int (length xs) - 1] (drop n xs)) s"
  using assms(2)
proof (induction "length xs - n" arbitrary: n s)
  case 0
  then show ?case by simp
next
  case (Suc m)
  then have n: "n < length xs" by simp
  have up: "[int n..int (length xs) - 1] = int n # [int (Suc n)..int (length xs) - 1]"
    using n by (subst upto_rec1) (simp_all add: add.commute)
  have d: "drop n xs = xs ! n # drop (Suc n) xs" using n by (simp add: Cons_nth_drop_Suc)
  have "foldE f [int (Suc n)..int (length xs) - 1] s' =
      foldE (\<lambda>(k, x). g k x) (zip [int (Suc n)..int (length xs) - 1] (drop (Suc n) xs)) s'" for s'
    using Suc.hyps(1) [of "Suc n"] Suc.hyps(2) n by simp
  then show ?case unfolding up d using assms(1) [OF n] by (cases "g (int n) (xs ! n) s") simp_all
qed

lemma foldE_collect:
  "foldE (\<lambda>(k, p) cs. if P k then Inr (cs @ [h k p]) else Inr cs) kps cs =
     Inr (cs @ map (\<lambda>(k, p). h k p) (filter (\<lambda>(k, p). P k) kps))"
  by (induction kps arbitrary: cs) auto

lemma foldE_collect_all:
  "foldE (\<lambda>(k, p) cs. Inr (cs @ [h k p])) kps cs = Inr (cs @ map (\<lambda>(k, p). h k p) kps)"
  by (induction kps arbitrary: cs) auto

text \<open>The documents that have a document node and a place in the page, and the members of class \<open>j\<close>.\<close>

definition placed :: "('d, 'n) att_vec att_set \<Rightarrow> bool" where
  "placed s \<longleftrightarrow> length s < 2 ^ 31 \<and> list_all (\<lambda>p. p \<noteq> None \<and> m_doc (the p) \<noteq> None \<and> m_node (the p) \<noteq> None) s"

definition member :: "kmeans_result \<Rightarrow> int \<Rightarrow> ('d, 'n) att_vec \<Rightarrow> ('d, 'n) att_vec" where
  "member r k v = AddValue (vec_GetLength v) (sq_dist r k) (vec_AppendVector v (new_att_vec\<lparr>m_doc := m_doc v, m_node := m_node v\<rparr>))"

definition members :: "kmeans_result \<Rightarrow> int \<Rightarrow> ('d, 'n) att_vec att_set \<Rightarrow> ('d, 'n) att_vec att_set" where
  "members r j s =
     map (\<lambda>(k, p). Some (member r k (the p))) (filter (\<lambda>(k, p). close_ctr r k = j) (zip [0..int (length s) - 1] s))"

lemma placed_nth:
  "placed s \<Longrightarrow> k < length s \<Longrightarrow> \<exists>v d n. s ! k = Some v \<and> m_doc v = Some d \<and> m_node v = Some n \<and>
     GetVectorByIndex s (int k) = Inr (Some v)"
  using GetVectorByIndex_in [of s k] by (auto simp: placed_def list_all_length addref_def)

lemma member_vec_placed:
  "m_doc v = Some d \<Longrightarrow> m_node v = Some n \<Longrightarrow> member_vec r k v = Inr (member r k v)"
  by (simp add: member_vec_def member_def SetVector_def GetDoc_def GetNode_def addref_def)

lemma class_set_members:
  fixes s :: "('d, 'n) att_vec att_set"
  assumes "placed s"
  shows "class_set r j s = Inr (members r j s)"
proof -
  let ?g = "\<lambda>k p cs. if close_ctr r k = j then Inr (cs @ [Some (member r k (the p))]) else Inr cs"
  let ?f = "\<lambda>k cs. if close_ctr r k = j
      then bindE (GetVectorByIndex s k) (\<lambda>p. bindE (addref p) (\<lambda>classVec.
             bindE (member_vec r k classVec) (\<lambda>newVec. Inr (set_AppendVector (Some newVec) cs))))
      else Inr cs"
  have body: "?f (int k) cs = ?g (int k) (s ! k) cs" if "k < length s" for k cs
    using placed_nth [OF assms that] by (auto simp: member_vec_placed addref_def set_AppendVector_def)
  have "class_set r j s = foldE (\<lambda>(k, p). ?g k p) (zip [0..int (length s) - 1] s) []"
    using foldE_indexed [of s ?f ?g 0, OF body] assms
    by (simp add: class_set_def set_GetLength_def placed_def int_of_size_id)
  then show ?thesis
    by (simp only: foldE_collect members_def append_Nil)
qed

lemma data_points_placed:
  fixes s :: "('d, 'n) att_vec att_set"
  assumes "placed s"
  shows "data_points AttDim s = Inr (map (\<lambda>p. data_point AttDim (the p)) s)"
proof -
  let ?f = "\<lambda>nPts ps. bindE (GetVectorByIndex s nPts) (\<lambda>p. bindE (addref p) (\<lambda>vec. Inr (ps @ [data_point AttDim vec])))"
  let ?g = "\<lambda>nPts p ps. Inr (ps @ [data_point AttDim (the p)])"
  have body: "?f (int k) ps = ?g (int k) (s ! k) ps" if "k < length s" for k ps
    using placed_nth [OF assms that] by (auto simp: addref_def)
  have "data_points AttDim s = foldE (\<lambda>(k, p). ?g k p) (zip [0..int (length s) - 1] s) []"
    using foldE_indexed [of s ?f ?g 0, OF body] assms
    by (simp add: data_points_def set_GetLength_def placed_def int_of_size_id)
  also have "\<dots> = Inr (map (\<lambda>(k, p). data_point AttDim (the p)) (zip [0..int (length s) - 1] s))"
    by (simp only: foldE_collect_all append_Nil)
  also have "map (\<lambda>(k, p). data_point AttDim (the p)) (zip [0..int (length s) - 1] s) = map (\<lambda>p. data_point AttDim (the p)) s"
    by (rule nth_equalityI) simp_all
  finally show ?thesis .
qed

text \<open>The classes that are appended, when the model takes them.\<close>

definition class_list :: "kmeans_result \<Rightarrow> int \<Rightarrow> int \<Rightarrow> ('d, 'n) att_vec att_set \<Rightarrow>
    (('d, 'n) att_vec, ('d, 'n) att_vec att_set) clust_model" where
  "class_list r AttDim kcent s =
     \<lparr>c_atts = map (\<lambda>j. Some (centre_vec r AttDim j)) [0..kcent - 1],
      c_sets = map (\<lambda>j. Some (members r j s)) [0..kcent - 1]\<rparr>"

lemma add_classes_append:
  fixes t :: "('d, 'n) km_cluster"
  assumes "placed (k_atts t)"
  shows "add_classes r AttDim kcent t =
     Inr (t\<lparr>k_model := if length (c_atts (k_model t)) = length (c_sets (k_model t))
        then \<lparr>c_atts = c_atts (k_model t) @ c_atts (class_list r AttDim kcent (k_atts t)),
              c_sets = c_sets (k_model t) @ c_sets (class_list r AttDim kcent (k_atts t))\<rparr>
        else k_model t\<rparr>)"
proof -
  let ?f = "\<lambda>j t. bindE (class_set r j (k_atts t)) (\<lambda>classSet.
      Inr (t\<lparr>k_model := fst (AppendClass (Some classSet) (Some (centre_vec r AttDim j)) (k_model t))\<rparr>))"
  have "foldE ?f js t = Inr (t\<lparr>k_model := if length (c_atts (k_model t)) = length (c_sets (k_model t))
        then \<lparr>c_atts = c_atts (k_model t) @ map (\<lambda>j. Some (centre_vec r AttDim j)) js,
              c_sets = c_sets (k_model t) @ map (\<lambda>j. Some (members r j (k_atts t))) js\<rparr>
        else k_model t\<rparr>)" if "placed (k_atts t)" for js and t :: "('d, 'n) km_cluster"
    using that
  proof (induction js arbitrary: t)
    case (Cons j js)
    then show ?case by (cases "k_model t") (simp add: class_set_members AppendClass_def)
  qed simp
  from this [OF assms] show ?thesis by (simp add: add_classes_def class_list_def)
qed

text \<open>The first \<open>CaculModel\<close> of a cluster object fills the model: one class for each centre, holding copies
  of the vectors the k-means library assigned to it.  A second one (with at least one class in the
  model) leaves the model without centres and with the sets of the first: nothing of the new
  clustering is kept.\<close>

theorem km_CaculModel_runs:
  fixes t :: "('d, 'n) km_cluster"
  assumes "placed (k_atts t)" and "int_param ''ATTDIM'' t = Inr (AttDim, t1)"
    and "int_param ''CLASS_COUNT'' t1 = Inr (kc, t2)" and "int_param ''DOC_COUNT'' t2 = Inr (doccount, t3)"
    and "kcent = (if kc = 0 then choose_kcent (if 0 < doccount then int (length (k_atts t)) div doccount else int (length (k_atts t))) else kc)"
    and "alg = (case cmap_find (k_sParams t) ''ALG'' of Some a \<Rightarrow> if a = [] then ''EZ-Hybrid'' else a | None \<Rightarrow> ''EZ-Hybrid'')"
    and "length (c_atts (k_model t)) = length (c_sets (k_model t))"
  shows "\<exists>t'. km_CaculModel kmeans t = Inr t' \<and> k_model t' =
     (if c_atts (k_model t) = []
      then class_list (kmeans alg AttDim kcent (map (\<lambda>p. data_point AttDim (the p)) (k_atts t))) AttDim kcent (k_atts t)
      else \<lparr>c_atts = [], c_sets = c_sets (k_model t)\<rparr>)"
proof -
  have keep: "k_atts t' = k_atts u \<and> k_sParams t' = k_sParams u \<and> k_model t' = k_model u"
    if "int_param k u = Inr (i, t')" for k i and u t' :: "('d, 'n) km_cluster"
    using that by (auto simp: int_param_def split: prod.splits option.splits)
  have t3: "k_atts t3 = k_atts t" "k_sParams t3 = k_sParams t" "k_model t3 = k_model t"
    using keep [OF assms(2)] keep [OF assms(3)] keep [OF assms(4)] by simp_all
  have "set_GetLength (k_atts t) = int (length (k_atts t))"
    using assms(1) by (simp add: placed_def set_GetLength_def int_of_size_id)
  then show ?thesis
    using assms(1,7) data_points_placed [OF assms(1), of AttDim]
    by (auto simp: km_CaculModel_def assms(2-6) t3 Let_def cmap_at_def add_classes_append ClearModel_def class_list_def
        split: option.splits prod.splits)
qed

definition sample_km :: "(unit, unit) km_cluster" where
  "sample_km = new_km_cluster\<lparr>k_atts := [Some (SetNode (Some ()) (SetDoc (Some ()) (AddValue 0 (Fin 1) new_att_vec)))],
     k_model := \<lparr>c_atts = [Some new_att_vec], c_sets = [Some []]\<rparr>\<rparr>"

text \<open>A library that puts every point into the first class.\<close>

definition one_class :: kmeans where
  "one_class alg AttDim kcent pts =
     \<lparr>centre = \<lambda>j k. Fin 0, centre_dist = \<lambda>j. Fin 0, close_ctr = \<lambda>k. 0, sq_dist = \<lambda>k. Fin 0\<rparr>"

lemma km_CaculModel_runs_witness:
  "\<exists>t'. km_CaculModel one_class sample_km = Inr t' \<and> k_model t' = \<lparr>c_atts = [], c_sets = [Some []]\<rparr>"
proof -
  define t1 where "t1 = sample_km\<lparr>k_dParams := [(''ATTDIM'', Fin 0)]\<rparr>"
  define t2 where "t2 = t1\<lparr>k_dParams := [(''ATTDIM'', Fin 0), (''CLASS_COUNT'', Fin 0)]\<rparr>"
  define t3 where "t3 = t2\<lparr>k_dParams := [(''ATTDIM'', Fin 0), (''CLASS_COUNT'', Fin 0), (''DOC_COUNT'', Fin 0)]\<rparr>"
  have a: "placed (k_atts sample_km)"
    by (simp add: sample_km_def placed_def SetNode_def SetDoc_def AddValue_def new_att_vec_def)
  have b: "int_param ''ATTDIM'' sample_km = Inr (0, t1)"
    by (simp add: int_param_def cmap_at_def t1_def sample_km_def new_km_cluster_def)
  have c: "int_param ''CLASS_COUNT'' t1 = Inr (0, t2)"
    by (simp add: int_param_def cmap_at_def t1_def t2_def sample_km_def new_km_cluster_def cmap_find_def)
  have d: "int_param ''DOC_COUNT'' t2 = Inr (0, t3)"
    by (simp add: int_param_def cmap_at_def t2_def t3_def sample_km_def new_km_cluster_def cmap_find_def)
  have e: "length (c_atts (k_model sample_km)) = length (c_sets (k_model sample_km))"
    by (simp add: sample_km_def)
  have "\<exists>t'. km_CaculModel one_class sample_km = Inr t' \<and> k_model t' =
     (if c_atts (k_model sample_km) = []
      then class_list (one_class ''EZ-Hybrid'' 0 (choose_kcent (int (length (k_atts sample_km))))
             (map (\<lambda>p. data_point 0 (the p)) (k_atts sample_km))) 0 (choose_kcent (int (length (k_atts sample_km)))) (k_atts sample_km)
      else \<lparr>c_atts = [], c_sets = c_sets (k_model sample_km)\<rparr>)"
    by (rule km_CaculModel_runs [OF a b c d _ _ e]) (simp_all add: sample_km_def new_km_cluster_def)
  then show ?thesis by (simp add: sample_km_def)
qed

end
