(* ===== verification/HttpClient.thy ===== *)
theory HttpClient
  imports HttpHandler
begin

text \<open>
  The HTTP client, \<open>httpd/client\<close> (and its copy in \<open>stockclient\<close>): \<open>HttpUrl.cpp\<close>, \<open>HttpReqest.cpp\<close>,
  \<open>HttpResponse.cpp\<close> and \<open>HttpClient.cpp\<close>.  The sockets of \<open>boost::asio\<close> are parameters of
  \<open>connect\<close> and \<open>SendRequest\<close>.  A \<open>stringstream\<close> that is read by lines keeps the bytes that are left and
  its end and failure bits.  The last section puts the client and the server of \<open>HttpHandler\<close>
  together: what the client makes of a reply, and what the server makes of a request.
\<close>

section \<open>\<open>HttpUrl\<close>\<close>

text \<open>The default constructor leaves \<open>correctUrl\<close> uninitialised.\<close>

record http_url =
  url_full :: bytes
  url_protocal :: bytes
  url_host :: bytes
  url_port :: bytes
  url_resource :: bytes
  correctUrl :: "bool option"

definition parseURl :: "bytes \<Rightarrow> http_url \<Rightarrow> bool \<times> http_url" where
  "parseURl s u =
     (let u = u\<lparr>url_full := s\<rparr>
      in case find_from ''://'' s 0 of
           None \<Rightarrow> (False, u)
         | Some proIdx \<Rightarrow>
             let u = u\<lparr>url_protocal := take proIdx s\<rparr>; addStart = proIdx + 3
             in case find_from ''/'' s addStart of
                  None \<Rightarrow> (False, u)
                | Some addend \<Rightarrow>
                    let u = u\<lparr>url_resource := drop addend s\<rparr>;
                        HostPort = take (addend - addStart) (drop addStart s)
                    in case find_from '':'' HostPort 0 of
                         None \<Rightarrow> (True, u\<lparr>url_port := ''80'', url_host := HostPort\<rparr>)
                       | Some portIdx \<Rightarrow>
                           let u = u\<lparr>url_port := drop (portIdx + 1) HostPort\<rparr>
                           in if atoi (url_port u) \<le> 0 then (False, u)
                              else (True, u\<lparr>url_host := take portIdx HostPort\<rparr>))"

definition setUrl :: "bytes \<Rightarrow> http_url \<Rightarrow> http_url" where
  "setUrl s u = (let (ok, u) = parseURl s u in u\<lparr>correctUrl := Some ok\<rparr>)"

definition IsUrl :: "http_url \<Rightarrow> bool res" where
  "IsUrl u = (case correctUrl u of Some b \<Rightarrow> Inr b | None \<Rightarrow> Inl UninitRead)"

definition new_HttpUrl :: http_url where
  "new_HttpUrl = \<lparr>url_full = [], url_protocal = [], url_host = [], url_port = ''80'', url_resource = [], correctUrl = None\<rparr>"

definition HttpUrl_of :: "bytes \<Rightarrow> http_url" where
  "HttpUrl_of s = setUrl s (new_HttpUrl\<lparr>url_full := s\<rparr>)"

section \<open>\<open>HttpReqest\<close>\<close>

datatype http_req_type =
    http_req_type_get | http_req_type_options | http_req_type_head | http_req_type_post
  | http_req_type_put | http_req_type_delete | http_req_type_trace | http_req_type_connect
  | http_req_type_propfind | http_req_type_proppatch | http_req_type_mkcol | http_req_type_copy
  | http_req_type_move | http_req_type_lock | http_req_type_unlock

fun http_req_type_char :: "http_req_type \<Rightarrow> bytes" where
  "http_req_type_char http_req_type_get = ''GET''"
| "http_req_type_char http_req_type_options = ''OPTIONS''"
| "http_req_type_char http_req_type_head = ''HEAD''"
| "http_req_type_char http_req_type_post = ''POST''"
| "http_req_type_char http_req_type_put = ''PUT''"
| "http_req_type_char http_req_type_delete = ''DELETE''"
| "http_req_type_char http_req_type_trace = ''TRACE''"
| "http_req_type_char http_req_type_connect = ''CONNECT''"
| "http_req_type_char http_req_type_propfind = ''PROPFIND''"
| "http_req_type_char http_req_type_proppatch = ''PROPPATCH''"
| "http_req_type_char http_req_type_mkcol = ''MKCOL''"
| "http_req_type_char http_req_type_copy = ''COPY''"
| "http_req_type_char http_req_type_move = ''MOVE''"
| "http_req_type_char http_req_type_lock = ''LOCK''"
| "http_req_type_char http_req_type_unlock = ''UNLOCK''"

record http_reqest =
  rq_type :: http_req_type
  rq_http_ver :: bytes
  rq_host :: bytes
  rq_resource :: bytes
  rq_body :: bytes
  rq_heads :: "(bytes, bytes) cmap"

definition new_HttpReqest :: http_reqest where
  "new_HttpReqest =
     \<lparr>rq_type = http_req_type_get, rq_http_ver = ''1.0'', rq_host = [], rq_resource = [], rq_body = [], rq_heads = []\<rparr>"

definition setHost :: "bytes \<Rightarrow> http_reqest \<Rightarrow> http_reqest" where
  "setHost h rq = rq\<lparr>rq_host := h\<rparr>"

definition setVersion :: "bytes \<Rightarrow> http_reqest \<Rightarrow> http_reqest" where
  "setVersion v rq = rq\<lparr>rq_http_ver := v\<rparr>"

definition set_req_type :: "http_req_type \<Rightarrow> http_reqest \<Rightarrow> http_reqest" where
  "set_req_type t rq = rq\<lparr>rq_type := t\<rparr>"

definition setResource :: "bytes \<Rightarrow> http_reqest \<Rightarrow> http_reqest" where
  "setResource r rq = rq\<lparr>rq_resource := r\<rparr>"

definition setBody :: "bytes \<Rightarrow> http_reqest \<Rightarrow> http_reqest" where
  "setBody b rq = rq\<lparr>rq_body := b\<rparr>"

definition addHead :: "bytes \<Rightarrow> bytes \<Rightarrow> http_reqest \<Rightarrow> http_reqest" where
  "addHead headTag v rq = rq\<lparr>rq_heads := cmap_insert headTag v (rq_heads rq)\<rparr>"

text \<open>\<open>operator<<\<close>; \<open>std::endl\<close> is a line feed.\<close>

definition print_request :: "http_reqest \<Rightarrow> bytes" where
  "print_request rq =
     http_req_type_char (rq_type rq) @ '' '' @ rq_resource rq @ '' HTTP/'' @ rq_http_ver rq @ [NL] @
     ''Host: '' @ rq_host rq @ [NL] @
     concat (map (\<lambda>(k, v). k @ '': '' @ v @ [NL]) (rq_heads rq)) @ [NL] @ [NL] @ rq_body rq @ [NL]"

section \<open>Streams read by lines\<close>

record in_stream =
  in_unread :: bytes
  in_eof :: bool
  in_fail :: bool

definition stream_of :: "bytes \<Rightarrow> in_stream" where
  "stream_of s = \<lparr>in_unread = s, in_eof = False, in_fail = False\<rparr>"

definition stream_good :: "in_stream \<Rightarrow> bool" where
  "stream_good st \<longleftrightarrow> \<not> in_eof st \<and> \<not> in_fail st"

text \<open>Writing to a stream whose end or failure bit is set only sets the failure bit.\<close>

definition stream_put :: "bytes \<Rightarrow> in_stream \<Rightarrow> in_stream" where
  "stream_put s st =
     (if stream_good st then st\<lparr>in_unread := in_unread st @ s\<rparr> else st\<lparr>in_fail := True\<rparr>)"

text \<open>\<open>std::getline\<close>; on a stream that is not good the string keeps its value.\<close>

definition getline :: "bytes \<Rightarrow> in_stream \<Rightarrow> bytes \<times> in_stream" where
  "getline line st =
     (if stream_good st then
        let l = takeWhile (\<lambda>c. c \<noteq> NL) (in_unread st)
        in if length l < length (in_unread st)
           then (l, st\<lparr>in_unread := drop (Suc (length l)) (in_unread st)\<rparr>)
           else (l, \<lparr>in_unread = [], in_eof = True, in_fail = (l = [])\<rparr>)
      else (line, st\<lparr>in_fail := True\<rparr>))"

text \<open>
  \<open>while (!in.eof()) { std::getline(in, line); \<dots> }\<close>, where the body may end the loop.  On a stream that
  has failed before its end the loop does not end.
\<close>

partial_function (option) each_line ::
  "(bytes \<Rightarrow> 's \<Rightarrow> 's \<times> bool) \<Rightarrow> bytes \<Rightarrow> in_stream \<Rightarrow> 's \<Rightarrow> ('s \<times> in_stream) option" where
  "each_line f line st s =
     (if in_eof st then Some (s, st)
      else
        let (line, st) = getline line st; (s, stop) = f line s
        in if stop then Some (s, st) else each_line f line st s)"

section \<open>\<open>HttpResponse\<close>\<close>

record http_response =
  rs_http_ver :: bytes
  rs_stat_code :: int
  rs_heads :: "(bytes, bytes) cmap"
  rs_body :: in_stream

definition new_HttpResponse :: http_response where
  "new_HttpResponse = \<lparr>rs_http_ver = [], rs_stat_code = 0, rs_heads = [], rs_body = stream_of []\<rparr>"

definition getHeadAtt :: "bytes \<Rightarrow> http_response \<Rightarrow> bytes" where
  "getHeadAtt headTag rs = (case cmap_find (rs_heads rs) headTag of Some v \<Rightarrow> v | None \<Rightarrow> [])"

text \<open>A line without a colon before the body: the status line, if it has \<open>HTTP/\<close>.\<close>

definition read_status :: "bytes \<Rightarrow> http_response \<Rightarrow> http_response" where
  "read_status line rs =
     (case find_from ''HTTP/'' line 0 of
        None \<Rightarrow> rs
      | Some idx \<Rightarrow>
          (case find_from '' '' line (idx + 5) of
             None \<Rightarrow> rs\<lparr>rs_http_ver := drop idx line\<rparr>
           | Some idx2 \<Rightarrow>
               let rs = (case find_from '' '' line (idx2 + 1) of
                           None \<Rightarrow> rs
                         | Some idx3 \<Rightarrow> rs\<lparr>rs_stat_code := atoi (take (idx3 - idx2 - 1) (drop (idx2 + 1) line))\<rparr>)
               in rs\<lparr>rs_http_ver := take (idx2 - idx) (drop idx line)\<rparr>))"

definition response_line :: "bytes \<Rightarrow> bool \<times> http_response \<Rightarrow> bool \<times> http_response" where
  "response_line line = (\<lambda>(bodyStart, rs).
     if line = [] \<or> line = [CR] then (True, rs)
     else if bodyStart then (bodyStart, rs\<lparr>rs_body := stream_put (line @ [NL]) (rs_body rs)\<rparr>)
     else
       (case find_from '':'' line 0 of
          Some idx \<Rightarrow> (bodyStart, rs\<lparr>rs_heads := cmap_insert (take idx line) (drop (idx + 1) line) (rs_heads rs)\<rparr>)
        | None \<Rightarrow> (bodyStart, read_status line rs)))"

text \<open>\<open>operator>>\<close>.\<close>

definition read_response :: "in_stream \<Rightarrow> http_response \<Rightarrow> http_response option" where
  "read_response st rs =
     map_option (\<lambda>((bodyStart, rs), st). rs) (each_line (\<lambda>line s. (response_line line s, False)) [] st (False, rs))"

section \<open>\<open>HttpClient\<close>\<close>

record http_client =
  cl_url :: http_url
  cl_request :: http_reqest
  cl_response :: http_response

definition new_HttpClient :: http_client where
  "new_HttpClient = \<lparr>cl_url = new_HttpUrl, cl_request = new_HttpReqest, cl_response = new_HttpResponse\<rparr>"

text \<open>The request is set up from whatever parts the URL has; whether it is one is not asked.\<close>

definition set_request_url :: "http_client \<Rightarrow> http_client" where
  "set_request_url cl =
     cl\<lparr>cl_request := setResource (url_resource (cl_url cl))
          (set_req_type http_req_type_get (setHost (url_host (cl_url cl)) (cl_request cl)))\<rparr>"

definition HttpClient_of :: "bytes \<Rightarrow> http_client" where
  "HttpClient_of s = set_request_url (new_HttpClient\<lparr>cl_url := HttpUrl_of s\<rparr>)"

text \<open>
  The network: \<open>resolve\<close> yields the endpoints of a host and a port or throws, \<open>open_ep\<close> opens a
  connection to one, \<open>send\<close> writes all bytes or throws, and \<open>receive\<close> returns all bytes up to an
  error and whether this error is the end of the stream.
\<close>

record ('e, 'w) network =
  resolve :: "bytes \<Rightarrow> bytes \<Rightarrow> 'w \<Rightarrow> ('e list \<times> 'w) res"
  open_ep :: "'e \<Rightarrow> 'w \<Rightarrow> bool \<times> 'w"
  send :: "bytes \<Rightarrow> 'w \<Rightarrow> 'w res"
  receive :: "'w \<Rightarrow> (bytes \<times> bool) \<times> 'w"

fun open_first :: "('e, 'w) network \<Rightarrow> 'e list \<Rightarrow> 'w \<Rightarrow> bool \<times> 'w" where
  "open_first net [] w = (False, w)"
| "open_first net (ep # eps) w =
     (let (ok, w) = open_ep net ep w in if ok then (True, w) else open_first net eps w)"

definition connect :: "('e, 'w) network \<Rightarrow> http_client \<Rightarrow> 'w \<Rightarrow> (bool \<times> 'w) res" where
  "connect net cl w =
     bindE (resolve net (url_host (cl_url cl)) (url_port (cl_url cl)) w) (\<lambda>(eps, w). Inr (open_first net eps w))"

definition connect_url :: "('e, 'w) network \<Rightarrow> bytes \<Rightarrow> http_client \<Rightarrow> 'w \<Rightarrow> (bool \<times> http_client \<times> 'w) res" where
  "connect_url net s cl w =
     (let cl = set_request_url (cl\<lparr>cl_url := setUrl s (cl_url cl)\<rparr>)
      in bindE (connect net cl w) (\<lambda>(ok, w). Inr (ok, cl, w)))"

definition cl_addHead :: "bytes \<Rightarrow> bytes \<Rightarrow> http_client \<Rightarrow> http_client" where
  "cl_addHead tag v cl = cl\<lparr>cl_request := addHead tag v (cl_request cl)\<rparr>"

definition setRequest :: "http_reqest \<Rightarrow> http_client \<Rightarrow> http_client" where
  "setRequest rq cl = cl\<lparr>cl_request := rq\<rparr>"

text \<open>The bytes that were received are a fresh stream, so reading the response ends (\<open>read_response_lines\<close>).\<close>

definition SendRequest :: "('e, 'w) network \<Rightarrow> http_client \<Rightarrow> 'w \<Rightarrow> (bool \<times> http_client \<times> 'w) res" where
  "SendRequest net cl w =
     bindE (send net (print_request (cl_request cl)) w) (\<lambda>w.
       let ((data, at_eof), w) = receive net w
       in if \<not> at_eof then Inr (False, cl, w)
          else case read_response (stream_of data) (cl_response cl) of
                 Some rs \<Rightarrow> Inr (True, cl\<lparr>cl_response := rs\<rparr>, w)
               | None \<Rightarrow> Inl Hang)"

section \<open>Reading by lines\<close>

lemma split_on_takeWhile:
  "split_on d s = takeWhile (\<lambda>c. c \<noteq> d) s #
     (if d \<in> set s then split_on d (drop (Suc (length (takeWhile (\<lambda>c. c \<noteq> d) s))) s) else [])"
  by (induction s) auto

lemma each_line_eof [simp]: "in_eof st \<Longrightarrow> each_line f line st s = Some (s, st)"
  by (simp add: each_line.simps)

text \<open>A loop that does not leave its body reads the pieces between the line feeds, the last one included.\<close>

lemma each_line_split:
  assumes "\<And>l s. \<not> snd (f l s)"
  shows "each_line f line \<lparr>in_unread = b, in_eof = False, in_fail = False\<rparr> s =
     Some (fold (\<lambda>l s. fst (f l s)) (split_on NL b) s,
       \<lparr>in_unread = [], in_eof = True, in_fail = (last (split_on NL b) = [])\<rparr>)"
proof (induction "length b" arbitrary: b line s rule: less_induct)
  case less
  let ?l = "takeWhile (\<lambda>c. c \<noteq> NL) b"
  show ?case
  proof (cases "NL \<in> set b")
    case True
    then have len: "length ?l < length b"
      using takeWhile_eq_all_conv [of "\<lambda>c. c \<noteq> NL" b] length_takeWhile_le [of "\<lambda>c. c \<noteq> NL" b]
      by (metis (mono_tags, lifting) append_take_drop_id le_neq_implies_less self_append_conv takeWhile_dropWhile_id append_eq_conv_conj takeWhile_eq_take)
    then have "length (drop (Suc (length ?l)) b) < length b" by simp
    from less [OF this] show ?thesis
      using len True assms split_on_takeWhile [of NL b]
      by (subst each_line.simps) (simp add: getline_def stream_good_def case_prod_unfold Let_def)
  next
    case False
    then have eq: "?l = b" by (simp add: takeWhile_eq_all_conv) blast
    show ?thesis
      using assms split_on_absent [OF False]
      by (subst each_line.simps) (simp add: eq getline_def stream_good_def case_prod_unfold Let_def)
  qed
qed

lemma read_response_lines:
  "read_response (stream_of b) rs = Some (snd (fold response_line (split_on NL b) (False, rs)))"
  by (simp add: read_response_def stream_of_def each_line_split case_prod_unfold)

section \<open>The parts of a URL\<close>

lemma find_from_0: "find_from pat s 0 = find_first pat s"
  by (cases "find_first pat s") (simp_all add: find_from_def)

lemma find_from_skip: "c \<notin> set p \<Longrightarrow> prefix pat s \<Longrightarrow> find_from (c # pat) (p @ c # s) 0 = Some (length p)"
  unfolding find_from_0 by (induction p) auto

lemma find_from_char: "c \<notin> set p \<Longrightarrow> find_from [c] (p @ c # s) 0 = Some (length p)"
  using find_from_skip [of c p "[]" s] by simp

lemma find_from_char_absent: "c \<notin> set p \<Longrightarrow> find_from [c] p 0 = None"
  unfolding find_from_0 by (induction p) auto

lemma find_from_shift: "find_from pat (u @ s) (length u) = map_option ((+) (length u)) (find_from pat s 0)"
  by (simp add: find_from_def option.map_comp comp_def)

lemma parseURl_parts:
  assumes "CHR '':'' \<notin> set p" and "CHR '':'' \<notin> set h" "CHR ''/'' \<notin> set h" and "0 < n" "n < 2 ^ 31"
  shows "parseURl (p @ ''://'' @ h @ '':'' @ show_nat n @ ''/'' @ r) u =
      (True, u\<lparr>url_full := p @ ''://'' @ h @ '':'' @ show_nat n @ ''/'' @ r, url_protocal := p,
         url_resource := ''/'' @ r, url_port := show_nat n, url_host := h\<rparr>)"
    and "parseURl (p @ ''://'' @ h @ ''/'' @ r) u =
      (True, u\<lparr>url_full := p @ ''://'' @ h @ ''/'' @ r, url_protocal := p,
         url_resource := ''/'' @ r, url_port := ''80'', url_host := h\<rparr>)"
proof -
  have sep: "find_from ''://'' (p @ ''://'' @ s) 0 = Some (length p)" for s
    using find_from_skip [OF assms(1), of "''//''" "''//'' @ s"] by simp
  have slash: "find_from ''/'' (p @ ''://'' @ t @ ''/'' @ r) (length p + 3) = Some (length p + 3 + length t)"
    if "CHR ''/'' \<notin> set t" for t
    using find_from_shift [of "''/''" "p @ ''://''" "t @ ''/'' @ r"] find_from_char [OF that, of r] by (simp add: numeral_3_eq_3)
  have digits: "CHR ''/'' \<notin> set (show_nat n)"
    using show_nat_digits [of "CHR ''/''" n] by (auto simp: is_digit_def)
  have "atoi (show_nat n) = int n" using atoi_show_nat [OF assms(5), of "[]"] by simp
  then show "parseURl (p @ ''://'' @ h @ '':'' @ show_nat n @ ''/'' @ r) u =
      (True, u\<lparr>url_full := p @ ''://'' @ h @ '':'' @ show_nat n @ ''/'' @ r, url_protocal := p,
         url_resource := ''/'' @ r, url_port := show_nat n, url_host := h\<rparr>)"
    using sep [of "h @ '':'' @ show_nat n @ ''/'' @ r"] slash [of "h @ '':'' @ show_nat n"] assms(3,4) digits
      find_from_char [OF assms(2), of "show_nat n"]
    by (simp add: parseURl_def Let_def eval_nat_numeral)
  show "parseURl (p @ ''://'' @ h @ ''/'' @ r) u =
      (True, u\<lparr>url_full := p @ ''://'' @ h @ ''/'' @ r, url_protocal := p,
         url_resource := ''/'' @ r, url_port := ''80'', url_host := h\<rparr>)"
    using sep [of "h @ ''/'' @ r"] slash [of h] assms(3) find_from_char_absent [OF assms(2)]
    by (simp add: parseURl_def Let_def eval_nat_numeral)
qed

text \<open>A URL with a protocol, a host, a port and a resource is taken apart into these; without a port
  the port is 80.\<close>

theorem parse_url_parts:
  assumes "CHR '':'' \<notin> set p" and "CHR '':'' \<notin> set h" "CHR ''/'' \<notin> set h" and "0 < n" "n < 2 ^ 31"
  shows "HttpUrl_of (p @ ''://'' @ h @ '':'' @ show_nat n @ ''/'' @ r) =
      \<lparr>url_full = p @ ''://'' @ h @ '':'' @ show_nat n @ ''/'' @ r, url_protocal = p, url_host = h,
       url_port = show_nat n, url_resource = ''/'' @ r, correctUrl = Some True\<rparr> \<and>
    HttpUrl_of (p @ ''://'' @ h @ ''/'' @ r) =
      \<lparr>url_full = p @ ''://'' @ h @ ''/'' @ r, url_protocal = p, url_host = h,
       url_port = ''80'', url_resource = ''/'' @ r, correctUrl = Some True\<rparr>"
  using parseURl_parts [OF assms, of r] by (simp add: HttpUrl_of_def setUrl_def new_HttpUrl_def)

lemma parse_url_parts_witness:
  "url_port (HttpUrl_of ''http://a.b:8080/c'') = ''8080'' \<and> url_host (HttpUrl_of ''http://a.b/c'') = ''a.b''"
proof -
  have "show_nat 8080 = ''8080''" by (simp add: show_nat_eval)
  then show ?thesis using parse_url_parts [of "''http''" "''a.b''" 8080 "''c''"] by simp
qed

section \<open>The server's reply, read by the client\<close>

definition body_lines :: "bytes \<Rightarrow> bytes" where
  "body_lines b = concat (map (\<lambda>l. l @ [NL]) (filter (\<lambda>l. l \<noteq> [] \<and> l \<noteq> [CR]) (split_on NL b)))"

definition plain_header :: "header \<Rightarrow> bool" where
  "plain_header h \<longleftrightarrow> CHR '':'' \<notin> set (name h) \<and> NL \<notin> set (name h) \<and> NL \<notin> set (val h)"

lemma response_body:
  "stream_good (rs_body rs) \<Longrightarrow>
     fold response_line ls (True, rs) =
       (True, rs\<lparr>rs_body := (rs_body rs)\<lparr>in_unread :=
          in_unread (rs_body rs) @ concat (map (\<lambda>l. l @ [NL]) (filter (\<lambda>l. l \<noteq> [] \<and> l \<noteq> [CR]) ls))\<rparr>\<rparr>)"
proof (induction ls arbitrary: rs)
  case (Cons l ls)
  then show ?case by (simp add: response_line_def stream_put_def stream_good_def)
qed simp

lemma response_header:
  "plain_header h \<Longrightarrow> response_line (header_line h @ [CR]) (False, rs) =
     (False, rs\<lparr>rs_heads := cmap_insert (name h) (SP # val h @ [CR]) (rs_heads rs)\<rparr>)"
  using find_from_char [of "CHR '':''" "name h" "SP # val h @ [CR]"]
  by (simp add: response_line_def header_line_def plain_header_def)

lemma response_headers:
  "list_all plain_header hs \<Longrightarrow> fold response_line (map (\<lambda>h. header_line h @ [CR]) hs) (False, rs) =
     (False, rs\<lparr>rs_heads := fold (\<lambda>h. cmap_insert (name h) (SP # val h @ [CR])) hs (rs_heads rs)\<rparr>)"
  by (induction hs arbitrary: rs) (simp_all add: response_header)

lemma response_status:
  "response_line (status_text st @ [CR]) (False, rs) =
     (False, rs\<lparr>rs_http_ver := ''HTTP/1.0'', rs_stat_code := int (status_code st)\<rparr>)"
proof -
  have "find_from '':'' (status_text st @ [CR]) 0 = None" "status_text st \<noteq> []"
      "find_from ''HTTP/'' (status_text st @ [CR]) 0 = Some 0" "find_from '' '' (status_text st @ [CR]) 5 = Some 8"
      "find_from '' '' (status_text st @ [CR]) 9 = Some 12" "take 8 (status_text st @ [CR]) = ''HTTP/1.0''"
      "take 3 (drop 9 (status_text st @ [CR])) = show_nat (status_code st)"
    by (cases st; simp add: find_from_def status_text_def crlf_def butlast_append show_nat_eval)+
  moreover have "atoi (show_nat (status_code st)) = int (status_code st)"
    by (rule atoi_show_nat [of _ "[]", simplified]) (cases st; simp)
  ultimately show ?thesis by (simp add: response_line_def read_status_def Let_def)
qed

lemma split_lines: "list_all (\<lambda>l. NL \<notin> set l) ls \<Longrightarrow> split_on NL (concat (map (\<lambda>l. l @ [NL]) ls) @ r) = ls @ split_on NL r"
  by (induction ls) (simp_all add: split_on_piece)

lemma split_reply:
  assumes "list_all plain_header (rep_headers rep)"
  shows "split_on NL (concat (to_buffers rep)) =
     (status_text (status rep) @ [CR]) # map (\<lambda>h. header_line h @ [CR]) (rep_headers rep) @ [CR] # split_on NL (content rep)"
proof -
  have "NL \<notin> set (status_text (status rep))"
    by (cases "status rep") (simp_all add: status_text_def crlf_def butlast_append)
  moreover have "concat (to_buffers rep) =
      concat (map (\<lambda>l. l @ [NL]) ((status_text (status rep) @ [CR]) # map (\<lambda>h. header_line h @ [CR]) (rep_headers rep) @ [[CR]])) @
      content rep"
    by (simp add: to_buffers_def status_line_eq concat_header_buffers [unfolded crlf_def] crlf_def comp_def)
  ultimately show ?thesis
    using assms split_lines [of "(status_text (status rep) @ [CR]) # map (\<lambda>h. header_line h @ [CR]) (rep_headers rep) @ [[CR]]" "content rep"]
    by (simp add: list_all_iff plain_header_def header_line_def)
qed

lemma response_of_reply':
  assumes "list_all plain_header (rep_headers rep)" and "stream_good (rs_body rs)"
  shows "read_response (stream_of (concat (to_buffers rep))) rs =
     Some (rs\<lparr>rs_http_ver := ''HTTP/1.0'', rs_stat_code := int (status_code (status rep)),
       rs_heads := fold (\<lambda>h. cmap_insert (name h) (SP # val h @ [CR])) (rep_headers rep) (rs_heads rs),
       rs_body := (rs_body rs)\<lparr>in_unread := in_unread (rs_body rs) @ body_lines (content rep)\<rparr>\<rparr>)"
  using assms by (simp add: read_response_lines split_reply response_status response_headers response_body
    body_lines_def, simp add: response_line_def response_body)

text \<open>C37.  What a client makes of a reply of this server with plain headers: the status code is the
  reply's, a header's value starts with the space after the colon and ends in a carriage return,
  and empty lines of the content are lost while every other line ends in a line feed.\<close>

theorem response_of_reply:
  assumes "list_all plain_header (rep_headers rep)"
  shows "read_response (stream_of (concat (to_buffers rep))) new_HttpResponse =
     Some \<lparr>rs_http_ver = ''HTTP/1.0'', rs_stat_code = int (status_code (status rep)),
       rs_heads = fold (\<lambda>h. cmap_insert (name h) (SP # val h @ [CR])) (rep_headers rep) [],
       rs_body = stream_of (body_lines (content rep))\<rparr>"
  using response_of_reply' [OF assms, of new_HttpResponse]
  by (simp add: new_HttpResponse_def stream_of_def stream_good_def)

lemma response_of_reply_witness:
  "read_response (stream_of (concat (to_buffers
       \<lparr>status = Ok, rep_headers = [\<lparr>name = ''Content-Type'', val = ''text/html''\<rparr>], content = ''a'' @ [NL, NL] @ ''b''\<rparr>)))
     new_HttpResponse =
   Some \<lparr>rs_http_ver = ''HTTP/1.0'', rs_stat_code = 200, rs_heads = [(''Content-Type'', SP # ''text/html'' @ [CR])],
     rs_body = stream_of (''a'' @ [NL] @ ''b'' @ [NL])\<rparr>"
  by (subst response_of_reply) (simp_all add: plain_header_def body_lines_def)

section \<open>The client's request, read by the server\<close>

lemma no_CR_step:
  "c \<noteq> CR \<Longrightarrow> \<not> in_headers st \<Longrightarrow>
     \<exists>st' r'. consume st r c = Inr (TriFalse, st', r') \<or>
       c \<noteq> NL \<and> consume st r c = Inr (Indeterminate, st', r') \<and> \<not> in_headers st'"
  by (cases st) (auto simp: consume_def next_st_def reject_def not_token_def schar_def is_ctl_def is_digit_ch_def)

lemma no_CR_parse:
  "CR \<notin> set s \<Longrightarrow> \<not> in_headers st \<Longrightarrow>
     \<exists>st' r' rest. parse st r s = Inr (TriFalse, st', r', rest) \<or>
       NL \<notin> set s \<and> parse st r s = Inr (Indeterminate, st', r', rest) \<and> \<not> in_headers st'"
proof (induction s arbitrary: st r)
  case (Cons c s)
  then consider st' r' where "consume st r c = Inr (TriFalse, st', r')"
    | st' r' where "c \<noteq> NL" "consume st r c = Inr (Indeterminate, st', r')" "\<not> in_headers st'"
    using no_CR_step [of c st r] by auto
  then show ?case
    by cases (use Cons in fastforce)+
qed simp

lemma no_CR_serve:
  "CR \<notin> set (concat segs) \<Longrightarrow> NL \<in> set (concat segs) \<Longrightarrow> \<not> in_headers (parser conn) \<Longrightarrow>
     \<exists>conn'. serve create call doc_root fs segs conn =
       Inr (Async_write (concat (to_buffers (stock_reply Bad_request))), conn')"
proof (induction segs arbitrary: conn)
  case (Cons d segs)
  then consider st r rest where "parse (parser conn) (conn_request conn) d = Inr (TriFalse, st, r, rest)"
    | st r rest where "NL \<notin> set d" "parse (parser conn) (conn_request conn) d = Inr (Indeterminate, st, r, rest)"
        "\<not> in_headers st"
    using no_CR_parse [of d "parser conn" "conn_request conn"] by auto
  then show ?case
  proof cases
    case 1
    then show ?thesis by (simp add: handle_read_def Let_def)
  next
    case 2
    then show ?thesis
      using Cons.prems Cons.IH [of "conn\<lparr>parser := st, conn_request := r\<rparr>"] by (simp add: handle_read_def)
  qed
qed simp

text \<open>C6.  The client ends its lines with a line feed alone and the server wants CR LF: in whatever
  segments a request of the client without a carriage return arrives, the server answers 400, and
  this is what the client reads.\<close>

theorem client_request_rejected:
  assumes "concat segs = print_request rq" and "CR \<notin> set (print_request rq)"
  shows "\<exists>bytes conn' rs. serve create call doc_root fs segs (start_conn x y st cs) = Inr (Async_write bytes, conn') \<and>
     read_response (stream_of bytes) new_HttpResponse = Some rs \<and> rs_stat_code rs = 400"
proof -
  have "NL \<in> set (concat segs)" using assms(1) by (simp add: print_request_def)
  then have "\<exists>conn'. serve create call doc_root fs segs (start_conn x y st cs) =
      Inr (Async_write (concat (to_buffers (stock_reply Bad_request))), conn')"
    using assms by (intro no_CR_serve) (simp_all add: start_conn_def)
  moreover have "list_all plain_header (rep_headers (stock_reply Bad_request))" by code_simp
  from response_of_reply' [OF this, of new_HttpResponse]
  have "\<exists>rs. read_response (stream_of (concat (to_buffers (stock_reply Bad_request)))) new_HttpResponse = Some rs \<and>
      rs_stat_code rs = 400"
    by (simp add: new_HttpResponse_def stream_of_def stream_good_def stock_reply_def)
  ultimately show ?thesis by blast
qed

lemma client_request_rejected_witness:
  "\<exists>bytes conn' rs. serve (\<lambda>c w. (None, w)) (\<lambda>h p c w. ([], w)) ''/srv'' (\<lambda>p. Some ''x'')
       [''GET /a HTTP/1.0'' @ [NL] @ ''Host: h'', [NL, NL, NL, NL]] (start_conn 0 0 Ok \<lparr>cmds = [], world = ()\<rparr>) =
       Inr (Async_write bytes, conn') \<and>
     read_response (stream_of bytes) new_HttpResponse = Some rs \<and> rs_stat_code rs = 400"
  by (rule client_request_rejected [of _ "setHost ''h'' (setResource ''/a'' new_HttpReqest)"])
    (simp_all add: print_request_def setHost_def setResource_def new_HttpReqest_def)

section \<open>Sending over a network\<close>

text \<open>What a client asks for depends on its URL alone, also when this is none: a URL without a resource
  leaves the resource (and host) of the one before.\<close>

lemma connect_url_stale:
  "let cl = HttpClient_of ''http://a/b''; cl' = set_request_url (cl\<lparr>cl_url := setUrl ''http://x'' (cl_url cl)\<rparr>)
   in IsUrl (cl_url cl') = Inr False \<and> rq_host (cl_request cl') = ''a'' \<and> rq_resource (cl_request cl') = ''/b''"
  by code_simp

text \<open>A successful exchange adds the response to the one the client has: \<open>_response\<close> is never reset.\<close>

lemma SendRequest_reply:
  assumes "send net (print_request (cl_request cl)) w = Inr w1" and "receive net w1 = ((data, True), w2)"
  shows "SendRequest net cl w =
     Inr (True, cl\<lparr>cl_response := snd (fold response_line (split_on NL data) (False, cl_response cl))\<rparr>, w2)"
  using assms by (simp add: SendRequest_def read_response_lines)

lemma open_first_result:
  "open_first net eps w = (ok, w') \<Longrightarrow>
     (if ok then \<exists>us ep vs w1. eps = us @ ep # vs \<and> open_ep net ep w1 = (True, w') else
        w' = fold (\<lambda>ep w. snd (open_ep net ep w)) eps w)"
proof (induction eps arbitrary: w)
  case (Cons ep eps)
  obtain b w1 where b: "open_ep net ep w = (b, w1)" by fastforce
  show ?case
  proof (cases b)
    case True
    then show ?thesis using Cons.prems b by (auto intro!: exI [of _ "[]"])
  next
    case False
    then have "open_first net eps w1 = (ok, w')" using Cons.prems b by simp
    from Cons.IH [OF this] False b show ?thesis
      by (auto split: if_splits) (metis append_Cons)
  qed
qed simp

end
