(* ===== verification/StockClient.thy ===== *)
theory StockClient
  imports HttpClient FloatArith
begin

text \<open>
  \<open>stockclient\<close>: \<open>Yahoo.cpp\<close>, which asks for prices with one \<open>HttpClient\<close>, \<open>Stock.cpp\<close>, the prices of
  a stock by day, and \<open>StockDataAdaptor.cpp\<close>, which fills a stock from the lines \<open>Yahoo\<close> returns.  The
  grammars of \<open>boost::spirit\<close> are parameters of the adaptor, the network one of \<open>Yahoo\<close>.
\<close>

section \<open>\<open>Yahoo\<close>\<close>

text \<open>
  What the three queries share: connect, send, and look whether the body's stream is at its end.
  The \<open>bool\<close> says whether there is a body to read.
\<close>

definition ask :: "('e, 'w) network \<Rightarrow> bytes \<Rightarrow> http_client \<Rightarrow> 'w \<Rightarrow> (bool \<times> http_client \<times> 'w) res" where
  "ask net s htc w =
     bindE (connect_url net s htc w) (\<lambda>(ok, htc, w).
       if \<not> ok then Inr (False, htc, w)
       else bindE (SendRequest net htc w) (\<lambda>(ok, htc, w).
         Inr (ok \<and> \<not> in_eof (rs_body (cl_response htc)), htc, w)))"

text \<open>The loop over the lines of the body; the rest of the stream stays in the client.\<close>

definition over_body :: "(bytes \<Rightarrow> 's \<Rightarrow> 's \<times> bool) \<Rightarrow> 's \<Rightarrow> http_client \<Rightarrow> ('s \<times> http_client) res" where
  "over_body f s htc =
     (case each_line f [] (rs_body (cl_response htc)) s of
        Some (s, st) \<Rightarrow> Inr (s, htc\<lparr>cl_response := (cl_response htc)\<lparr>rs_body := st\<rparr>\<rparr>)
      | None \<Rightarrow> Inl Hang)"

text \<open>The URL of the prices since a date \<open>y-m-d\<close>; \<open>None\<close> when the date has no two dashes.\<close>

definition his_url :: "bytes \<Rightarrow> bytes \<Rightarrow> bytes option res" where
  "his_url stockName startdate =
     (case find_from ''-'' startdate 0 of
        None \<Rightarrow> Inr None
      | Some idx1 \<Rightarrow>
          (case find_from ''-'' startdate (idx1 + 1) of
             None \<Rightarrow> Inr None
           | Some idx2 \<Rightarrow>
               let month = take (idx2 - idx1 - 1) (drop (idx1 + 1) startdate)
               in bindE (check_int (atoi month - 1)) (\<lambda>m.
                    Inr (Some (''http://ichart.yahoo.com/table.csv?s='' @ stockName @ ''&a='' @ show_int m @
                      ''&b='' @ drop (idx2 + 1) startdate @ ''&c='' @ take idx1 startdate)))))"

definition his_line :: "bytes \<Rightarrow> bool \<times> bytes list \<Rightarrow> (bool \<times> bytes list) \<times> bool" where
  "his_line line = (\<lambda>(hasTitle, result).
     (if hasTitle then (hasTitle, result @ [line])
      else if find_from ''Date'' line 0 \<noteq> None then (True, result)
      else (hasTitle, result @ [line]), False))"

definition GetHisData ::
  "('e, 'w) network \<Rightarrow> bytes \<Rightarrow> bytes \<Rightarrow> http_client \<Rightarrow> 'w \<Rightarrow> (bytes list \<times> http_client \<times> 'w) res" where
  "GetHisData net stockName startdate htc w =
     bindE (his_url stockName startdate) (\<lambda>u.
       case u of
         None \<Rightarrow> Inr ([], htc, w)
       | Some u \<Rightarrow> bindE (ask net u htc w) (\<lambda>(got, htc, w).
           if \<not> got then Inr ([], htc, w)
           else bindE (over_body his_line (False, []) htc) (\<lambda>((hasTitle, result), htc). Inr (result, htc, w))))"

abbreviation QUOTE :: char where "QUOTE \<equiv> CHR 0x22"

fun joined_names :: "bytes list \<Rightarrow> bytes" where
  "joined_names [] = []"
| "joined_names (n # ns) = n @ concat (map (\<lambda>n. CHR ''+'' # n) ns)"

definition day_url :: "bytes \<Rightarrow> bytes" where
  "day_url names = ''http://download.finance.yahoo.com/d/quotes.csv?s='' @ names @ ''&f=sl1d1t1c1ohgv''"

text \<open>When the quotation marks coincide the length \<open>idx2-idx1-1\<close> is the largest one.\<close>

definition day_line :: "bytes \<Rightarrow> (bytes, bytes) cmap \<Rightarrow> (bytes, bytes) cmap \<times> bool" where
  "day_line line result =
     (case find_from [QUOTE] line 0 of
        None \<Rightarrow> (result, False)
      | Some idx1 \<Rightarrow>
          (case find_from [QUOTE, CHR '',''] line 0 of
             None \<Rightarrow> (result, False)
           | Some idx2 \<Rightarrow>
               let stName = (if idx2 = idx1 then drop (idx1 + 1) line
                             else take (idx2 - idx1 - 1) (drop (idx1 + 1) line))
               in (cmap_insert stName (drop (idx2 + 2) line) result, False)))"

definition GetDayData_list ::
  "('e, 'w) network \<Rightarrow> bytes list \<Rightarrow> http_client \<Rightarrow> 'w \<Rightarrow> ((bytes, bytes) cmap \<times> http_client \<times> 'w) res" where
  "GetDayData_list net nameList htc w =
     bindE (ask net (day_url (joined_names nameList)) htc w) (\<lambda>(got, htc, w).
       if \<not> got then Inr ([], htc, w)
       else bindE (over_body day_line [] htc) (\<lambda>(result, htc). Inr (result, htc, w)))"

definition quote_line :: "bytes \<Rightarrow> bytes \<Rightarrow> bytes \<times> bool" where
  "quote_line line result =
     (case find_from [QUOTE, CHR '',''] line 0 of
        None \<Rightarrow> (result, False)
      | Some idx \<Rightarrow> (drop (idx + 2) line, True))"

definition GetDayData ::
  "('e, 'w) network \<Rightarrow> bytes \<Rightarrow> http_client \<Rightarrow> 'w \<Rightarrow> (bytes \<times> http_client \<times> 'w) res" where
  "GetDayData net nm htc w =
     bindE (ask net (day_url nm) htc w) (\<lambda>(got, htc, w).
       if \<not> got then Inr ([], htc, w)
       else bindE (over_body quote_line [] htc) (\<lambda>(result, htc). Inr (result, htc, w)))"

section \<open>\<open>Stock\<close>\<close>

record stock_price =
  Day :: bytes
  Open :: flt
  High :: flt
  Low :: flt
  Close :: flt
  Volume :: flt
  Adj_Close :: flt

text \<open>The fields of \<open>DayPrice\<close> that are used; the five levels of bids and asks never are.\<close>

record day_price =
  dp_Day :: bytes
  dp_tm :: bytes
  dp_Open :: flt
  dp_High :: flt
  dp_Low :: flt
  dp_Close :: flt
  dp_Volume :: flt

record stock =
  HisPrices :: "(bytes, stock_price) cmap"
  DayPrices :: "(bytes, day_price) cmap"
  stockName :: bytes
  stockCode :: bytes

definition new_Stock :: "bytes \<Rightarrow> stock" where
  "new_Stock nm = \<lparr>HisPrices = [], DayPrices = [], stockName = nm, stockCode = []\<rparr>"

definition AddHisPrice :: "stock_price \<Rightarrow> stock \<Rightarrow> stock" where
  "AddHisPrice p st = st\<lparr>HisPrices := cmap_insert (Day p) p (HisPrices st)\<rparr>"

definition AddDayPrice :: "day_price \<Rightarrow> stock \<Rightarrow> stock" where
  "AddDayPrice p st = st\<lparr>DayPrices := cmap_insert (dp_Day p @ ''|'' @ dp_tm p) p (DayPrices st)\<rparr>"

text \<open>The column of a name in \<open>HISTAG\<close>; other names select nothing.\<close>

definition his_column :: "bytes \<Rightarrow> stock_price \<Rightarrow> flt option" where
  "his_column colName p =
     (if colName = ''Open'' then Some (Open p)
      else if colName = ''High'' then Some (High p)
      else if colName = ''Low'' then Some (Low p)
      else if colName = ''Close'' then Some (Close p)
      else if colName = ''Volume'' then Some (Volume p)
      else if colName = ''Adj_Close'' then Some (Adj_Close p)
      else None)"

definition day_column :: "bytes \<Rightarrow> day_price \<Rightarrow> flt option" where
  "day_column colName p =
     (if colName = ''Open'' then Some (dp_Open p)
      else if colName = ''High'' then Some (dp_High p)
      else if colName = ''Low'' then Some (dp_Low p)
      else if colName = ''Close'' then Some (dp_Close p)
      else if colName = ''Volume'' then Some (dp_Volume p)
      else None)"

definition value_pair :: "('p \<Rightarrow> flt option) \<Rightarrow> (bytes, 'p) cmap \<Rightarrow> (bytes, flt) cmap" where
  "value_pair col prices =
     fold (\<lambda>(k, p) retmap. case col p of Some v \<Rightarrow> cmap_insert k v retmap | None \<Rightarrow> retmap) prices []"

definition value_list :: "('p \<Rightarrow> flt option) \<Rightarrow> (bytes, 'p) cmap \<Rightarrow> flt list" where
  "value_list col prices =
     fold (\<lambda>(k, p) retlist. case col p of Some v \<Rightarrow> retlist @ [v] | None \<Rightarrow> retlist) prices []"

definition getHisValuePair :: "bytes \<Rightarrow> stock \<Rightarrow> (bytes, flt) cmap" where
  "getHisValuePair colName st = value_pair (his_column colName) (HisPrices st)"

definition getDayValuePair :: "bytes \<Rightarrow> stock \<Rightarrow> (bytes, flt) cmap" where
  "getDayValuePair colName st = value_pair (day_column colName) (DayPrices st)"

definition getHisValueList :: "bytes \<Rightarrow> stock \<Rightarrow> flt list" where
  "getHisValueList colName st = value_list (his_column colName) (HisPrices st)"

definition getDayValueList :: "bytes \<Rightarrow> stock \<Rightarrow> flt list" where
  "getDayValueList colName st = value_list (day_column colName) (DayPrices st)"

section \<open>\<open>StockDataAdaptor\<close>\<close>

text \<open>
  \<open>FillHisdata\<close> uses a new client, \<open>FillCurentData\<close> the one of the adaptor.  The grammars: the price of
  a line that is parsed in full, and what was assigned while a quote was parsed, with whether it was
  parsed in full.  The quotation marks around day and time are removed in any case.
\<close>

definition FillHisdata ::
  "('e, 'w) network \<Rightarrow> (bytes \<Rightarrow> stock_price option) \<Rightarrow> bytes \<Rightarrow> stock \<Rightarrow> 'w \<Rightarrow> (stock \<times> 'w) res" where
  "FillHisdata net parse_line fromDate st w =
     bindE (GetHisData net (stockName st) fromDate new_HttpClient w) (\<lambda>(sl, htc, w).
       Inr (fold (\<lambda>l st. case parse_line (c_str l) of Some sp \<Rightarrow> AddHisPrice sp st | None \<Rightarrow> st) sl st, w))"

definition unquote :: "bytes \<Rightarrow> bytes res" where
  "unquote s = (if s = [] then Inl OutOfRange else Inr (if length s = 1 then [] else take (length s - 2) (drop 1 s)))"

definition FillCurentData ::
  "('e, 'w) network \<Rightarrow> (bytes \<Rightarrow> day_price \<times> bool) \<Rightarrow> http_client \<Rightarrow> stock \<Rightarrow> 'w \<Rightarrow>
     (bool \<times> http_client \<times> stock \<times> 'w) res" where
  "FillCurentData net parse_quote htc st w =
     bindE (GetDayData net (stockName st) htc w) (\<lambda>(pr, htc, w).
       let (sp, full) = parse_quote (c_str pr)
       in bindE (unquote (dp_Day sp)) (\<lambda>d. bindE (unquote (dp_tm sp)) (\<lambda>t.
            Inr (full, htc, AddDayPrice (sp\<lparr>dp_Day := d, dp_tm := t\<rparr>) st, w))))"

section \<open>The body is read once\<close>

lemma response_line_eof: "in_eof (rs_body (snd (response_line l s))) = in_eof (rs_body (snd s))"
  by (cases s) (auto simp: response_line_def read_status_def stream_put_def Let_def split: option.split)

lemma response_lines_eof: "in_eof (rs_body (snd (fold response_line ls s))) = in_eof (rs_body (snd s))"
  by (induction ls arbitrary: s) (simp_all add: response_line_eof)

lemma SendRequest_eof:
  assumes "SendRequest net htc w = Inr (ok, htc', w')"
  shows "in_eof (rs_body (cl_response htc')) = in_eof (rs_body (cl_response htc))"
proof -
  obtain w1 where "send net (print_request (cl_request htc)) w = Inr w1"
    using assms by (cases "send net (print_request (cl_request htc)) w") (simp_all add: SendRequest_def)
  moreover obtain data at_eof w2 where "receive net w1 = ((data, at_eof), w2)" by (metis surj_pair)
  ultimately show ?thesis
    using assms by (auto simp: SendRequest_def read_response_lines response_lines_eof split: if_splits)
qed

lemma connect_url_response:
  "connect_url net s htc w = Inr (ok, htc', w') \<Longrightarrow> cl_response htc' = cl_response htc"
  by (auto simp: connect_url_def set_request_url_def Let_def cxx_simps)

lemma ask_eof:
  "ask net s htc w = Inr (got, htc', w') \<Longrightarrow>
     in_eof (rs_body (cl_response htc')) = in_eof (rs_body (cl_response htc)) \<and>
     (in_eof (rs_body (cl_response htc)) \<longrightarrow> \<not> got)"
  by (auto simp: ask_def cxx_simps dest!: SendRequest_eof connect_url_response split: if_splits)

lemma each_line_end:
  assumes "each_line f line st s = Some r"
  shows "(\<forall>l s. \<not> snd (f l s)) \<longrightarrow> in_eof (snd r)"
proof (rule each_line.raw_induct [OF _ assms])
  fix each :: "(bytes \<Rightarrow> 'a \<Rightarrow> 'a \<times> bool) \<Rightarrow> bytes \<Rightarrow> in_stream \<Rightarrow> 'a \<Rightarrow> ('a \<times> in_stream) option" and f line st s r
  assume IH: "\<And>f line st s r. each f line st s = Some r \<Longrightarrow> (\<forall>l s. \<not> snd (f l s)) \<longrightarrow> in_eof (snd r)"
    and run: "(if in_eof st then Some (s, st)
        else let (line, st) = getline line st; (s, stop) = f line s
             in if stop then Some (s, st) else each f line st s) = Some r"
  obtain l st1 where l: "getline line st = (l, st1)" by fastforce
  obtain s1 stop where s1: "f l s = (s1, stop)" by fastforce
  show "(\<forall>l s. \<not> snd (f l s)) \<longrightarrow> in_eof (snd r)"
  proof
    assume goes_on: "\<forall>l s. \<not> snd (f l s)"
    then have "\<not> stop" using s1 by (metis snd_conv)
    then show "in_eof (snd r)" using IH [of f l st1 s1 r] run l s1 goes_on by (auto split: if_splits)
  qed
qed

lemma his_line_goes_on [simp]: "\<not> snd (his_line l s)"
  by (simp add: his_line_def case_prod_unfold)

lemma his_line_end: "each_line his_line line st s = Some (s', st') \<Longrightarrow> in_eof st'"
  by (drule each_line_end) simp

text \<open>A query returns something only when there was a body to read.\<close>

lemma GetHisData_eof:
  "GetHisData net n d htc w = Inr (ls, htc', w') \<Longrightarrow> ls \<noteq> [] \<Longrightarrow> in_eof (rs_body (cl_response htc'))"
  by (auto simp: GetHisData_def over_body_def cxx_simps split: option.splits if_splits) (rule his_line_end)

lemma GetHisData_got:
  "GetHisData net n d htc w = Inr (ls, htc', w') \<Longrightarrow> ls \<noteq> [] \<Longrightarrow> \<exists>u htc1. ask net u htc w = Inr (True, htc1, w')"
  by (auto simp: GetHisData_def cxx_simps split: option.splits if_splits)

lemma GetDayData_got:
  "GetDayData net n htc w = Inr (q, htc', w') \<Longrightarrow> q \<noteq> [] \<Longrightarrow> \<exists>u htc1. ask net u htc w = Inr (True, htc1, w')"
  by (auto simp: GetDayData_def cxx_simps split: if_splits)

lemma GetDayData_list_got:
  "GetDayData_list net ns htc w = Inr (qs, htc', w') \<Longrightarrow> qs \<noteq> [] \<Longrightarrow> \<exists>u htc1. ask net u htc w = Inr (True, htc1, w')"
  by (auto simp: GetDayData_list_def cxx_simps split: if_splits)

text \<open>C31.  The stream of the body is at its end after a history was read, and nothing resets it: every
  later query over the same client returns nothing, whatever the server answers.\<close>

theorem second_query_empty:
  assumes "GetHisData net n d htc w = Inr (ls, htc1, w1)" and "ls \<noteq> []"
  shows "(case GetHisData net n' d' htc1 w' of Inr (ls', htc2, w2) \<Rightarrow> ls' = [] | Inl e \<Rightarrow> True) \<and>
     (case GetDayData net n' htc1 w' of Inr (q, htc2, w2) \<Rightarrow> q = [] | Inl e \<Rightarrow> True) \<and>
     (case GetDayData_list net ns htc1 w' of Inr (qs, htc2, w2) \<Rightarrow> qs = [] | Inl e \<Rightarrow> True)"
proof -
  have no: "ask net s htc1 w' \<noteq> Inr (True, htc2, w2)" for s htc2 w2
    using GetHisData_eof [OF assms] ask_eof [of net s htc1 w' True htc2 w2] by blast
  show ?thesis
  proof (intro conjI)
    show "case GetHisData net n' d' htc1 w' of Inr (ls', htc2, w2) \<Rightarrow> ls' = [] | Inl e \<Rightarrow> True"
      using GetHisData_got [of net n' d' htc1 w'] no by (simp split: sum.split prod.split) blast
    show "case GetDayData net n' htc1 w' of Inr (q, htc2, w2) \<Rightarrow> q = [] | Inl e \<Rightarrow> True"
      using GetDayData_got [of net n' htc1 w'] no by (simp split: sum.split prod.split) blast
    show "case GetDayData_list net ns htc1 w' of Inr (qs, htc2, w2) \<Rightarrow> qs = [] | Inl e \<Rightarrow> True"
      using GetDayData_list_got [of net ns htc1 w'] no by (simp split: sum.split prod.split) blast
  qed
qed

section \<open>The rows of a history\<close>

definition his_rows :: "bytes list \<Rightarrow> bytes list" where
  "his_rows ls = takeWhile (\<lambda>l. \<not> contains ''Date'' l) ls @ drop 1 (dropWhile (\<lambda>l. \<not> contains ''Date'' l) ls)"

lemma his_line_title: "fold (\<lambda>l s. fst (his_line l s)) ls (True, r) = (True, r @ ls)"
  by (induction ls arbitrary: r) (simp_all add: his_line_def)

lemma his_line_rows: "snd (fold (\<lambda>l s. fst (his_line l s)) ls (False, r)) = r @ his_rows ls"
proof (induction ls arbitrary: r)
  case (Cons l ls)
  show ?case
  proof (cases "contains ''Date'' l")
    case True
    then have "fst (his_line l (False, r)) = (True, r)" by (simp add: his_line_def contains_def find_from_0)
    then show ?thesis using True his_line_title [of ls r] by (simp add: his_rows_def)
  next
    case False
    then show ?thesis using Cons.IH [of "r @ [l]"] by (simp add: his_line_def his_rows_def contains_def find_from_0)
  qed
qed (simp add: his_rows_def)

lemma his_url_date:
  assumes "CHR ''-'' \<notin> set y" and "m < 2 ^ 31"
  shows "his_url n (y @ ''-'' @ show_nat m @ ''-'' @ d) =
     Inr (Some (''http://ichart.yahoo.com/table.csv?s='' @ n @ ''&a='' @ show_int (int m - 1) @ ''&b='' @ d @ ''&c='' @ y))"
proof -
  have "CHR ''-'' \<notin> set (show_nat m)" using show_nat_digits [of "CHR ''-''" m] by (auto simp: is_digit_def)
  then have "find_from ''-'' (y @ ''-'' @ show_nat m @ ''-'' @ d) (length y + 1) = Some (length y + 1 + length (show_nat m))"
    using find_from_shift [of "''-''" "y @ ''-''" "show_nat m @ ''-'' @ d"] find_from_char [of "CHR ''-''" "show_nat m" d]
    by simp
  moreover have "find_from ''-'' (y @ ''-'' @ show_nat m @ ''-'' @ d) 0 = Some (length y)"
    using find_from_char [OF assms(1), of "show_nat m @ ''-'' @ d"] by simp
  moreover have "atoi (show_nat m) = int m" using atoi_show_nat [OF assms(2), of "[]"] by simp
  ultimately show ?thesis using assms(2) by (simp add: his_url_def check_int_def int_ok_def)
qed

definition his_resource :: "bytes \<Rightarrow> bytes \<Rightarrow> nat \<Rightarrow> bytes \<Rightarrow> bytes" where
  "his_resource n y m d = ''/table.csv?s='' @ n @ ''&a='' @ show_int (int m - 1) @ ''&b='' @ d @ ''&c='' @ y"

lemma connect_his:
  assumes "resolve net ''ichart.yahoo.com'' ''80'' w = Inr (eps, w1)" and "open_first net eps w1 = (True, w2)"
  shows "\<exists>htc. connect_url net (''http://ichart.yahoo.com'' @ ''/'' @ r) new_HttpClient w = Inr (True, htc, w2) \<and>
     cl_request htc = setHost ''ichart.yahoo.com'' (setResource (''/'' @ r) new_HttpReqest) \<and>
     cl_response htc = new_HttpResponse"
  using assms parseURl_parts(2) [of "''http''" "''ichart.yahoo.com''" 1 r new_HttpUrl]
  by (simp add: connect_url_def connect_def set_request_url_def setUrl_def new_HttpClient_def setHost_def
    setResource_def set_req_type_def new_HttpReqest_def)

lemma GetHisData_rows':
  assumes "CHR ''-'' \<notin> set y" and "m < 2 ^ 31"
    and "resolve net ''ichart.yahoo.com'' ''80'' w = Inr (eps, w1)" and "open_first net eps w1 = (True, w2)"
    and "send net (print_request (setHost ''ichart.yahoo.com'' (setResource (his_resource n y m d) new_HttpReqest))) w2 = Inr w3"
    and "receive net w3 = ((concat (to_buffers rep), True), w4)" and "list_all plain_header (rep_headers rep)"
  shows "\<exists>htc. GetHisData net n (y @ ''-'' @ show_nat m @ ''-'' @ d) new_HttpClient w =
     Inr (his_rows (split_on NL (body_lines (content rep))), htc, w4)"
proof -
  obtain htc where htc: "connect_url net (''http://ichart.yahoo.com'' @ his_resource n y m d) new_HttpClient w = Inr (True, htc, w2)"
      "cl_request htc = setHost ''ichart.yahoo.com'' (setResource (his_resource n y m d) new_HttpReqest)"
      "cl_response htc = new_HttpResponse"
    using connect_his [OF assms(3,4), of "tl (his_resource n y m d)"] by (auto simp: his_resource_def)
  have good: "stream_good (rs_body new_HttpResponse)" by (simp add: new_HttpResponse_def stream_of_def stream_good_def)
  have body: "rs_body (snd (fold response_line (split_on NL (concat (to_buffers rep))) (False, new_HttpResponse))) =
      stream_of (body_lines (content rep))"
    using response_of_reply' [OF assms(7) good] unfolding read_response_lines
    by (simp add: new_HttpResponse_def stream_of_def)
  define u where "u = ''http://ichart.yahoo.com'' @ his_resource n y m d"
  define htc1 where "htc1 = htc\<lparr>cl_response := snd (fold response_line (split_on NL (concat (to_buffers rep))) (False, new_HttpResponse))\<rparr>"
  have ask: "ask net u new_HttpClient w = Inr (True, htc1, w4)"
    using htc SendRequest_reply [of net htc w2 w3 "concat (to_buffers rep)" w4] assms(5,6) body
    by (simp add: ask_def stream_of_def u_def htc1_def)
  define t where "t = fold (\<lambda>l s. fst (his_line l s)) (split_on NL (body_lines (content rep))) (False, [])"
  have "over_body his_line (False, []) htc1 = Inr (t, htc1\<lparr>cl_response := (cl_response htc1)\<lparr>rs_body :=
      \<lparr>in_unread = [], in_eof = True, in_fail = (last (split_on NL (body_lines (content rep))) = [])\<rparr>\<rparr>\<rparr>)"
    by (simp add: over_body_def htc1_def body stream_of_def each_line_split t_def)
  moreover have "t = (fst t, his_rows (split_on NL (body_lines (content rep))))"
    using his_line_rows [of "split_on NL (body_lines (content rep))" "[]"] by (simp add: t_def prod_eq_iff)
  ultimately obtain htc2 where rows:
      "over_body his_line (False, []) htc1 = Inr ((fst t, his_rows (split_on NL (body_lines (content rep)))), htc2)"
    by (metis (no_types))
  have url: "his_url n (y @ ''-'' @ show_nat m @ ''-'' @ d) = Inr (Some u)"
    using his_url_date [OF assms(1,2), of n d] by (simp add: u_def his_resource_def)
  have "GetHisData net n (y @ ''-'' @ show_nat m @ ''-'' @ d) new_HttpClient w =
      Inr (his_rows (split_on NL (body_lines (content rep))), htc2, w4)"
    unfolding GetHisData_def url bindE.simps option.case ask prod.case not_True_eq_False if_False rows ..
  then show ?thesis by (rule exI)
qed

definition sample_net :: "(unit, unit) network" where
  "sample_net =
     \<lparr>resolve = \<lambda>h p w. Inr ([()], w), open_ep = \<lambda>e w. (True, w), send = \<lambda>b w. Inr w,
      receive = \<lambda>w. ((concat (to_buffers \<lparr>status = Ok, rep_headers = [],
        content = ''Date,Open'' @ [NL] @ ''2009-01-05,7'' @ [NL]\<rparr>), True), w)\<rparr>"

lemma sample_history:
  "\<exists>htc. GetHisData sample_net ''IBM'' (''2009'' @ ''-'' @ show_nat 1 @ ''-'' @ ''02'') new_HttpClient () =
     Inr ([''2009-01-05,7'', []], htc, ())"
proof -
  have "his_rows (split_on NL (body_lines (''Date,Open'' @ [NL] @ ''2009-01-05,7'' @ [NL]))) = [''2009-01-05,7'', []]"
    by code_simp
  then show ?thesis
    using GetHisData_rows' [of "''2009''" 1 sample_net "()" "[()]" "()" "()" "''IBM''" "''02''" "()"
        "\<lparr>status = Ok, rep_headers = [], content = ''Date,Open'' @ [NL] @ ''2009-01-05,7'' @ [NL]\<rparr>" "()"]
    by (simp add: sample_net_def)
qed

text \<open>C33.  A new client that asks for the history since \<open>y-m-d\<close> connects to the host, asks for the month
  counted from 0, and of a reply that the server frames returns every line that is not empty but
  the title line, with an empty line at the end.\<close>

theorem GetHisData_rows:
  assumes "CHR ''-'' \<notin> set y" and "m < 2 ^ 31"
    and "resolve net ''ichart.yahoo.com'' ''80'' w = Inr (eps, w1)" and "open_first net eps w1 = (True, w2)"
    and "send net (print_request (setHost ''ichart.yahoo.com'' (setResource (his_resource n y m d) new_HttpReqest))) w2 = Inr w3"
    and "receive net w3 = ((concat (to_buffers rep), True), w4)" and "list_all plain_header (rep_headers rep)"
  shows "\<exists>htc. GetHisData net n (y @ ''-'' @ show_nat m @ ''-'' @ d) new_HttpClient w =
     Inr (his_rows (split_on NL (body_lines (content rep))), htc, w4)"
  using assms by (rule GetHisData_rows')

lemma GetHisData_rows_witness:
  "\<exists>htc. GetHisData sample_net ''IBM'' (''2009'' @ ''-'' @ show_nat 1 @ ''-'' @ ''02'') new_HttpClient () =
     Inr (his_rows (split_on NL (body_lines (''Date,Open'' @ [NL] @ ''2009-01-05,7'' @ [NL]))), htc, ())"
  using GetHisData_rows [of "''2009''" 1 sample_net "()" "[()]" "()" "()" "''IBM''" "''02''" "()"
      "\<lparr>status = Ok, rep_headers = [], content = ''Date,Open'' @ [NL] @ ''2009-01-05,7'' @ [NL]\<rparr>" "()"]
  by (simp add: sample_net_def)

lemma second_query_empty_witness:
  "\<exists>htc. GetHisData sample_net ''IBM'' (''2009'' @ ''-'' @ show_nat 1 @ ''-'' @ ''02'') new_HttpClient () =
       Inr ([''2009-01-05,7'', []], htc, ()) \<and>
     (case GetHisData sample_net ''IBM'' ''2009-01-02'' htc () of Inr (ls, htc2, w2) \<Rightarrow> ls = [] | Inl e \<Rightarrow> True)"
proof -
  obtain htc where htc: "GetHisData sample_net ''IBM'' (''2009'' @ ''-'' @ show_nat 1 @ ''-'' @ ''02'') new_HttpClient () =
      Inr ([''2009-01-05,7'', []], htc, ())"
    using sample_history by (elim exE) (rule that)
  from second_query_empty [OF this, of "''IBM''" "''2009-01-02''" "()"] htc show ?thesis by blast
qed

section \<open>The prices of a stock\<close>

definition entries :: "('p \<Rightarrow> flt option) \<Rightarrow> (bytes, 'p) cmap \<Rightarrow> (bytes, flt) cmap" where
  "entries col prices = List.map_filter (\<lambda>(k, p). map_option (Pair k) (col p)) prices"

lemma entries_simps [simp]:
  "entries col [] = []"
  "entries col ((k, p) # ps) = (case col p of Some v \<Rightarrow> (k, v) # entries col ps | None \<Rightarrow> entries col ps)"
  by (simp_all add: entries_def map_filter_simps split: option.split)

lemma entries_keys: "fst ` set (entries col ps) \<subseteq> fst ` set ps"
proof (induction ps)
  case (Cons a ps)
  then show ?case by (cases a) (simp split: option.split, blast)
qed simp

lemma entries_ok: "cmap_ok ps \<Longrightarrow> cmap_ok (entries col ps)"
proof (induction ps)
  case (Cons a ps)
  then show ?case using entries_keys [of col ps] by (cases a) (fastforce simp: cmap_ok_def split: option.splits)
qed simp

lemma entries_find:
  "cmap_ok ps \<Longrightarrow> cmap_find (entries col ps) d = Option.bind (cmap_find ps d) col"
proof (induction ps)
  case (Cons a ps)
  obtain k p where a: "a = (k, p)" by (cases a)
  have "k \<notin> fst ` set ps" using Cons.prems by (auto simp: cmap_ok_def a)
  then have "map_of (entries col ps) k = None" using entries_keys [of col ps] by (auto simp: map_of_eq_None_iff)
  moreover have "cmap_find (entries col ps) d = Option.bind (cmap_find ps d) col"
    using Cons by (simp add: cmap_ok_def)
  ultimately show ?case by (cases "k = d") (simp_all add: a cmap_find_def split: option.split)
qed simp

lemma value_pair_eq: "cmap_ok prices \<Longrightarrow> value_pair col prices = entries col prices"
proof -
  have "fold (\<lambda>(k, p) m. case col p of Some v \<Rightarrow> cmap_insert k v m | None \<Rightarrow> m) ps m =
      fold (\<lambda>(k, v). cmap_insert k v) (entries col ps) m" for ps m
    by (induction ps arbitrary: m) (auto split: option.splits)
  moreover assume "cmap_ok prices"
  ultimately show ?thesis
    using cmap_insert_fold [of "[]" "entries col prices"] entries_ok [of prices col] by (simp add: value_pair_def)
qed

lemma value_list_eq: "value_list col prices = map snd (entries col prices)"
proof -
  have "fold (\<lambda>(k, p) l. case col p of Some v \<Rightarrow> l @ [v] | None \<Rightarrow> l) ps l = l @ map snd (entries col ps)"
    for ps and l :: "flt list"
    by (induction ps arbitrary: l) (auto split: option.splits)
  from this [of prices "[]"] show ?thesis by (simp add: value_list_def)
qed

lemma AddHisPrice_fold:
  "cmap_ok (HisPrices st) \<Longrightarrow>
     cmap_ok (HisPrices (fold AddHisPrice ps st)) \<and>
     cmap_find (HisPrices (fold AddHisPrice ps st)) d =
       (case cmap_find (HisPrices st) d of Some p \<Rightarrow> Some p | None \<Rightarrow> find (\<lambda>p. Day p = d) ps)"
proof (induction ps arbitrary: st)
  case (Cons p ps)
  then have "cmap_ok (HisPrices (AddHisPrice p st))" by (simp add: AddHisPrice_def)
  from Cons.IH [OF this] Cons.prems show ?case by (auto simp: AddHisPrice_def split: option.splits)
qed (simp split: option.splits)

text \<open>C22.  The history of a stock after any sequence of prices: one entry per day in the order of the days,
  the first price of a day is kept, and for a column the list is the values of the pairs, with nothing for a
  name that is no column.\<close>

theorem history_by_day:
  "let st = fold AddHisPrice ps (new_Stock nm)
   in cmap_ok (getHisValuePair c st) \<and> getHisValueList c st = map snd (getHisValuePair c st) \<and>
      cmap_find (getHisValuePair c st) d = Option.bind (find (\<lambda>p. Day p = d) ps) (his_column c)"
proof -
  define st where "st = fold AddHisPrice ps (new_Stock nm)"
  have "cmap_ok (HisPrices st)" "cmap_find (HisPrices st) d = find (\<lambda>p. Day p = d) ps"
    using AddHisPrice_fold [of "new_Stock nm" ps d] by (simp_all add: st_def new_Stock_def)
  then show ?thesis
    by (simp add: getHisValuePair_def getHisValueList_def value_pair_eq value_list_eq entries_ok entries_find
      flip: st_def)
qed

text \<open>A quote that cannot be parsed leaves the day empty, and removing its quotation marks throws.\<close>

lemma FillCurentData_unparsed:
  assumes "GetDayData net (stockName st) htc w = Inr (pr, htc', w')" and "dp_Day (fst (parse_quote (c_str pr))) = []"
  shows "FillCurentData net parse_quote htc st w = Inl OutOfRange"
  using assms by (cases "parse_quote (c_str pr)") (simp add: FillCurentData_def unquote_def)

end
