(* ===== verification/MqMessages.thy ===== *)
theory MqMessages
  imports CxxMap StringUtil
begin

text \<open>
  \<open>LibMQBase\<close>: \<open>MqMessage.h\<close>, the messages with an identity, a head and a body, and \<open>MqUtil.cpp\<close>, which
  sends and receives them as the frames of one multi-part message.  \<open>ValueUtil\<close> and \<open>json_spirit\<close>, which
  print and read a head, the message factory and ZeroMQ's sockets are not under \<open>src\<close>: they are the
  parameters \<open>head_json\<close>, \<open>json_head\<close>, \<open>create\<close>, \<open>zsend\<close> and \<open>zrecv\<close>.
\<close>

section \<open>Messages\<close>

record mq_message =
  mq_id :: bytes
  mq_head :: "(bytes, bytes) cmap"
  mq_msg :: bytes

text \<open>An \<open>ActorMqMessage\<close> holds a pointer to a message; its own \<open>m_head\<close> hides the inherited one and is
  never used.\<close>

record 'm actor_message =
  am_id :: bytes
  am_head :: "(bytes, bytes) cmap"
  am_msg :: "'m option"

definition new_mq_message :: mq_message where
  "new_mq_message = \<lparr>mq_id = [], mq_head = [], mq_msg = []\<rparr>"

definition mq_message_of :: "bytes \<Rightarrow> mq_message" where
  "mq_message_of s = new_mq_message\<lparr>mq_msg := s\<rparr>"

definition setIdentify :: "bytes \<Rightarrow> mq_message \<Rightarrow> mq_message" where
  "setIdentify i m = m\<lparr>mq_id := i\<rparr>"

definition setHead :: "(bytes \<Rightarrow> (bytes, bytes) cmap) \<Rightarrow> bytes \<Rightarrow> mq_message \<Rightarrow> mq_message" where
  "setHead json_head s m = m\<lparr>mq_head := json_head s\<rparr>"

definition mq_setMsg :: "bytes \<Rightarrow> mq_message \<Rightarrow> mq_message" where
  "mq_setMsg s m = m\<lparr>mq_msg := s\<rparr>"

definition mq_getHeadAtt :: "bytes \<Rightarrow> mq_message \<Rightarrow> bytes" where
  "mq_getHeadAtt nm m = (case cmap_find (mq_head m) nm of Some v \<Rightarrow> v | None \<Rightarrow> [])"

definition mq_addHeadAtt :: "bytes \<Rightarrow> bytes \<Rightarrow> mq_message \<Rightarrow> mq_message" where
  "mq_addHeadAtt nm v m = m\<lparr>mq_head := cmap_insert nm v (mq_head m)\<rparr>"

definition am_addHeadAtt :: "bytes \<Rightarrow> bytes \<Rightarrow> 'm actor_message \<Rightarrow> 'm actor_message" where
  "am_addHeadAtt nm v a = a\<lparr>am_head := cmap_insert nm v (am_head a)\<rparr>"

text \<open>
  \<open>ActorMqMessage(msg)\<close> adds the type when the pointer is null, which follows the null pointer.
\<close>

definition actor_message_of :: "'m option \<Rightarrow> 'm actor_message res" where
  "actor_message_of p =
     (case p of None \<Rightarrow> Inl NullDeref | Some x \<Rightarrow> Inr \<lparr>am_id = [], am_head = [], am_msg = p\<rparr>)"

text \<open>The conversions between the two; \<open>getMsg\<close> of an actor message prints what it points to.\<close>

definition actor_of_mq :: "(bytes \<Rightarrow> 'm option) \<Rightarrow> mq_message \<Rightarrow> 'm actor_message" where
  "actor_of_mq create m = \<lparr>am_id = mq_id m, am_head = mq_head m, am_msg = create (mq_msg m)\<rparr>"

definition am_getMsg :: "('m \<Rightarrow> bytes) \<Rightarrow> 'm actor_message \<Rightarrow> bytes res" where
  "am_getMsg toJson a = (case am_msg a of None \<Rightarrow> Inl NullDeref | Some x \<Rightarrow> Inr (toJson x))"

definition mq_of_actor :: "('m \<Rightarrow> bytes) \<Rightarrow> 'm actor_message \<Rightarrow> mq_message res" where
  "mq_of_actor toJson a =
     bindE (am_getMsg toJson a) (\<lambda>s. Inr \<lparr>mq_id = am_id a, mq_head = am_head a, mq_msg = s\<rparr>)"

section \<open>\<open>MqUtil\<close>\<close>

text \<open>A frame is sent with the flag \<open>ZMQ_SNDMORE\<close> or without.\<close>

type_synonym frame = "bytes \<times> bool"
type_synonym 'w zsend = "frame \<Rightarrow> 'w \<Rightarrow> bool \<times> 'w"
type_synonym 'w zrecv = "'w \<Rightarrow> (bool \<times> frame) \<times> 'w"

definition SendMqMessage ::
  "((bytes, bytes) cmap \<Rightarrow> bytes) \<Rightarrow> 'w zsend \<Rightarrow> mq_message \<Rightarrow> 'w \<Rightarrow> bool \<times> 'w" where
  "SendMqMessage head_json zsend m w =
     (let (idSend, w) =
            (if 0 < length (mq_id m) then
               let (idSend, w) = zsend (mq_id m, True) w
               in if idSend then zsend ([], True) w else (idSend, w)
             else (True, w));
          (headSend, w) = (if idSend then zsend (head_json (mq_head m), True) w else (True, w))
      in if headSend then zsend (mq_msg m, False) w else (False, w))"

partial_function (option) recv_frames :: "'w zrecv \<Rightarrow> bytes list \<Rightarrow> 'w \<Rightarrow> (bytes list \<times> 'w) option" where
  "recv_frames zrecv msgList w =
     (let ((isrecv, data, goes_on), w) = zrecv w
      in if \<not> isrecv then Some (msgList, w)
         else if \<not> goes_on then Some (msgList @ [data], w)
         else recv_frames zrecv (msgList @ [data]) w)"

text \<open>
  From the last frame backwards: the body, the head, and when a third frame is there, the identity from
  the first.  With one frame the iterator is moved beyond the end.
\<close>

definition assemble :: "(bytes \<Rightarrow> (bytes, bytes) cmap) \<Rightarrow> bytes list \<Rightarrow> mq_message res" where
  "assemble json_head msgList =
     (case rev msgList of
        [] \<Rightarrow> Inr new_mq_message
      | [b] \<Rightarrow> Inl BadIterator
      | b # h # fs \<Rightarrow>
          let m = setHead json_head h (mq_setMsg b new_mq_message)
          in Inr (if fs \<noteq> [] then setIdentify (hd msgList) m else m))"

definition RecvMqMessage ::
  "(bytes \<Rightarrow> (bytes, bytes) cmap) \<Rightarrow> 'w zrecv \<Rightarrow> 'w \<Rightarrow> (mq_message \<times> 'w) res" where
  "RecvMqMessage json_head zrecv w =
     (case recv_frames zrecv [] w of
        Some (msgList, w) \<Rightarrow> bindE (assemble json_head msgList) (\<lambda>m. Inr (m, w))
      | None \<Rightarrow> Inl Hang)"

section \<open>A socket pair that delivers frames in order\<close>

definition fifo_send :: "frame list zsend" where
  "fifo_send f q = (True, q @ [f])"

definition fifo_recv :: "frame list zrecv" where
  "fifo_recv q = (case q of f # q \<Rightarrow> ((True, f), q) | [] \<Rightarrow> ((False, [], False), []))"

text \<open>When the identity cannot be sent, the body is sent all the same, without the head.\<close>

lemma SendMqMessage_identity_fails:
  "mq_id m \<noteq> [] \<Longrightarrow> zsend (mq_id m, True) w = (False, w1) \<Longrightarrow>
     SendMqMessage head_json zsend m w = zsend (mq_msg m, False) w1"
  by (simp add: SendMqMessage_def)

text \<open>The frames of a message.\<close>

definition frames :: "((bytes, bytes) cmap \<Rightarrow> bytes) \<Rightarrow> mq_message \<Rightarrow> frame list" where
  "frames head_json m =
     (if mq_id m = [] then [] else [(mq_id m, True), ([], True)]) @ [(head_json (mq_head m), True), (mq_msg m, False)]"

lemma SendMqMessage_frames: "SendMqMessage head_json fifo_send m q = (True, q @ frames head_json m)"
  by (simp add: SendMqMessage_def fifo_send_def frames_def)

lemma recv_frames_go:
  "recv_frames fifo_recv acc ((b, True) # q) = recv_frames fifo_recv (acc @ [b]) q"
  "recv_frames fifo_recv acc ((b, False) # q) = Some (acc @ [b], q)"
  by (subst recv_frames.simps, simp add: fifo_recv_def)+

lemma RecvMqMessage_frames:
  "json_head (head_json (mq_head m)) = mq_head m \<Longrightarrow>
     RecvMqMessage json_head fifo_recv (frames head_json m @ q) = Inr (m, q)"
  by (auto simp: RecvMqMessage_def frames_def recv_frames_go assemble_def setHead_def mq_setMsg_def
      setIdentify_def new_mq_message_def)

fun recv_all :: "(bytes \<Rightarrow> (bytes, bytes) cmap) \<Rightarrow> nat \<Rightarrow> frame list \<Rightarrow> (mq_message list \<times> frame list) res" where
  "recv_all json_head 0 q = Inr ([], q)"
| "recv_all json_head (Suc n) q =
     bindE (RecvMqMessage json_head fifo_recv q) (\<lambda>(m, q). bindE (recv_all json_head n q) (\<lambda>(ms, q). Inr (m # ms, q)))"

lemma recv_all_frames:
  "list_all (\<lambda>m. json_head (head_json (mq_head m)) = mq_head m) ms \<Longrightarrow>
     recv_all json_head (length ms) (concat (map (frames head_json) ms)) = Inr (ms, [])"
  by (induction ms) (simp_all add: RecvMqMessage_frames)

lemma send_all_frames:
  "fold (\<lambda>m q. snd (SendMqMessage head_json fifo_send m q)) ms q = q @ concat (map (frames head_json) ms)"
  by (induction ms arbitrary: q) (simp_all add: SendMqMessage_frames)

text \<open>C19.  Messages sent over a socket that delivers the frames in order, with heads that are printed and
  read back, are received one by one as they were sent: identity, head and body, with an identity or
  without.  A message of a single frame makes the receiver leave its list.\<close>

theorem mq_messages_roundtrip:
  assumes "list_all (\<lambda>m. json_head (head_json (mq_head m)) = mq_head m) ms"
  shows "recv_all json_head (length ms) (fold (\<lambda>m q. snd (SendMqMessage head_json fifo_send m q)) ms []) = Inr (ms, []) \<and>
     RecvMqMessage json_head fifo_recv [(b, False)] = Inl BadIterator"
  using recv_all_frames [OF assms] send_all_frames [of head_json ms "[]"]
  by (simp add: RecvMqMessage_def recv_frames_go assemble_def)

text \<open>A printer and a reader of heads, for examples: keys and values on lines of their own.\<close>

definition lines_head :: "(bytes, bytes) cmap \<Rightarrow> bytes" where
  "lines_head h = concat (map (\<lambda>(k, v). k @ [NL] @ v @ [NL]) h)"

fun pair_up :: "bytes list \<Rightarrow> (bytes, bytes) cmap" where
  "pair_up (k # v # ls) = (k, v) # pair_up ls"
| "pair_up ls = []"

definition head_lines :: "bytes \<Rightarrow> (bytes, bytes) cmap" where
  "head_lines s = pair_up (split_on NL s)"

lemma mq_messages_roundtrip_witness:
  "recv_all head_lines 2 (fold (\<lambda>m q. snd (SendMqMessage lines_head fifo_send m q))
      [mq_addHeadAtt ''type'' ''rpc'' (setIdentify ''c1'' (mq_message_of ''hello'')), mq_message_of ''x''] []) =
     Inr ([mq_addHeadAtt ''type'' ''rpc'' (setIdentify ''c1'' (mq_message_of ''hello'')), mq_message_of ''x''], [])"
proof -
  have "list_all (\<lambda>m. head_lines (lines_head (mq_head m)) = mq_head m)
      [mq_addHeadAtt ''type'' ''rpc'' (setIdentify ''c1'' (mq_message_of ''hello'')), mq_message_of ''x'']"
    by code_simp
  from conjunct1 [OF mq_messages_roundtrip [OF this]] show ?thesis by (simp add: numeral_2_eq_2)
qed

end
