(* ===== verification/MqActors.thy ===== *)
theory MqActors
  imports MqMessages
begin

text \<open>
  The actors of \<open>LibMQBase\<close>: \<open>Listener.cpp\<close>, which polls its sockets by sending itself \<open>Interval\<close>
  messages and is stopped and restarted with \<open>OperSig\<close>, \<open>DispatchActor.h\<close>, which hands messages to its
  workers in turn, and \<open>RpcActor.cpp\<close>.  An actor of the Theron library handles the messages of its
  mailbox one at a time, in the order they came; \<open>listener_step\<close> is one of these turns.
\<close>

section \<open>\<open>Listener\<close>\<close>

datatype 'a lmsg = Interval int | OperSig int 'a

record 'a listener =
  isStop :: bool
  operList :: "'a list"

definition new_Listener :: "'a listener" where
  "new_Listener = \<lparr>isStop = False, operList = []\<rparr>"

text \<open>The sockets: which of them have something to read within a time, and their frames.\<close>

record 'w sockets =
  poll :: "int \<Rightarrow> 'w \<Rightarrow> (bool \<times> bool) \<times> 'w"
  il_recv :: "'w zrecv"
  ol_recv :: "'w zrecv"
  ol_send :: "'w zsend"

text \<open>What an actor does to others: a signal or a message that was received, or a time it listened.\<close>

datatype 'a effect = Signal int 'a | To_inter mq_message | Listened int

definition listen ::
  "((bytes, bytes) cmap \<Rightarrow> bytes) \<Rightarrow> (bytes \<Rightarrow> (bytes, bytes) cmap) \<Rightarrow> 'w sockets \<Rightarrow> int \<Rightarrow> 'w \<Rightarrow>
     ('a effect list \<times> 'w) res" where
  "listen head_json json_head socks timeout w =
     bindE (check_int (timeout * 1000)) (\<lambda>t.
       let ((inner, outer), w) = poll socks t w
       in bindE (if inner then
                   bindE (RecvMqMessage json_head (il_recv socks) w) (\<lambda>(m, w).
                     Inr (if 0 < length (mq_getHeadAtt ''type'' m)
                          then snd (SendMqMessage head_json (ol_send socks) m w) else w))
                 else Inr w) (\<lambda>w.
          if outer then bindE (RecvMqMessage json_head (ol_recv socks) w) (\<lambda>(m, w). Inr ([Listened timeout, To_inter m], w))
          else Inr ([Listened timeout], w)))"

text \<open>\<open>LoopHandler\<close> sends its message to itself again while the listener is not stopped.\<close>

definition LoopHandler ::
  "(int \<Rightarrow> 'w \<Rightarrow> ('a effect list \<times> 'w) res) \<Rightarrow> int \<Rightarrow> 'a listener \<Rightarrow> 'w \<Rightarrow>
     ('a listener \<times> 'a effect list \<times> 'a lmsg list \<times> 'w) res" where
  "LoopHandler lst v st w =
     (if \<not> isStop st then bindE (lst v w) (\<lambda>(es, w). Inr (st, es, [Interval v], w))
      else Inr (st\<lparr>operList := []\<rparr>, map (Signal 10) (operList st), [], w))"

definition OperHandler :: "int \<Rightarrow> 'a \<Rightarrow> 'a listener \<Rightarrow> 'a listener \<times> 'a effect list" where
  "OperHandler v from st =
     (if v = 0 then (st\<lparr>isStop := True, operList := operList st @ [from]\<rparr>, [])
      else if v = 1 then (st\<lparr>isStop := False\<rparr>, [Signal 11 from])
      else (st, []))"

text \<open>One turn: the first message of the mailbox is handled, what the actor sends itself comes last.\<close>

fun listener_step ::
  "(int \<Rightarrow> 'w \<Rightarrow> ('a effect list \<times> 'w) res) \<Rightarrow> 'a listener \<times> 'a lmsg list \<times> 'w \<Rightarrow>
     ('a effect list \<times> 'a listener \<times> 'a lmsg list \<times> 'w) res" where
  "listener_step lst (st, [], w) = Inr ([], st, [], w)"
| "listener_step lst (st, Interval v # mb, w) =
     bindE (LoopHandler lst v st w) (\<lambda>(st, es, self, w). Inr (es, st, mb @ self, w))"
| "listener_step lst (st, OperSig v a # mb, w) =
     (let (st, es) = OperHandler v a st in Inr (es, st, mb, w))"

fun listener_run ::
  "(int \<Rightarrow> 'w \<Rightarrow> ('a effect list \<times> 'w) res) \<Rightarrow> nat \<Rightarrow> 'a listener \<times> 'a lmsg list \<times> 'w \<Rightarrow>
     ('a effect list \<times> 'a listener \<times> 'a lmsg list \<times> 'w) res" where
  "listener_run lst 0 c = Inr ([], c)"
| "listener_run lst (Suc n) c =
     bindE (listener_step lst c) (\<lambda>(es, c). bindE (listener_run lst n c) (\<lambda>(es', c). Inr (es @ es', c)))"

section \<open>\<open>DispatchActor\<close>\<close>

text \<open>The workers and the position of \<open>m_cit\<close>, which may be the end; a message goes to a worker.\<close>

record 'a dispatcher =
  m_actorList :: "'a list"
  m_cit :: nat

definition new_DispatchActor :: "'a list \<Rightarrow> 'a dispatcher" where
  "new_DispatchActor ws = \<lparr>m_actorList = ws, m_cit = 0\<rparr>"

definition MQMessageHandler ::
  "(bytes \<Rightarrow> 'm option) \<Rightarrow> mq_message \<Rightarrow> 'a dispatcher \<Rightarrow> (('a \<times> 'm option) \<times> 'a dispatcher) res" where
  "MQMessageHandler create msg d =
     (let aMsg = actor_of_mq create msg;
          cit = (if m_cit d = length (m_actorList d) then 0 else m_cit d)
      in if cit < length (m_actorList d)
         then Inr ((m_actorList d ! cit, am_msg aMsg), d\<lparr>m_cit := cit + 1\<rparr>)
         else Inl BadIterator)"

text \<open>The answer of a worker: identity and head of the request are not in it.\<close>

definition WMessageHandler :: "('m \<Rightarrow> bytes) \<Rightarrow> ('m \<Rightarrow> bytes) \<Rightarrow> 'm option \<Rightarrow> mq_message res" where
  "WMessageHandler toJson getMsgType p =
     bindE (actor_message_of p) (\<lambda>aMsg. case p of
       None \<Rightarrow> Inl NullDeref
     | Some x \<Rightarrow> mq_of_actor toJson (am_addHeadAtt ''type'' (getMsgType x) aMsg))"

section \<open>\<open>RpcActor\<close>\<close>

text \<open>
  The request as a message is made by \<open>IXMqMessage\<close>, which is not under \<open>src\<close>.  The result is what is sent
  back to the caller, nothing when the request cannot be sent.
\<close>

definition ReqMessageHandler ::
  "((bytes, bytes) cmap \<Rightarrow> bytes) \<Rightarrow> (bytes \<Rightarrow> (bytes, bytes) cmap) \<Rightarrow> 'w zsend \<Rightarrow> 'w zrecv \<Rightarrow> ('w \<Rightarrow> bool \<times> 'w) \<Rightarrow>
     mq_message \<Rightarrow> 'w \<Rightarrow> (mq_message option \<times> 'w) res" where
  "ReqMessageHandler head_json json_head zsend zrecv wait_in ixmsg w =
     (let (sent, w) = SendMqMessage head_json zsend (mq_addHeadAtt ''type'' ''rpc'' ixmsg) w
      in if \<not> sent then Inr (None, w)
         else
           let (readable, w) = wait_in w
           in if readable then bindE (RecvMqMessage json_head zrecv w) (\<lambda>(rmsg, w). Inr (Some rmsg, w))
              else Inr (Some (mq_addHeadAtt ''type'' ''timeout'' new_mq_message), w))"

section \<open>Stopping and restarting the listener\<close>

fun is_interval :: "'a lmsg \<Rightarrow> bool" where
  "is_interval (Interval v) \<longleftrightarrow> True"
| "is_interval (OperSig v a) \<longleftrightarrow> False"

fun is_oper :: "int \<Rightarrow> 'a lmsg \<Rightarrow> bool" where
  "is_oper v (OperSig v' a) \<longleftrightarrow> v' = v"
| "is_oper v (Interval i) \<longleftrightarrow> False"

fun is_signal :: "'a effect \<Rightarrow> bool" where
  "is_signal (Signal v a) \<longleftrightarrow> True"
| "is_signal e \<longleftrightarrow> False"

lemma listener_run_add:
  "listener_run lst (n + k) c =
     bindE (listener_run lst n c) (\<lambda>(es, c). bindE (listener_run lst k c) (\<lambda>(es', c). Inr (es @ es', c)))"
proof (induction n arbitrary: c)
  case 0
  then show ?case by (cases "listener_run lst k c") auto
next
  case (Suc n)
  show ?case
  proof (cases "listener_step lst c")
    case (Inr r)
    obtain es c1 where r: "r = (es, c1)" by (cases r)
    show ?thesis
    proof (cases "listener_run lst n c1")
      case run: (Inr r')
      obtain es' c2 where "r' = (es', c2)" by (cases r')
      then show ?thesis using Inr r run Suc.IH [of c1] by (cases "listener_run lst k c2") auto
    qed (simp add: Inr r Suc.IH)
  qed simp
qed

text \<open>While the listener runs, a part of the mailbox without a stop request is handled in as many turns as
  it has messages, and its \<open>Interval\<close>s come behind the rest.\<close>

lemma run_before_stop:
  assumes "\<And>v w. Interval v \<in> set pre \<Longrightarrow> \<exists>es w'. lst v w = Inr (es, w')"
    and "\<not> isStop st" and "list_all (\<lambda>m. \<not> is_oper 0 m) pre"
  shows "\<exists>es w'. listener_run lst (length pre) (st, pre @ rest, w) = Inr (es, st, rest @ filter is_interval pre, w')"
  using assms
proof (induction pre arbitrary: rest w)
  case (Cons m pre)
  show ?case
  proof (cases m)
    case (Interval v)
    obtain es w1 where es: "lst v w = Inr (es, w1)" using Cons.prems(1) [of v w] Interval by auto
    obtain es' w2 where "listener_run lst (length pre) (st, pre @ rest @ [Interval v], w1) =
        Inr (es', st, (rest @ [Interval v]) @ filter is_interval pre, w2)"
      using Cons.IH [of "rest @ [Interval v]" w1] Cons.prems by auto
    then show ?thesis using es Interval Cons.prems(2) by (simp add: LoopHandler_def)
  next
    case (OperSig v a)
    obtain es' w2 where run: "listener_run lst (length pre) (st, pre @ rest, w) = Inr (es', st, rest @ filter is_interval pre, w2)"
      using Cons.IH [of rest w] Cons.prems by auto
    have "v \<noteq> 0" using Cons.prems(3) OperSig by simp
    moreover have "st\<lparr>isStop := False\<rparr> = st" using Cons.prems(2) by simp
    ultimately show ?thesis using run OperSig by (auto simp: OperHandler_def)
  qed
qed simp

text \<open>Once it is stopped, the next \<open>Interval\<close> answers everybody who asked.\<close>

lemma run_after_stop:
  assumes "isStop st" and "a \<in> set (operList st)" and "list_ex is_interval mb" and "list_all (\<lambda>m. \<not> is_oper 1 m) mb"
  shows "\<exists>n \<le> length mb. \<exists>es c. listener_run lst n (st, mb, w) = Inr (es, c) \<and> Signal 10 a \<in> set es"
  using assms
proof (induction mb arbitrary: st)
  case (Cons m mb)
  show ?case
  proof (cases m)
    case (Interval v)
    then have "listener_run lst 1 (st, m # mb, w) = Inr (map (Signal 10) (operList st), st\<lparr>operList := []\<rparr>, mb, w)"
      using Cons.prems(1) by (simp add: LoopHandler_def)
    moreover have "Signal 10 a \<in> set (map (Signal 10) (operList st))" using Cons.prems(2) by simp
    ultimately show ?thesis by (intro exI [of _ 1]) auto
  next
    case (OperSig v b)
    obtain st' es0 where st': "OperHandler v b st = (st', es0)" by fastforce
    have "isStop st'" "a \<in> set (operList st')"
      using st' Cons.prems(1,2,4) OperSig by (auto simp: OperHandler_def split: if_splits)
    then obtain n es c where n: "n \<le> length mb" "listener_run lst n (st', mb, w) = Inr (es, c)" "Signal 10 a \<in> set es"
      using Cons.IH [of st'] Cons.prems(3,4) OperSig by auto
    then have "listener_run lst (Suc n) (st, m # mb, w) = Inr (es0 @ es, c)" using st' OperSig by simp
    then show ?thesis
      using n(1,3) by (intro exI [of _ "Suc n"] conjI exI [of _ "es0 @ es"] exI [of _ c]) simp_all
  qed
qed simp

lemma stop_acknowledged':
  assumes "\<And>v w. Interval v \<in> set (pre @ post) \<Longrightarrow> \<exists>es w'. lst v w = Inr (es, w')"
    and "\<not> isStop st" and "list_all (\<lambda>m. \<not> is_oper 0 m) pre" and "list_all (\<lambda>m. \<not> is_oper 1 m) post"
    and "list_ex is_interval (pre @ post)"
  shows "\<exists>n \<le> 2 * length (pre @ post) + 1. \<exists>es c.
     listener_run lst n (st, pre @ OperSig 0 a # post, w) = Inr (es, c) \<and> Signal 10 a \<in> set es"
proof -
  let ?mb = "post @ filter is_interval pre"
  let ?st = "st\<lparr>isStop := True, operList := operList st @ [a]\<rparr>"
  obtain es0 w0 where es0: "listener_run lst (length pre) (st, pre @ OperSig 0 a # post, w) =
      Inr (es0, st, (OperSig 0 a # post) @ filter is_interval pre, w0)"
    using run_before_stop [of pre lst st "OperSig 0 a # post" w] assms(1-3) by auto
  have step: "listener_run lst 1 (st, (OperSig 0 a # post) @ filter is_interval pre, w0) = Inr ([], ?st, ?mb, w0)"
    by (simp add: OperHandler_def)
  have "list_all (\<lambda>m. \<not> is_oper 1 m) (filter is_interval pre)"
    by (auto simp: list_all_iff elim: is_interval.elims)
  moreover have "list_ex is_interval ?mb" using assms(5) by (auto simp: list_ex_iff)
  ultimately obtain n es c where n: "n \<le> length ?mb" "listener_run lst n (?st, ?mb, w0) = Inr (es, c)" "Signal 10 a \<in> set es"
    using run_after_stop [of ?st a ?mb lst w0] assms(4) by auto
  have "listener_run lst (length pre + (1 + n)) (st, pre @ OperSig 0 a # post, w) = Inr (es0 @ es, c)"
    unfolding listener_run_add es0 bindE.simps prod.case step n(2) by simp
  moreover have "length pre + (1 + n) \<le> 2 * length (pre @ post) + 1"
    using n(1) length_filter_le [of is_interval pre] by (simp del: length_filter_le)
  ultimately show ?thesis
    using n(3) by (intro exI [of _ "length pre + (1 + n)"] conjI exI [of _ "es0 @ es"] exI [of _ c]) simp_all
qed

text \<open>C8.  A running listener answers the first stop request in its mailbox: when an \<open>Interval\<close> is there, before
  the request or behind it, no restart follows and listening does not fail, the signal 10 is sent to whoever asked within twice as
  many turns as there are other messages, and one.\<close>

theorem stop_acknowledged:
  fixes pre post :: "'a lmsg list" and socks :: "'w sockets"
  assumes "\<And>v w. Interval v \<in> set (pre @ post) \<Longrightarrow>
      \<exists>(es :: 'a effect list) w'. listen head_json json_head socks v w = Inr (es, w')"
    and "\<not> isStop st" and "list_all (\<lambda>m. \<not> is_oper 0 m) pre" and "list_all (\<lambda>m. \<not> is_oper 1 m) post"
    and "list_ex is_interval (pre @ post)"
  shows "\<exists>n \<le> 2 * length (pre @ post) + 1. \<exists>es c.
     listener_run (listen head_json json_head socks) n (st, pre @ OperSig 0 a # post, w) = Inr (es, c) \<and> Signal 10 a \<in> set es"
  by (rule stop_acknowledged' [OF _ assms(2-5)]) (rule assms(1))

definition idle_sockets :: "unit sockets" where
  "idle_sockets = \<lparr>poll = \<lambda>t w. ((False, False), w), il_recv = \<lambda>w. ((False, [], False), w),
     ol_recv = \<lambda>w. ((False, [], False), w), ol_send = \<lambda>f w. (True, w)\<rparr>"

lemma listen_idle: "listen lines_head head_lines idle_sockets 1 w = Inr ([Listened 1], w)"
  by (simp add: listen_def idle_sockets_def check_int_def int_ok_def)

lemma stop_acknowledged_witness:
  "\<exists>n \<le> 3. \<exists>es c. listener_run (listen lines_head head_lines idle_sockets) n
     (new_Listener, [Interval 1] @ OperSig 0 ''a'' # [], ()) = Inr (es, c) \<and> Signal 10 ''a'' \<in> set es"
  using stop_acknowledged [of "[Interval 1]" "[]" lines_head head_lines idle_sockets new_Listener "''a''" "()"] listen_idle
  by (auto simp: new_Listener_def)

text \<open>Without an \<open>Interval\<close> in the mailbox nothing is polled, and none comes back.\<close>

lemma run_deaf:
  "list_all (\<lambda>m. \<not> is_interval m) mb \<Longrightarrow>
     \<exists>es st' mb'. listener_run lst n (st, mb, w) = Inr (es, st', mb', w) \<and> list_all is_signal es \<and>
       list_all (\<lambda>m. \<not> is_interval m) mb'"
proof (induction n arbitrary: st mb)
  case (Suc n)
  obtain es0 st1 mb1 where step: "listener_step lst (st, mb, w) = Inr (es0, st1, mb1, w)"
      "list_all is_signal es0" "list_all (\<lambda>m. \<not> is_interval m) mb1"
  proof (cases mb)
    case (Cons m mb1)
    obtain v a where "m = OperSig v a" using Cons Suc.prems by (cases m) auto
    moreover obtain st1 es0 where h: "OperHandler v a st = (st1, es0)" by fastforce
    moreover have "list_all is_signal es0" using h by (auto simp: OperHandler_def split: if_splits)
    ultimately show thesis using Cons Suc.prems that [of es0 st1 mb1] by simp
  qed (use that in simp)
  then show ?case using Suc.IH [OF step(3), of st1] by auto
qed simp

text \<open>A listener that was stopped is deaf for good: its stop is answered and uses up the \<open>Interval\<close>, and
  whatever signals come then, a restart included, it answers them but never polls its sockets again.\<close>

theorem restart_is_deaf:
  fixes a b :: 'a and socks :: "'w sockets"
  assumes "listen head_json json_head socks v w = Inr (es :: 'a effect list, w')"
    and "list_all (\<lambda>m. \<not> is_interval m) ops"
  shows "listener_run (listen head_json json_head socks) 4 (new_Listener, [Interval v, OperSig 0 a], w) =
       Inr (es @ [Signal 10 a], \<lparr>isStop = True, operList = []\<rparr>, [], w') \<and>
     (\<exists>es' st' mb'. listener_run (listen head_json json_head socks) n (\<lparr>isStop = True, operList = []\<rparr>, OperSig 1 b # ops, w') =
       Inr (es', st', mb', w') \<and> list_all is_signal es' \<and> list_all (\<lambda>m. \<not> is_interval m) mb')"
proof -
  have "listener_run (listen head_json json_head socks) (Suc (Suc (Suc (Suc 0)))) (new_Listener, [Interval v, OperSig 0 a], w) =
      Inr (es @ [Signal 10 a], \<lparr>isStop = True, operList = []\<rparr>, [], w')"
    using assms(1) by (simp add: LoopHandler_def OperHandler_def new_Listener_def)
  then show ?thesis
    using run_deaf [of "OperSig 1 b # ops" "listen head_json json_head socks" n "\<lparr>isStop = True, operList = []\<rparr>" w'] assms(2)
    by (simp add: numeral_eq_Suc)
qed

lemma restart_is_deaf_witness:
  "\<exists>es' st' mb'. listener_run (listen lines_head head_lines idle_sockets) 5
     (\<lparr>isStop = True, operList = []\<rparr>, OperSig 1 ''b'' # [OperSig 0 ''c''], ()) = Inr (es', st', mb', ()) \<and>
     list_all is_signal es' \<and> list_all (\<lambda>m. \<not> is_interval m) mb'"
  by (rule conjunct2 [OF restart_is_deaf [OF listen_idle]]) simp

text \<open>A restart that comes before the \<open>Interval\<close> leaves the loop alive and the stop unanswered.\<close>

lemma restart_in_time:
  assumes "listen head_json json_head socks v w = Inr (es, w')"
  shows "listener_run (listen head_json json_head socks) 3 (new_Listener, [Interval v, OperSig 0 a, OperSig 1 b], w) =
     Inr (es @ [Signal 11 b], new_Listener\<lparr>operList := [a]\<rparr>, [Interval v], w')"
  using assms by (simp add: LoopHandler_def OperHandler_def new_Listener_def numeral_eq_Suc)

section \<open>The dispatcher takes turns\<close>

fun dispatch_all ::
  "(bytes \<Rightarrow> 'm option) \<Rightarrow> mq_message list \<Rightarrow> 'a dispatcher \<Rightarrow> (('a \<times> 'm option) list \<times> 'a dispatcher) res" where
  "dispatch_all create [] d = Inr ([], d)"
| "dispatch_all create (m # ms) d =
     bindE (MQMessageHandler create m d) (\<lambda>(p, d). bindE (dispatch_all create ms d) (\<lambda>(ps, d). Inr (p # ps, d)))"

lemma dispatch_from:
  assumes "ws \<noteq> []" and "c \<le> length ws" and "(if c = length ws then 0 else c) = k mod length ws"
  shows "\<exists>d. dispatch_all create ms \<lparr>m_actorList = ws, m_cit = c\<rparr> =
     Inr (map (\<lambda>j. (ws ! ((k + j) mod length ws), create (mq_msg (ms ! j)))) [0..<length ms], d)"
  using assms(2,3)
proof (induction ms arbitrary: c k)
  case (Cons m ms)
  let ?c = "k mod length ws"
  have lt: "?c < length ws" using assms(1) by simp
  have hd: "MQMessageHandler create m \<lparr>m_actorList = ws, m_cit = c\<rparr> =
      Inr ((ws ! ?c, create (mq_msg m)), \<lparr>m_actorList = ws, m_cit = ?c + 1\<rparr>)"
    unfolding MQMessageHandler_def Let_def dispatcher.simps Cons.prems(2) using lt by (simp add: actor_of_mq_def)
  have "(if ?c + 1 = length ws then 0 else ?c + 1) = Suc k mod length ws" by (simp add: mod_Suc)
  then obtain d where "dispatch_all create ms \<lparr>m_actorList = ws, m_cit = ?c + 1\<rparr> =
      Inr (map (\<lambda>j. (ws ! ((Suc k + j) mod length ws), create (mq_msg (ms ! j)))) [0..<length ms], d)"
    using Cons.IH [of "?c + 1" "Suc k"] lt by auto
  then show ?case using hd by (simp add: upt_conv_Cons map_Suc_upt [symmetric] del: upt_Suc)
qed simp

text \<open>The workers get the messages in turn, the \<open>j\<close>-th message going to the worker with the number \<open>j\<close> modulo
  their count; without workers the first message makes the dispatcher follow the end of its list.\<close>

theorem dispatch_in_turn:
  "if ws = [] then dispatch_all create (m # ms) (new_DispatchActor ws) = Inl BadIterator
   else \<exists>d. dispatch_all create ms (new_DispatchActor ws) =
     Inr (map (\<lambda>j. (ws ! (j mod length ws), create (mq_msg (ms ! j)))) [0..<length ms], d)"
  using dispatch_from [of ws 0 0 create ms]
  by (simp add: new_DispatchActor_def MQMessageHandler_def)

text \<open>An answer has the type of its message and nothing of the request: without the identity it cannot be
  routed back; a message the factory does not know ends in a null pointer.\<close>

lemma answer_loses_identity:
  "WMessageHandler toJson getMsgType (am_msg (actor_of_mq create m)) =
     (case create (mq_msg m) of
        None \<Rightarrow> Inl NullDeref
      | Some x \<Rightarrow> Inr \<lparr>mq_id = [], mq_head = [(''type'', getMsgType x)], mq_msg = toJson x\<rparr>)"
  by (simp add: WMessageHandler_def actor_message_of_def actor_of_mq_def mq_of_actor_def am_getMsg_def
    am_addHeadAtt_def split: option.split)

text \<open>A request that cannot be sent is never answered.\<close>

lemma unsent_request_unanswered:
  "SendMqMessage head_json zsend (mq_addHeadAtt ''type'' ''rpc'' m) w = (False, w') \<Longrightarrow>
     ReqMessageHandler head_json json_head zsend zrecv wait_in m w = Inr (None, w')"
  by (simp add: ReqMessageHandler_def)

end
