(* ===== verification/Spec2Isabelle.thy ===== *)
theory Spec2Isabelle
  imports ContentTrain DomBlocks DateFormat HttpHandler StyleCompare BlockCluster Escaping KMeansCluster LayerCluster StockClient MqActors
begin

text \<open>
  The repository holds a distributed crawler (\<open>DisCrawler\<close>), which learns the layout of web pages, an HTTP
  server for commands (\<open>httpd/server\<close>), an HTTP client with a client for stock quotes over it
  (\<open>httpd/client\<close>, \<open>stockclient\<close>) and a library of actors over message queues (\<open>LibMQBase\<close>).  The
  development models the logic these programs are written for; a browser document, a socket, a file system or
  a library enters as an argument of the definitions that use it.

  \<^bold>\<open>What the theories model.\<close>
  \<^item> \<open>Prelude\<close>: byte strings, the errors of C++ as values (a read outside a block, a value never written, a
    null pointer, a failed conversion, an exception of the system, a loop without end), the \<open>do\<close> notation
    over \<open>cxx_error + 'a\<close>.  \<open>FloatArith\<close>: \<open>float\<close> and \<open>double\<close> with rounding, infinities and NaN.
    \<open>CxxMap\<close>: \<open>std::map\<close> as a sorted association list, and the interface \<open>key_store\<close>.  \<open>Regex\<close>: the part
    of \<open>regcomp\<close> the sources rely on, matched by derivatives.
  \<^item> \<open>DisCrawler/DOMAttUtil\<close>: \<open>Distance\<close> (\<open>distance.cpp\<close>), \<open>StringUtil\<close> (\<open>stringutil.cpp\<close> and the interface
    \<open>line_codec\<close> of everything that is read back line by line), \<open>StyleCompare\<close>, \<open>BlockNode\<close>,
    \<open>BlockUtils\<close> (with the keyword tests of \<open>analysis.cpp\<close>), \<open>DateFormat\<close> (its dates), \<open>BlockCluster\<close>,
    \<open>LayerCluster\<close>, each the file of its name, and \<open>Keywords\<close> (the rest of \<open>analysis.cpp\<close> and what \<open>BlockUtils.cpp\<close>
    and \<open>BlockCluster.cpp\<close> do with it: dates, authors, sources and links to other pages; a pattern whose
    sub-matches are used is matched by the argument \<open>rx\<close>, of which \<open>matcher_ok\<close> states the contract of
    \<open>regexec\<close>).  A page is a list of nodes; pages are inserted into a cluster,
    which finds the paths that all of them have, classifies the nodes and writes its rules to a file.
  \<^item> The document of the browser: \<open>Dom\<close> states the calls of the DOM as a record of functions with the laws the
    crawler relies on (locale \<open>dom_tree\<close>, interpreted on documents given as markup), \<open>DomAtt\<close> what the browser
    answers beyond the tree (locale \<open>browser_tree\<close>).  On it run \<open>XpathUtil\<close> (\<open>WrapperFetch/nsXpathUtil.cpp\<close>),
    \<open>DomBlocks\<close> (the functions of \<open>BlockUtils.cpp\<close> that read a document), \<open>NodeTree\<close> (\<open>StatCom/NodeTree.h\<close>),
    \<open>DomAtt\<close> (\<open>DOMAttUtil/nsDomAttUtil.cpp\<close>), \<open>DocAtt\<close> (\<open>StatCom/nsDocSet.cpp\<close>, \<open>nsDocAtt.cpp\<close>) and \<open>VarGen\<close>
    (\<open>StatCom/nsColVarGenerator.cpp\<close>, \<open>nsChlVarGenerator.cpp\<close>).
  \<^item> \<open>DisCrawler/StatCom\<close> and \<open>ContentTrain\<close>: \<open>AttClusters\<close> (\<open>nsAttVec.cpp\<close>, \<open>nsAttDim.cpp\<close>, \<open>nsAttSet.cpp\<close>,
    \<open>nsClustModel.cpp\<close>, \<open>ThresholdCluster.cpp\<close>), \<open>KMeansCluster\<close> (\<open>nsCluster.cpp\<close>; the k-means library is an
    argument), \<open>DimStat\<close> (\<open>nsDimStat.cpp\<close>, \<open>ContentDocAtt.cpp\<close>: the lengths of the texts at each path of a document
    and their means) and \<open>ContentTrain\<close> (\<open>ContentTrainUtil.cpp\<close>, \<open>ContentVarGen.cpp\<close>: what the documents of a class
    have in common, and the paths of content, title, date, author, source and advertisements).
  \<^item> \<open>httpd/server\<close>: \<open>HttpParser\<close> (\<open>request_parser.cpp\<close>), \<open>HttpReply\<close> (\<open>reply.cpp\<close>, \<open>mime_types.cpp\<close>), \<open>HttpHandler\<close>
    (\<open>request_handler.cpp\<close>, \<open>handle_command.hpp\<close>, \<open>connection.cpp\<close>): a connection reads segments, feeds the
    parser and writes one reply.  Commands are plug-ins, so running one is an argument.
  \<^item> \<open>httpd/client\<close> and \<open>stockclient\<close>: \<open>HttpClient\<close> (\<open>HttpUrl\<close>, \<open>HttpReqest\<close>, \<open>HttpResponse\<close>, \<open>HttpClient\<close>; the
    network is an argument) and \<open>StockClient\<close> (\<open>Yahoo\<close>, \<open>Stock\<close>, \<open>StockDataAdaptor\<close>; the grammars of
    boost::spirit are arguments).
  \<^item> \<open>LibMQBase\<close>: \<open>MqMessages\<close> (\<open>MqMessage.h\<close>, \<open>MqUtil.cpp\<close>) and \<open>MqActors\<close> (\<open>Listener\<close>, \<open>DispatchActor\<close>,
    \<open>RpcActor\<close>); a mailbox is a list of messages, JSON and ZeroMQ are arguments.
  \<^item> \<open>Escaping\<close> and this theory: what one program writes and another reads.

  A class is a record, a method a function of the record that returns the changed one, an exception or an
  undefined behaviour an \<open>Inl\<close>.  Definitions keep the names of the source; a name that two classes share, or
  that HOL has, gets the class as prefix.

  \<^bold>\<open>What is shown.\<close>  Invariants: what every sequence of insertions keeps of a page cluster (\<open>built_cluster\<close>),
  that classes partition the documents.  Clusters of strings: each centre is a medoid of its class, and
  centres lie further apart than the threshold.  Refinement: the clustering over two parallel arrays implements
  first fit over a list of classes.  Equivalence: \<open>LD\<close> of strings of equal length is the edit distance, and a
  connection gives one answer however its input is split.  Safety: only files below the document root are
  served.  Round trips: requests, replies, URLs, queue messages, pages, access lists and clusters are read back as
  they were written, dates as they are formatted, and the XPath of a node, read as XPath, selects the node; or the
  theorem says what is lost.  Function: the walks over a document visit its elements in document order and
  collect what a reference definition over that list gives; boxes, depths and link distances are what
  the tree says; the main nodes of a class are the common paths that pass the tests.  Termination: the loops over a finite document and over a tree of nodes end.  Liveness: a running
  listener answers a stop request.  Bounds: similarities lie between 0 and 1.  Errors: the inputs on which the
  code leaves a block, uses an erased iterator or loses data.

  \<^bold>\<open>Bounds.\<close>  Integer operations that can leave their type are guarded or wrapped in the definitions.  A
  count is converted to \<open>float\<close> exactly up to \<open>2 ^ 24\<close>; \<open>sim_score\<close> takes texts of at most 900 bytes; the layered
  clustering remembers a distance under \<open>10000 * i + j\<close>, so its result is stated for indexes below 10000;
  patterns are matched in the C locale, where a character is a byte.  No definition takes fuel: loops are structural, have
  a measure, or are \<open>partial_function (option)\<close>, where \<open>None\<close> is a loop that never ends and the theorems prove
  that there is a result.

  \<^bold>\<open>Not modelled.\<close>  The code that opens windows and waits for their events over XPCOM (\<open>BrowserListner\<close>, most of
  \<open>WrapperFetch\<close>, \<open>LoginFetch\<close>): nearly every line calls an interface that is not under \<open>src\<close>.  \<open>SoapCom\<close>, the main
  programs, the R packages and the Qt tool only glue libraries together.  Parts of \<open>LibMQBase\<close> and all of
  \<open>zmqWraper/src\<close> do not compile.  Third-party code (gSOAP, KMlocal, FFLL, TinyXML, scws, JsonCpp, Boost.Log,
  pantheios) stays outside.  \<open>StatExt\<close> repeats \<open>StatCom\<close> over attributes of its own, and the asynchronous HTTP client
  lives in the callbacks of Boost.Asio.
\<close>

section \<open>The crawler's \<open>escape\<close> and the server's \<open>url_decode\<close>\<close>

text \<open>C40.  The server decodes what the crawler escaped exactly for the bytes from 16 to 127: below 16 only one
  digit is written, and from 128 on the sign is extended to eight.  A string of such bytes
  survives escaping and decoding.\<close>

theorem escape_decodes:
  "(url_decode (escape [c]) = Some [c] \<longleftrightarrow> 16 \<le> (of_char c :: nat) \<and> (of_char c :: nat) < 128) \<and>
   (list_all (\<lambda>c. 16 \<le> (of_char c :: nat) \<and> (of_char c :: nat) < 128) s \<longrightarrow> url_decode (escape s) = Some s)"
  using escape_byte [of c] decode_encoded [OF escape_encodes [of s]] by blast

lemma escape_decodes_witness: "url_decode (escape ''a b/%'') = Some ''a b/%''"
  using escape_decodes [of _ "''a b/%''"] by simp

end
